(* ===== verification/Xv6_Prelude.thy ===== *)
theory Xv6_Prelude
  imports Main "HOL-Library.Word"
begin

unbundle bit_operations_syntax

text \<open>
  Shared vocabulary of the development.

  \<^item> The C integer types of \<^verbatim>\<open>kernel/types.h\<close> as words.
  \<^item> The ways a kernel routine can fail to return (\<open>stop\<close>): it panics, it goes to sleep on
    a channel, or it ends the calling process.  A routine that can do any of these returns
    \<open>'a res = stop + 'a\<close>; \<open>bindR\<close> sequences two such routines.
  \<^item> Counting loops: \<open>forR\<close> runs a fallible body over a list of indices.
  \<^item> Byte memory: little-endian loads and stores on \<open>nat \<Rightarrow> byte\<close>, used for physical
    memory and for disk blocks.
  \<^item> The collections \<open>res_simps\<close> (inversion of \<open>bindR\<close>) and \<open>mem_simps\<close>.
\<close>

section \<open>C integers and constants\<close>

type_synonym byte = "8 word"
type_synonym uint16 = "16 word"
type_synonym uint32 = "32 word"
type_synonym uint64 = "64 word"
type_synonym memory = "nat \<Rightarrow> byte"

named_theorems res_simps
named_theorems mem_simps

lemma unat_less: "unat (w :: 'a::len word) < 2 ^ LENGTH('a)"
  by (rule unsigned_less)

lemma of_nat_unat_id: "of_nat (unat w) = (w :: 'a::len word)"
  by simp

section \<open>Routines that may not return\<close>

text \<open>
  Sleep channels are addresses in the C code; the ones used are addresses of distinct kernel
  objects, so the model names the object.
\<close>

datatype chan =
    ChProc nat        \<comment> \<open>a \<^verbatim>\<open>struct proc\<close> (\<^verbatim>\<open>wait\<close>)\<close>
  | ChLog             \<comment> \<open>\<^verbatim>\<open>&log\<close>\<close>
  | ChBuf nat         \<comment> \<open>a buffer, or its sleep lock\<close>
  | ChInode nat       \<comment> \<open>the sleep lock of an inode table entry\<close>
  | ChPipeR nat       \<comment> \<open>\<^verbatim>\<open>&pi->nread\<close>\<close>
  | ChPipeW nat       \<comment> \<open>\<^verbatim>\<open>&pi->nwrite\<close>\<close>
  | ChCons            \<comment> \<open>\<^verbatim>\<open>&cons.r\<close>\<close>
  | ChUart            \<comment> \<open>\<^verbatim>\<open>&uart_tx_r\<close>\<close>
  | ChTicks           \<comment> \<open>\<^verbatim>\<open>&ticks\<close>\<close>
  | ChDisk            \<comment> \<open>\<^verbatim>\<open>&disk.free[0]\<close>\<close>

datatype stop =
    Panic string      \<comment> \<open>\<^verbatim>\<open>panic(msg)\<close>\<close>
  | Sleeps chan       \<comment> \<open>the caller sleeps and cannot go on by itself\<close>
  | Exits int         \<comment> \<open>\<^verbatim>\<open>exit(status)\<close> was called\<close>
  | Diverges          \<comment> \<open>a pointer-chasing loop ran out of the fuel given to it\<close>

type_synonym 'a res = "stop + 'a"

definition bindR :: "'a res \<Rightarrow> ('a \<Rightarrow> 'b res) \<Rightarrow> 'b res" where
  "bindR m f = (case m of Inl e \<Rightarrow> Inl e | Inr a \<Rightarrow> f a)"

lemma bindR_Inr [simp]: "bindR (Inr a) f = f a"
  by (simp add: bindR_def)

lemma bindR_Inl [simp]: "bindR (Inl e) f = Inl e"
  by (simp add: bindR_def)

lemma bindR_eq_Inr [res_simps]: "bindR m f = Inr b \<longleftrightarrow> (\<exists>a. m = Inr a \<and> f a = Inr b)"
  by (cases m) auto

lemma bindR_eq_Inl [res_simps]:
  "bindR m f = Inl e \<longleftrightarrow> m = Inl e \<or> (\<exists>a. m = Inr a \<and> f a = Inl e)"
  by (cases m) auto

lemma bindR_assoc: "bindR (bindR m f) g = bindR m (\<lambda>a. bindR (f a) g)"
  by (cases m) auto

lemma bindR_cong [fundef_cong]:
  "m = m' \<Longrightarrow> (\<And>a. m' = Inr a \<Longrightarrow> f a = f' a) \<Longrightarrow> bindR m f = bindR m' f'"
  by (cases m') auto

text \<open>\<open>for (i = ...; ...; i++) body\<close> with a body that may stop.\<close>

fun forR :: "('i \<Rightarrow> 's \<Rightarrow> 's res) \<Rightarrow> 'i list \<Rightarrow> 's \<Rightarrow> 's res" where
  "forR f [] s = Inr s"
| "forR f (i # is) s = bindR (f i s) (forR f is)"

lemma forR_append: "forR f (xs @ ys) s = bindR (forR f xs s) (forR f ys)"
proof (induction xs arbitrary: s)
  case Nil
  then show ?case by simp
next
  case (Cons x xs)
  then show ?case by (cases "f x s") auto
qed

text \<open>The loop rule: an invariant indexed by the part of the list already done.\<close>

lemma forR_total:
  assumes "I [] s"
    and "\<And>done i rest t. xs = done @ i # rest \<Longrightarrow> I done t \<Longrightarrow>
           \<exists>t'. f i t = Inr t' \<and> I (done @ [i]) t'"
  shows "\<exists>s'. forR f xs s = Inr s' \<and> I xs s'"
proof -
  have "\<exists>s'. forR f ys t = Inr s' \<and> I xs s'" if "xs = zs @ ys" "I zs t" for ys zs t
    using that
  proof (induction ys arbitrary: zs t)
    case Nil
    then show ?case by simp
  next
    case (Cons y ys)
    from assms(2)[OF Cons.prems] obtain t' where "f y t = Inr t'" "I (zs @ [y]) t'" by blast
    with Cons.IH[of "zs @ [y]" t'] Cons.prems show ?case by simp
  qed
  from this[of "[]" xs s] assms(1) show ?thesis by simp
qed

lemma forR_partial:
  assumes "forR f xs s = Inr s'" and "I [] s"
    and "\<And>done i rest t t'. xs = done @ i # rest \<Longrightarrow> I done t \<Longrightarrow> f i t = Inr t' \<Longrightarrow>
           I (done @ [i]) t'"
  shows "I xs s'"
proof -
  have "I xs s'" if "xs = zs @ ys" "I zs t" "forR f ys t = Inr s'" for ys zs t
    using that
  proof (induction ys arbitrary: zs t)
    case Nil
    then show ?case by simp
  next
    case (Cons y ys)
    from Cons.prems(3) obtain t' where t': "f y t = Inr t'" "forR f ys t' = Inr s'"
      by (auto simp: res_simps)
    from assms(3)[OF Cons.prems(1,2) t'(1)] have "I (zs @ [y]) t'" .
    with Cons.IH[of "zs @ [y]" t'] Cons.prems(1) t'(2) show ?case by simp
  qed
  from this[of "[]" xs s] assms(1,2) show ?thesis by simp
qed

section \<open>Byte memory\<close>

text \<open>
  \<open>rdbytes m a n\<close> are the \<open>n\<close> bytes at address \<open>a\<close>; \<open>wrbytes m a bs\<close> overwrites memory
  from \<open>a\<close> on with \<open>bs\<close>.
\<close>

definition rdbytes :: "memory \<Rightarrow> nat \<Rightarrow> nat \<Rightarrow> byte list" where
  "rdbytes m a n = map (\<lambda>i. m (a + i)) [0..<n]"

definition wrbytes :: "memory \<Rightarrow> nat \<Rightarrow> byte list \<Rightarrow> memory" where
  "wrbytes m a bs = (\<lambda>i. if a \<le> i \<and> i < a + length bs then bs ! (i - a) else m i)"

lemma length_rdbytes [simp]: "length (rdbytes m a n) = n"
  by (simp add: rdbytes_def)

lemma nth_rdbytes [simp]: "i < n \<Longrightarrow> rdbytes m a n ! i = m (a + i)"
  by (simp add: rdbytes_def)

lemma wrbytes_in: "a \<le> i \<Longrightarrow> i < a + length bs \<Longrightarrow> wrbytes m a bs i = bs ! (i - a)"
  by (simp add: wrbytes_def)

lemma wrbytes_out: "i < a \<or> a + length bs \<le> i \<Longrightarrow> wrbytes m a bs i = m i"
  by (auto simp: wrbytes_def)

lemma wrbytes_Nil [simp]: "wrbytes m a [] = m"
  by (rule ext) (auto simp: wrbytes_def)

lemma wrbytes_Cons: "wrbytes (m(s := x)) (Suc s) xs = wrbytes m s (x # xs)"
  by (rule ext) (auto simp: wrbytes_def nth_Cons')

lemma wrbytes_append: "wrbytes (wrbytes m s xs) (s + length xs) ys = wrbytes m s (xs @ ys)"
  by (rule ext) (auto simp: wrbytes_def nth_append)

lemma rdbytes_0 [simp]: "rdbytes m a 0 = []"
  by (simp add: rdbytes_def)

lemma rdbytes_Suc: "rdbytes m a (Suc n) = m a # rdbytes m (Suc a) n"
  by (simp add: rdbytes_def upt_conv_Cons map_Suc_upt[symmetric] comp_def del: upt_Suc)

lemma rdbytes_wrbytes_same [mem_simps]: "length bs = n \<Longrightarrow> rdbytes (wrbytes m a bs) a n = bs"
  by (rule nth_equalityI) (auto simp: wrbytes_def)

lemma rdbytes_wrbytes_disj [mem_simps]:
  "b + n \<le> a \<or> a + length bs \<le> b \<Longrightarrow> rdbytes (wrbytes m a bs) b n = rdbytes m b n"
  by (rule nth_equalityI) (auto simp: wrbytes_def)

lemma wrbytes_rdbytes [simp]: "wrbytes m a (rdbytes m a n) = m"
  by (rule ext) (auto simp: wrbytes_def)

text \<open>Little-endian encodings of the C integer types.\<close>

definition enc_le :: "nat \<Rightarrow> nat \<Rightarrow> byte list" where
  "enc_le n v = map (\<lambda>i. of_nat (v div 256 ^ i)) [0..<n]"

fun dec_le :: "byte list \<Rightarrow> nat" where
  "dec_le [] = 0"
| "dec_le (b # bs) = unat b + 256 * dec_le bs"

lemma length_enc_le [simp]: "length (enc_le n v) = n"
  by (simp add: enc_le_def)

lemma enc_le_Suc: "enc_le (Suc n) v = of_nat v # enc_le n (v div 256)"
proof -
  have "map (\<lambda>i. of_nat (v div 256 ^ i) :: byte) [0..<Suc n]
      = of_nat v # map (\<lambda>i. of_nat (v div 256 ^ Suc i)) [0..<n]"
    unfolding upt_conv_Cons[OF zero_less_Suc] map_Suc_upt[symmetric] by (simp add: comp_def)
  then show ?thesis
    by (simp add: enc_le_def div_mult2_eq)
qed

lemma dec_enc_le [mem_simps]: "dec_le (enc_le n v) = v mod 256 ^ n"
proof (induction n arbitrary: v)
  case 0
  then show ?case by (simp add: enc_le_def)
next
  case (Suc n)
  have "unat (of_nat v :: byte) = v mod 256" by (simp add: unat_of_nat)
  with Suc show ?case by (simp add: enc_le_Suc mod_mult2_eq)
qed

lemma dec_le_less: "dec_le bs < 256 ^ length bs"
proof (induction bs)
  case Nil
  then show ?case by simp
next
  case (Cons b bs)
  have "unat b < 256" using unat_less[of b] by simp
  with Cons show ?case by simp
qed

lemma enc_dec_le: "length bs = n \<Longrightarrow> enc_le n (dec_le bs) = bs"
proof (induction bs arbitrary: n)
  case Nil
  then show ?case by (simp add: enc_le_def)
next
  case (Cons b bs)
  have b: "unat b < 256" using unat_less[of b] by simp
  have "(256 :: byte) = 0" by simp
  then have "(of_nat (256 * dec_le bs) :: byte) = 0" by (simp only: of_nat_mult of_nat_numeral mult_zero_left)
  with b Cons show ?case by (auto simp: enc_le_Suc)
qed

definition rd16 :: "memory \<Rightarrow> nat \<Rightarrow> uint16" where
  "rd16 m a = of_nat (dec_le (rdbytes m a 2))"

definition wr16 :: "memory \<Rightarrow> nat \<Rightarrow> uint16 \<Rightarrow> memory" where
  "wr16 m a v = wrbytes m a (enc_le 2 (unat v))"

definition rd32 :: "memory \<Rightarrow> nat \<Rightarrow> uint32" where
  "rd32 m a = of_nat (dec_le (rdbytes m a 4))"

definition wr32 :: "memory \<Rightarrow> nat \<Rightarrow> uint32 \<Rightarrow> memory" where
  "wr32 m a v = wrbytes m a (enc_le 4 (unat v))"

definition rd64 :: "memory \<Rightarrow> nat \<Rightarrow> uint64" where
  "rd64 m a = of_nat (dec_le (rdbytes m a 8))"

definition wr64 :: "memory \<Rightarrow> nat \<Rightarrow> uint64 \<Rightarrow> memory" where
  "wr64 m a v = wrbytes m a (enc_le 8 (unat v))"

lemma unat_mod_256_power:
  "unat (v :: uint16) mod 256 ^ 2 = unat v" "unat (x :: uint32) mod 256 ^ 4 = unat x"
  "unat (y :: uint64) mod 256 ^ 8 = unat y"
  using unat_less[of v] unat_less[of x] unat_less[of y] by simp_all

lemma rd_wr_same [mem_simps]:
  "rd16 (wr16 m a v) a = v" "rd32 (wr32 m a x) a = x" "rd64 (wr64 m a y) a = y"
  by (simp_all only: rd16_def wr16_def rd32_def wr32_def rd64_def wr64_def rdbytes_wrbytes_same
      length_enc_le dec_enc_le unat_mod_256_power of_nat_unat_id)

lemma rd_wrbytes_disj [mem_simps]:
  "b + 2 \<le> a \<or> a + length bs \<le> b \<Longrightarrow> rd16 (wrbytes m a bs) b = rd16 m b"
  "b + 4 \<le> a \<or> a + length bs \<le> b \<Longrightarrow> rd32 (wrbytes m a bs) b = rd32 m b"
  "b + 8 \<le> a \<or> a + length bs \<le> b \<Longrightarrow> rd64 (wrbytes m a bs) b = rd64 m b"
  by (simp_all add: rd16_def rd32_def rd64_def rdbytes_wrbytes_disj)

lemma rd_wr_disj [mem_simps]:
  "b + 2 \<le> a \<or> a + 2 \<le> b \<Longrightarrow> rd16 (wr16 m a v) b = rd16 m b"
  "b + 4 \<le> a \<or> a + 4 \<le> b \<Longrightarrow> rd32 (wr32 m a x) b = rd32 m b"
  "b + 8 \<le> a \<or> a + 8 \<le> b \<Longrightarrow> rd64 (wr64 m a y) b = rd64 m b"
  by (simp_all add: wr16_def wr32_def wr64_def rd_wrbytes_disj)

lemma wr_out:
  "i < a \<or> a + 2 \<le> i \<Longrightarrow> wr16 m a v i = m i"
  "i < a \<or> a + 4 \<le> i \<Longrightarrow> wr32 m a x i = m i"
  "i < a \<or> a + 8 \<le> i \<Longrightarrow> wr64 m a y i = m i"
  by (simp_all add: wr16_def wr32_def wr64_def wrbytes_out)

text \<open>A load depends only on the bytes it covers.\<close>

lemma rd_cong:
  "(\<And>i. a \<le> i \<Longrightarrow> i < a + 4 \<Longrightarrow> m i = m' i) \<Longrightarrow> rd32 m a = rd32 m' a"
  "(\<And>i. a \<le> i \<Longrightarrow> i < a + 8 \<Longrightarrow> m i = m' i) \<Longrightarrow> rd64 m a = rd64 m' a"
proof -
  show "rd32 m a = rd32 m' a" if "\<And>i. a \<le> i \<Longrightarrow> i < a + 4 \<Longrightarrow> m i = m' i"
  proof -
    have "rdbytes m a 4 = rdbytes m' a 4" using that by (intro nth_equalityI) auto
    then show ?thesis by (simp add: rd32_def)
  qed
  show "rd64 m a = rd64 m' a" if "\<And>i. a \<le> i \<Longrightarrow> i < a + 8 \<Longrightarrow> m i = m' i"
  proof -
    have "rdbytes m a 8 = rdbytes m' a 8" using that by (intro nth_equalityI) auto
    then show ?thesis by (simp add: rd64_def)
  qed
qed

section \<open>Searching tables\<close>

text \<open>
  The kernel's tables are searched with \<open>for (i = 0; i < N; i++) if (P) ...\<close>; the library's
  \<open>find\<close> over \<open>[0..<N]\<close> is that search.
\<close>

lemma find_upt_Some:
  "find P [0..<n] = Some i \<longleftrightarrow> i < n \<and> P i \<and> (\<forall>j<i. \<not> P j)"
  by (auto simp: find_Some_iff)

lemma find_upt_None: "find P [0..<n] = None \<longleftrightarrow> (\<forall>i<n. \<not> P i)"
  by (auto simp: find_None_iff)

text \<open>Two multiples of \<^term>\<open>n\<close> that are less than \<^term>\<open>n\<close> apart.\<close>

lemma dvd_gap: "(n :: nat) dvd a \<Longrightarrow> n dvd b \<Longrightarrow> a < b + n \<Longrightarrow> a \<le> b"
  using dvd_imp_le[of n "a - b"] by (auto simp: dvd_diff_nat not_le intro: ccontr)

end
