(* ===== verification/Xv6_Ring.thy ===== *)
theory Xv6_Ring
  imports Xv6_Prelude
begin

text \<open>
  Circular buffers with free-running indices.  The pipe (\<^verbatim>\<open>kernel/pipe.c\<close>), the console
  input buffer (\<^verbatim>\<open>kernel/console.c\<close>), the UART output buffer (\<^verbatim>\<open>kernel/uart.c\<close>) all keep
  two unsigned counters that are never reset and are reduced modulo the buffer size only when
  the array is indexed.  The counters wrap around at the word size.  This theory shows that
  such a buffer is a bounded queue as long as the buffer size divides the counter's range.

  The locale \<open>fifo\<close> is the interface the components promise to their clients; the lemmas about
  whole batches of operations are proved in it once.
\<close>

section \<open>The queue a ring holds\<close>

definition ring_list :: "nat \<Rightarrow> (nat \<Rightarrow> 'a) \<Rightarrow> 'w::len word \<Rightarrow> 'w word \<Rightarrow> 'a list" where
  "ring_list N d r w = map (\<lambda>i. d (unat (r + of_nat i) mod N)) [0..<unat (w - r)]"

lemma length_ring_list [simp]: "length (ring_list N d r w) = unat (w - r)"
  by (simp add: ring_list_def)

lemma ring_list_empty_iff: "ring_list N d r w = [] \<longleftrightarrow> r = w"
proof -
  have "ring_list N d r w = [] \<longleftrightarrow> unat (w - r) = 0"
    by (metis length_0_conv length_ring_list)
  also have "\<dots> \<longleftrightarrow> w - r = 0" by (simp only: unat_eq_0)
  finally show ?thesis by auto
qed

lemma ring_list_refl [simp]: "ring_list N d r r = []"
  by (simp add: ring_list_def)

text \<open>Since the size divides the range of the counter, wrap-around does not move a slot.\<close>

lemma ring_slot:
  fixes r :: "'w::len word"
  assumes "N dvd 2 ^ LENGTH('w)"
  shows "unat (r + of_nat i) mod N = (unat r + i) mod N"
proof -
  have "unat (r + of_nat i) = (unat r + i) mod 2 ^ LENGTH('w)"
    by (simp add: unat_word_ariths unat_of_nat mod_add_right_eq)
  with assms show ?thesis by (simp add: mod_mod_cancel)
qed

lemma slots_distinct:
  fixes a i j N :: nat
  assumes "i < j" "j < i + N"
  shows "(a + i) mod N \<noteq> (a + j) mod N"
proof
  assume "(a + i) mod N = (a + j) mod N"
  moreover have "a + i \<le> a + j" using assms(1) by simp
  ultimately have "N dvd (a + j) - (a + i)" by (metis mod_eq_dvd_iff_nat)
  then have "N dvd j - i" by simp
  moreover have "0 < j - i" "j - i < N" using assms by auto
  ultimately show False by (auto dest: dvd_imp_le)
qed

lemma unat_minus_Suc:
  fixes r w :: "'w::len word"
  assumes "unat (w - r) < N" "N < 2 ^ LENGTH('w)"
  shows "unat (w + 1 - r) = Suc (unat (w - r))"
proof -
  have "w + 1 - r = (w - r) + 1" by (simp add: algebra_simps)
  moreover have "unat ((w - r) + 1) = unat (w - r) + 1"
    using assms by (simp add: unat_add_lem[symmetric] unat_word_ariths(1))
  ultimately show ?thesis by (simp only: Suc_eq_plus1)
qed

lemma ring_put:
  fixes r w :: "'w::len word"
  assumes "N dvd 2 ^ LENGTH('w)" "N < 2 ^ LENGTH('w)" "unat (w - r) < N"
  shows "ring_list N (d(unat w mod N := x)) r (w + 1) = ring_list N d r w @ [x]"
proof -
  let ?k = "unat (w - r)"
  have w: "w = r + of_nat ?k" by simp
  have slot_w: "unat w mod N = (unat r + ?k) mod N"
    using ring_slot[OF assms(1), of r ?k] w by simp
  have keep: "(unat r + i) mod N \<noteq> (unat r + ?k) mod N" if "i < ?k" for i
    using slots_distinct[OF that, of N "unat r"] assms(3) by simp
  have "ring_list N (d(unat w mod N := x)) r (w + 1)
      = map (\<lambda>i. (d(unat w mod N := x)) ((unat r + i) mod N)) [0..<Suc ?k]"
    using unat_minus_Suc[OF assms(3,2)] by (simp add: ring_list_def ring_slot[OF assms(1)] del: upt_Suc)
  also have "\<dots> = map (\<lambda>i. d ((unat r + i) mod N)) [0..<?k] @ [x]"
    using keep by (auto simp: slot_w)
  finally show ?thesis by (simp add: ring_list_def ring_slot[OF assms(1)])
qed

lemma unat_minus_pred:
  fixes r w :: "'w::len word"
  assumes "r \<noteq> w"
  shows "unat (w - r) = Suc (unat (w - (r + 1)))"
proof -
  have "w - r \<noteq> 0" using assms by auto
  then have "unat (w - r - 1) = unat (w - r) - 1" by (simp add: unat_minus_one)
  moreover have "unat (w - r) > 0" using \<open>w - r \<noteq> 0\<close> by (simp add: unat_gt_0)
  moreover have "w - (r + 1) = w - r - 1" by (simp add: algebra_simps)
  ultimately show ?thesis by (metis Suc_diff_1)
qed

lemma ring_get:
  fixes r w :: "'w::len word"
  assumes "N dvd 2 ^ LENGTH('w)" "r \<noteq> w"
  shows "ring_list N d r w = d (unat r mod N) # ring_list N d (r + 1) w"
proof -
  have "ring_list N d r w = map (\<lambda>i. d ((unat r + i) mod N)) [0..<Suc (unat (w - (r + 1)))]"
    using unat_minus_pred[OF assms(2)] by (simp add: ring_list_def ring_slot[OF assms(1)] del: upt_Suc)
  also have "\<dots> = d (unat r mod N) # map (\<lambda>i. d ((unat r + Suc i) mod N)) [0..<unat (w - (r + 1))]"
    by (simp add: upt_conv_Cons map_Suc_upt[symmetric] comp_def del: upt_Suc)
  also have "map (\<lambda>i. d ((unat r + Suc i) mod N)) [0..<unat (w - (r + 1))] = ring_list N d (r + 1) w"
  proof -
    have "unat (r + 1 + of_nat i) mod N = (unat r + Suc i) mod N" for i
      using ring_slot[OF assms(1), of r "Suc i"] by (simp add: add.assoc)
    then show ?thesis by (simp add: ring_list_def)
  qed
  finally show ?thesis .
qed

text \<open>Dropping the newest entry (the console's erase character).\<close>

lemma ring_unput:
  fixes r w :: "'w::len word"
  assumes "r \<noteq> w"
  shows "ring_list N d r (w - 1) = butlast (ring_list N d r w)"
proof -
  have "w - r \<noteq> 0" using assms by auto
  then have "unat (w - 1 - r) = unat (w - r) - 1"
    by (metis diff_right_commute unat_minus_one)
  moreover have "butlast [0..<n] = [0..<n - 1]" for n :: nat
    by (cases n) simp_all
  ultimately show ?thesis by (simp add: ring_list_def map_butlast[symmetric])
qed

section \<open>The queue interface\<close>

text \<open>\<open>n\<close> successive removals.\<close>

fun drain :: "('s \<Rightarrow> 'a \<times> 's) \<Rightarrow> nat \<Rightarrow> 's \<Rightarrow> 'a list \<times> 's" where
  "drain get 0 s = ([], s)"
| "drain get (Suc n) s =
     (let (x, s1) = get s; (xs, s2) = drain get n s1 in (x # xs, s2))"

locale fifo =
  fixes cap :: nat
    and inv :: "'s \<Rightarrow> bool"
    and items :: "'s \<Rightarrow> 'a list"
    and put :: "'a \<Rightarrow> 's \<Rightarrow> 's"
    and get :: "'s \<Rightarrow> 'a \<times> 's"
  assumes items_cap: "inv s \<Longrightarrow> length (items s) \<le> cap"
    and inv_put: "inv s \<Longrightarrow> length (items s) < cap \<Longrightarrow> inv (put x s)"
    and items_put: "inv s \<Longrightarrow> length (items s) < cap \<Longrightarrow> items (put x s) = items s @ [x]"
    and inv_get: "inv s \<Longrightarrow> items s \<noteq> [] \<Longrightarrow> inv (snd (get s))"
    and items_get: "inv s \<Longrightarrow> items s \<noteq> [] \<Longrightarrow> items s = fst (get s) # items (snd (get s))"
begin

lemma fold_put:
  "inv s \<Longrightarrow> length (items s) + length xs \<le> cap \<Longrightarrow>
   inv (fold put xs s) \<and> items (fold put xs s) = items s @ xs"
proof (induction xs arbitrary: s)
  case Nil
  then show ?case by simp
next
  case (Cons x xs)
  then have "length (items s) < cap" by simp
  with Cons.prems(1) have "inv (put x s)" "items (put x s) = items s @ [x]"
    by (simp_all add: inv_put items_put)
  with Cons show ?case by simp
qed

lemma drain_items:
  "inv s \<Longrightarrow> n \<le> length (items s) \<Longrightarrow>
   fst (drain get n s) = take n (items s) \<and>
   items (snd (drain get n s)) = drop n (items s) \<and> inv (snd (drain get n s))"
proof (induction n arbitrary: s)
  case 0
  then show ?case by simp
next
  case (Suc n)
  then have ne: "items s \<noteq> []" by auto
  obtain x s1 where g: "get s = (x, s1)" by fastforce
  from inv_get[OF Suc.prems(1) ne] items_get[OF Suc.prems(1) ne] g
  have "inv s1" and it: "items s = x # items s1" by simp_all
  with Suc.IH[of s1] Suc.prems(2)
  have "fst (drain get n s1) = take n (items s1)" "items (snd (drain get n s1)) = drop n (items s1)"
    "inv (snd (drain get n s1))" by auto
  with g it show ?case by (simp add: split_beta)
qed

text \<open>What goes in comes out, in order and exactly once.\<close>

lemma put_then_drain:
  assumes "inv s" "items s = []" "length xs \<le> cap"
  shows "fst (drain get (length xs) (fold put xs s)) = xs"
proof -
  have "inv (fold put xs s)" "items (fold put xs s) = xs"
    using fold_put[OF assms(1), of xs] assms(2,3) by auto
  then show ?thesis using drain_items by simp
qed

end

end
