(* ===== verification/Xv6_Pipe.thy ===== *)
theory Xv6_Pipe
  imports Xv6_Ring
begin

text \<open>
  Pipes (\<^verbatim>\<open>kernel/pipe.c\<close>): the ring of \<^verbatim>\<open>PIPESIZE\<close> bytes, the read and write loops and
  closing an end.  A routine that reaches \<^verbatim>\<open>sleep\<close> gives up the pipe's lock, so it is modelled
  as the part that runs up to the sleep or the return; the result says which of the two happened,
  and a sleeping writer is started again at the loop index it had reached.  \<^verbatim>\<open>copyin\<close> and
  \<^verbatim>\<open>copyout\<close> of one byte are arguments that may change some further state \<open>'u\<close> (the address
  space of the caller); \<^verbatim>\<open>killed(pr)\<close> is an argument that may change from one turn of the loop
  to the next, since another CPU can set it at any time.

  Shown: the ring is a bounded queue for all values of the wrapping 32-bit counters
  (interpretation \<open>pipeq\<close>); what a write and a read do to that queue; and, over arbitrary
  interleavings of writers and readers, that every byte comes out once and in order.
\<close>

section \<open>State and operations\<close>

definition PIPESIZE :: nat where
  "PIPESIZE = 512"

record pipe =
  pdata :: "nat \<Rightarrow> byte"
  nread :: uint32
  nwrite :: uint32
  readopen :: bool
  writeopen :: bool

text \<open>The part of \<^verbatim>\<open>pipealloc\<close> that fills in the fresh page; its data bytes are whatever the
  page held.\<close>

definition pipe_init :: "(nat \<Rightarrow> byte) \<Rightarrow> pipe" where
  "pipe_init d = \<lparr>pdata = d, nread = 0, nwrite = 0, readopen = True, writeopen = True\<rparr>"

text \<open>\<^verbatim>\<open>pi->data[pi->nwrite++ % PIPESIZE] = ch\<close> and \<^verbatim>\<open>ch = pi->data[pi->nread++ % PIPESIZE]\<close>.\<close>

definition pipe_put :: "byte \<Rightarrow> pipe \<Rightarrow> pipe" where
  "pipe_put ch p = p\<lparr>pdata := (pdata p)(unat (nwrite p) mod PIPESIZE := ch), nwrite := nwrite p + 1\<rparr>"

definition pipe_get :: "pipe \<Rightarrow> byte \<times> pipe" where
  "pipe_get p = (pdata p (unat (nread p) mod PIPESIZE), p\<lparr>nread := nread p + 1\<rparr>)"

text \<open>\<open>pipeclose\<close> returns the pipe, the channel it wakes, and whether the page is freed.\<close>

definition pipeclose :: "nat \<Rightarrow> bool \<Rightarrow> pipe \<Rightarrow> pipe \<times> chan \<times> bool" where
  "pipeclose pa writable p =
     (let (p', ch) = (if writable then (p\<lparr>writeopen := False\<rparr>, ChPipeR pa)
                      else (p\<lparr>readopen := False\<rparr>, ChPipeW pa))
      in (p', ch, \<not> readopen p' \<and> \<not> writeopen p'))"

datatype pipe_out =
    PRet int     \<comment> \<open>the call returns this value\<close>
  | PSleep int   \<comment> \<open>the call sleeps; a writer goes on with this loop index\<close>

function pipewrite_loop ::
  "nat \<Rightarrow> (int \<Rightarrow> bool) \<Rightarrow> (uint64 \<Rightarrow> 'u \<Rightarrow> byte option \<times> 'u) \<Rightarrow> uint64 \<Rightarrow> int \<Rightarrow> int \<Rightarrow> pipe \<Rightarrow> 'u
   \<Rightarrow> pipe_out \<times> pipe \<times> 'u \<times> chan list" where
  "pipewrite_loop pa killed copyin addr n i p u =
     (if i < n then
        if \<not> readopen p \<or> killed i then (PRet (-1), p, u, [])
        else if nwrite p = nread p + of_nat PIPESIZE then (PSleep i, p, u, [ChPipeR pa])
        else (case copyin (addr + of_int i) u of
                (None, u') \<Rightarrow> (PRet i, p, u', [ChPipeR pa])
              | (Some ch, u') \<Rightarrow>
                  pipewrite_loop pa killed copyin addr n (i + 1) (pipe_put ch p) u')
      else (PRet i, p, u, [ChPipeR pa]))"
  by pat_completeness auto
termination
  by (relation "measure (\<lambda>(pa, killed, copyin, addr, n, i, p, u). nat (n - i))") auto

declare pipewrite_loop.simps [simp del]

definition pipewrite ::
  "nat \<Rightarrow> (int \<Rightarrow> bool) \<Rightarrow> (uint64 \<Rightarrow> 'u \<Rightarrow> byte option \<times> 'u) \<Rightarrow> uint64 \<Rightarrow> int \<Rightarrow> pipe \<Rightarrow> 'u
   \<Rightarrow> pipe_out \<times> pipe \<times> 'u \<times> chan list" where
  "pipewrite pa killed copyin addr n p u = pipewrite_loop pa killed copyin addr n 0 p u"

function piperead_loop ::
  "(uint64 \<Rightarrow> byte \<Rightarrow> 'u \<Rightarrow> bool \<times> 'u) \<Rightarrow> uint64 \<Rightarrow> int \<Rightarrow> int \<Rightarrow> pipe \<Rightarrow> 'u \<Rightarrow> int \<times> pipe \<times> 'u" where
  "piperead_loop copyout addr n i p u =
     (if i < n then
        if nread p = nwrite p then (i, p, u)
        else (let (ch, p') = pipe_get p in
              case copyout (addr + of_int i) ch u of
                (False, u') \<Rightarrow> (i, p', u')
              | (True, u') \<Rightarrow> piperead_loop copyout addr n (i + 1) p' u')
      else (i, p, u))"
  by pat_completeness auto
termination
  by (relation "measure (\<lambda>(copyout, addr, n, i, p, u). nat (n - i))") auto

declare piperead_loop.simps [simp del]

definition piperead ::
  "nat \<Rightarrow> bool \<Rightarrow> (uint64 \<Rightarrow> byte \<Rightarrow> 'u \<Rightarrow> bool \<times> 'u) \<Rightarrow> uint64 \<Rightarrow> int \<Rightarrow> pipe \<Rightarrow> 'u
   \<Rightarrow> pipe_out \<times> pipe \<times> 'u \<times> chan list" where
  "piperead pa killed copyout addr n p u =
     (if nread p = nwrite p \<and> writeopen p then
        (if killed then (PRet (-1), p, u, []) else (PSleep 0, p, u, []))
      else (let (i, p', u') = piperead_loop copyout addr n 0 p u
            in (PRet i, p', u', [ChPipeW pa])))"

section \<open>The ring is a bounded queue\<close>

definition pipe_list :: "pipe \<Rightarrow> byte list" where
  "pipe_list p = ring_list PIPESIZE (pdata p) (nread p) (nwrite p)"

definition pipe_inv :: "pipe \<Rightarrow> bool" where
  "pipe_inv p \<longleftrightarrow> unat (nwrite p - nread p) \<le> PIPESIZE"

lemma PIPESIZE_range: "PIPESIZE dvd 2 ^ LENGTH(32)" "PIPESIZE < 2 ^ LENGTH(32)"
  by (simp_all add: PIPESIZE_def)

lemma length_pipe_list: "length (pipe_list p) = unat (nwrite p - nread p)"
  by (simp add: pipe_list_def)

lemma pipe_list_empty: "pipe_list p = [] \<longleftrightarrow> nread p = nwrite p"
  by (simp add: pipe_list_def ring_list_empty_iff)

lemma pipe_full_iff:
  "nwrite p = nread p + of_nat PIPESIZE \<longleftrightarrow> length (pipe_list p) = PIPESIZE"
proof
  assume "nwrite p = nread p + of_nat PIPESIZE"
  then have "nwrite p - nread p = of_nat PIPESIZE" by simp
  then show "length (pipe_list p) = PIPESIZE"
    using PIPESIZE_range(2) by (simp only: length_pipe_list unat_of_nat mod_less)
next
  assume "length (pipe_list p) = PIPESIZE"
  then have "nwrite p - nread p = of_nat PIPESIZE"
    by (metis length_pipe_list of_nat_unat_id)
  then show "nwrite p = nread p + of_nat PIPESIZE" by (simp add: algebra_simps)
qed

interpretation pipeq: fifo PIPESIZE pipe_inv pipe_list pipe_put pipe_get
proof
  fix p :: pipe and x :: byte
  assume inv: "pipe_inv p"
  show "length (pipe_list p) \<le> PIPESIZE"
    using inv by (simp add: length_pipe_list pipe_inv_def)
  show "pipe_inv (pipe_put x p)" if "length (pipe_list p) < PIPESIZE"
    using unat_minus_Suc[OF that[unfolded length_pipe_list] PIPESIZE_range(2)] that
    by (simp add: pipe_inv_def pipe_put_def length_pipe_list)
  show "pipe_list (pipe_put x p) = pipe_list p @ [x]" if "length (pipe_list p) < PIPESIZE"
    using ring_put[OF PIPESIZE_range that[unfolded length_pipe_list]]
    by (simp add: pipe_list_def pipe_put_def)
  assume "pipe_list p \<noteq> []"
  then have ne: "nread p \<noteq> nwrite p" by (simp add: pipe_list_empty)
  show "pipe_inv (snd (pipe_get p))"
    using inv unat_minus_pred[OF ne] by (simp add: pipe_inv_def pipe_get_def)
  show "pipe_list p = fst (pipe_get p) # pipe_list (snd (pipe_get p))"
    using ring_get[OF PIPESIZE_range(1) ne] by (simp add: pipe_list_def pipe_get_def)
qed

lemma pipe_inv_init [simp]: "pipe_inv (pipe_init d)" "pipe_list (pipe_init d) = []"
  by (simp_all add: pipe_inv_def pipe_init_def pipe_list_def)

lemma pipe_put_open [simp]:
  "readopen (pipe_put c p) = readopen p" "writeopen (pipe_put c p) = writeopen p"
  by (simp_all add: pipe_put_def)

lemma pipe_get_open [simp]:
  "readopen (snd (pipe_get p)) = readopen p" "writeopen (snd (pipe_get p)) = writeopen p"
  by (simp_all add: pipe_get_def)

lemma pipeclose_list:
  "pipeclose pa w p = (p', ch, fr) \<Longrightarrow>
   pipe_list p' = pipe_list p \<and> (pipe_inv p' \<longleftrightarrow> pipe_inv p)"
  by (auto simp: pipeclose_def pipe_list_def pipe_inv_def Let_def split: if_splits)

section \<open>What a write and a read do to the queue\<close>

text \<open>\<open>fetched copyin addr i bs u v\<close>: the bytes \<open>bs\<close> are what \<open>copyin\<close> returns for
  \<open>addr+i\<close>, \<open>addr+i+1\<close>, \dots, starting in state \<open>u\<close> and ending in \<open>v\<close>.
  \<open>stored\<close> is the same for \<open>copyout\<close>.\<close>

fun fetched :: "(uint64 \<Rightarrow> 'u \<Rightarrow> byte option \<times> 'u) \<Rightarrow> uint64 \<Rightarrow> int \<Rightarrow> byte list \<Rightarrow> 'u \<Rightarrow> 'u \<Rightarrow> bool" where
  "fetched copyin addr i [] u v \<longleftrightarrow> v = u"
| "fetched copyin addr i (b # bs) u v \<longleftrightarrow>
     (\<exists>u'. copyin (addr + of_int i) u = (Some b, u') \<and> fetched copyin addr (i + 1) bs u' v)"

fun stored :: "(uint64 \<Rightarrow> byte \<Rightarrow> 'u \<Rightarrow> bool \<times> 'u) \<Rightarrow> uint64 \<Rightarrow> int \<Rightarrow> byte list \<Rightarrow> 'u \<Rightarrow> 'u \<Rightarrow> bool" where
  "stored copyout addr i [] u v \<longleftrightarrow> v = u"
| "stored copyout addr i (b # bs) u v \<longleftrightarrow>
     (\<exists>u'. copyout (addr + of_int i) b u = (True, u') \<and> stored copyout addr (i + 1) bs u' v)"

text \<open>The bytes \<open>bs\<close> fetched up to a run's end, at the loop index \<open>i + length bs\<close>, determine that end.\<close>

lemma pipewrite_loop_spec:
  assumes "pipewrite_loop pa killed copyin addr n i p u = (out, p', u', wk)" "pipe_inv p" "i \<le> n"
  shows "\<exists>bs v k. k = i + int (length bs) \<and> k \<le> n \<and> fetched copyin addr i bs u v \<and>
     pipe_list p' = pipe_list p @ bs \<and> pipe_inv p' \<and> readopen p' = readopen p \<and> writeopen p' = writeopen p \<and>
     (\<forall>j. i \<le> j \<and> j < k \<longrightarrow> readopen p \<and> \<not> killed j) \<and>
     (if k = n then out = PRet n \<and> u' = v \<and> wk = [ChPipeR pa]
      else if \<not> readopen p \<or> killed k then out = PRet (-1) \<and> u' = v \<and> wk = []
      else if length (pipe_list p') = PIPESIZE then out = PSleep k \<and> u' = v \<and> wk = [ChPipeR pa]
      else out = PRet k \<and> wk = [ChPipeR pa] \<and> copyin (addr + of_int k) v = (None, u'))"
  using assms
proof (induction pa killed copyin addr n i p u rule: pipewrite_loop.induct)
  case (1 pa killed copyin addr n i p u)
  note IH = "1.IH" and step = "1.prems"(1)[unfolded pipewrite_loop.simps[of pa killed copyin addr n i p u]]
  show ?case
  proof (cases "i < n \<and> readopen p \<and> \<not> killed i \<and> nwrite p \<noteq> nread p + of_nat PIPESIZE \<and>
      fst (copyin (addr + of_int i) u) \<noteq> None")
    case False
    then show ?thesis
      using step "1.prems"(2,3)
      by (intro exI[of _ "[]"] exI[of _ u] exI[of _ i])
        (auto simp: pipe_full_iff split: if_splits prod.splits option.splits)
  next
    case True
    then obtain ch u1 where c: "copyin (addr + of_int i) u = (Some ch, u1)"
      by (metis option.exhaust prod.collapse)
    have room: "length (pipe_list p) < PIPESIZE"
      using True pipe_full_iff pipeq.items_cap[OF "1.prems"(2)] by (meson le_neq_implies_less)
    have put: "pipe_inv (pipe_put ch p)" "pipe_list (pipe_put ch p) = pipe_list p @ [ch]"
      using pipeq.inv_put pipeq.items_put "1.prems"(2) room by blast+
    have go: "pipewrite_loop pa killed copyin addr n (i + 1) (pipe_put ch p) u1 = (out, p', u', wk)"
      using step True c by simp
    have g: "i < n" "\<not> (\<not> readopen p \<or> killed i)" "nwrite p \<noteq> nread p + of_nat PIPESIZE" "i + 1 \<le> n"
      using True by auto
    obtain bs v k where k: "k = i + 1 + int (length bs)" "fetched copyin addr (i + 1) bs u1 v"
      "\<forall>j. i + 1 \<le> j \<and> j < k \<longrightarrow> readopen p \<and> \<not> killed j"
      and rest: "k \<le> n" "pipe_list p' = pipe_list (pipe_put ch p) @ bs" "pipe_inv p'"
      "readopen p' = readopen p" "writeopen p' = writeopen p"
      "if k = n then out = PRet n \<and> u' = v \<and> wk = [ChPipeR pa]
       else if \<not> readopen p \<or> killed k then out = PRet (-1) \<and> u' = v \<and> wk = []
       else if length (pipe_list p') = PIPESIZE then out = PSleep k \<and> u' = v \<and> wk = [ChPipeR pa]
       else out = PRet k \<and> wk = [ChPipeR pa] \<and> copyin (addr + of_int k) v = (None, u')"
      using IH[OF g(1-3) c[symmetric] refl go put(1) g(4), unfolded pipe_put_open]
      by (elim exE conjE) (rule that, assumption+)
    have "\<forall>j. i \<le> j \<and> j < k \<longrightarrow> readopen p \<and> \<not> killed j"
      using k(3) True by (metis le_less zless_add1_eq not_le)
    then show ?thesis
      using k(1,2) rest put(2) c by (intro exI[of _ "ch # bs"] exI[of _ v] exI[of _ k]) simp
  qed
qed

lemma piperead_loop_spec:
  assumes "piperead_loop copyout addr n i p u = (r, p', u')" "pipe_inv p" "i \<le> n"
  shows "\<exists>bs v. stored copyout addr i bs u v \<and> pipe_inv p' \<and> r = i + int (length bs) \<and> r \<le> n \<and>
     readopen p' = readopen p \<and> writeopen p' = writeopen p \<and>
     (pipe_list p = bs @ pipe_list p' \<and> u' = v \<and> (r = n \<or> pipe_list p' = [])
      \<or> (\<exists>b. pipe_list p = bs @ b # pipe_list p' \<and> r < n \<and>
             copyout (addr + of_int r) b v = (False, u')))"
  using assms
proof (induction copyout addr n i p u rule: piperead_loop.induct)
  case (1 copyout addr n i p u)
  note step = "1.prems"(1)[unfolded piperead_loop.simps[of copyout addr n i p u]]
  show ?case
  proof (cases "i < n \<and> nread p \<noteq> nwrite p")
    case False
    then show ?thesis
      using step "1.prems"(2,3)
      by (intro exI[of _ "[]"] exI[of _ u]) (auto simp: pipe_list_empty split: if_splits)
  next
    case True
    then have ne: "pipe_list p \<noteq> []" by (simp add: pipe_list_empty)
    obtain ch p1 where g: "pipe_get p = (ch, p1)" by fastforce
    have p1: "pipe_inv p1" "pipe_list p = ch # pipe_list p1"
      "readopen p1 = readopen p" "writeopen p1 = writeopen p"
      using pipeq.inv_get[OF "1.prems"(2) ne] pipeq.items_get[OF "1.prems"(2) ne] g
        pipe_get_open[of p] by simp_all
    obtain ok u1 where c: "copyout (addr + of_int i) ch u = (ok, u1)" by fastforce
    show ?thesis
    proof (cases ok)
      case False
      with step True g c p1 show ?thesis
        by (intro exI[of _ "[]"] exI[of _ u]) auto
    next
      case ok: True
      have "piperead_loop copyout addr n (i + 1) p1 u1 = (r, p', u')"
        using step True g c ok by simp
      from "1.IH"[OF _ _ refl g[symmetric] c[symmetric] _ this p1(1)] True ok
      obtain bs v where "stored copyout addr (i + 1) bs u1 v" "pipe_inv p'"
        "r = i + 1 + int (length bs)" "r \<le> n" "readopen p' = readopen p1" "writeopen p' = writeopen p1"
        "pipe_list p1 = bs @ pipe_list p' \<and> u' = v \<and> (r = n \<or> pipe_list p' = [])
         \<or> (\<exists>b. pipe_list p1 = bs @ b # pipe_list p' \<and> r < n \<and>
             copyout (addr + of_int r) b v = (False, u'))"
        by auto
      with c ok p1 show ?thesis
        by (intro exI[of _ "ch # bs"] exI[of _ v]) auto
    qed
  qed
qed

section \<open>Interleaved readers and writers\<close>

text \<open>
  To state what passes through a pipe, the bytes that \<^verbatim>\<open>copyin\<close> fetches for writers and the
  bytes that are handed to \<^verbatim>\<open>copyout\<close> for readers are recorded in the state these routines may
  change.  \<open>src\<close> says which user bytes are readable, \<open>dst\<close> which user addresses are writable.
\<close>

definition copyin_rec :: "(uint64 \<Rightarrow> byte option) \<Rightarrow> uint64 \<Rightarrow> byte list \<Rightarrow> byte option \<times> byte list" where
  "copyin_rec src a h = (case src a of None \<Rightarrow> (None, h) | Some b \<Rightarrow> (Some b, h @ [b]))"

definition copyout_rec :: "(uint64 \<Rightarrow> bool) \<Rightarrow> uint64 \<Rightarrow> byte \<Rightarrow> byte list \<Rightarrow> bool \<times> byte list" where
  "copyout_rec dst a b h = (dst a, h @ [b])"

text \<open>
  A history of one pipe: each rule is one run of \<^verbatim>\<open>pipewrite\<close> or \<^verbatim>\<open>piperead\<close> between two points
  where the pipe's lock is free.  Runs of different processes come in any order, and a write may
  go on at any loop index because an earlier run of it slept.
\<close>

inductive pipe_history :: "byte list \<Rightarrow> byte list \<Rightarrow> pipe \<Rightarrow> bool" where
  created: "pipe_history [] [] (pipe_init d)"
| written: "pipe_history ins outs p \<Longrightarrow>
    pipewrite_loop pa killed (copyin_rec src) addr n i p ins = (out, p', ins', wk) \<Longrightarrow>
    pipe_history ins' outs p'"
| taken: "pipe_history ins outs p \<Longrightarrow>
    piperead pa killed (copyout_rec dst) addr n p outs = (out, p', outs', wk) \<Longrightarrow>
    pipe_history ins outs' p'"
| closed: "pipe_history ins outs p \<Longrightarrow> pipeclose pa w p = (p', ch, fr) \<Longrightarrow> pipe_history ins outs p'"

lemma fetched_rec: "fetched (copyin_rec src) addr i bs h v \<Longrightarrow> v = h @ bs"
  by (induction bs arbitrary: i h) (fastforce simp: copyin_rec_def split: option.splits)+

lemma stored_rec: "stored (copyout_rec dst) addr i bs h v \<Longrightarrow> v = h @ bs"
  by (induction bs arbitrary: i h) (fastforce simp: copyout_rec_def)+

lemma pipewrite_loop_rec:
  assumes "pipewrite_loop pa killed (copyin_rec src) addr n i p h = (out, p', h', wk)" "pipe_inv p"
  shows "\<exists>bs. h' = h @ bs \<and> pipe_list p' = pipe_list p @ bs \<and> pipe_inv p'"
proof (cases "i \<le> n")
  case True
  from pipewrite_loop_spec[OF assms True] obtain bs v where
    f: "fetched (copyin_rec src) addr i bs h v" "pipe_list p' = pipe_list p @ bs" "pipe_inv p'"
    and v: "h' = v \<or> (\<exists>k. copyin_rec src (addr + of_int k) v = (None, h'))" by (metis (no_types, lifting))
  from v have "h' = v" by (auto simp: copyin_rec_def split: option.splits)
  with f fetched_rec[OF f(1)] show ?thesis by blast
next
  case False
  with assms show ?thesis by (subst (asm) pipewrite_loop.simps) auto
qed

lemma piperead_rec:
  assumes "piperead pa killed (copyout_rec dst) addr n p h = (out, p', h', wk)" "pipe_inv p"
  shows "\<exists>bs. h' = h @ bs \<and> pipe_list p = bs @ pipe_list p' \<and> pipe_inv p'"
proof (cases "nread p = nwrite p \<and> writeopen p \<or> n < 0")
  case True
  then show ?thesis
    using assms by (auto simp: piperead_def piperead_loop.simps[of _ _ n] split: if_splits)
next
  case False
  then obtain r where "piperead_loop (copyout_rec dst) addr n 0 p h = (r, p', h')"
    using assms(1) by (auto simp: piperead_def split: prod.splits if_splits)
  from piperead_loop_spec[OF this assms(2)] False obtain bs v where
    s: "stored (copyout_rec dst) addr 0 bs h v" "pipe_inv p'"
    and v: "pipe_list p = bs @ pipe_list p' \<and> h' = v \<or>
      (\<exists>b. pipe_list p = bs @ b # pipe_list p' \<and> copyout_rec dst (addr + of_int r) b v = (False, h'))"
    by (auto simp: not_less)
  from v s(2) stored_rec[OF s(1)] show ?thesis
  proof (elim disjE exE conjE)
    fix b
    assume "pipe_list p = bs @ b # pipe_list p'" "copyout_rec dst (addr + of_int r) b v = (False, h')"
    with s stored_rec[OF s(1)] show ?thesis
      by (intro exI[of _ "bs @ [b]"]) (auto simp: copyout_rec_def)
  qed auto
qed

section \<open>Properties\<close>

text \<open>C3.  In every interleaving of writers and readers of a pipe, the bytes taken out followed
  by the bytes still in the ring are exactly the bytes put in, in the same order; the ring never
  holds more than PIPESIZE bytes.  This holds for all values of the 32-bit counters, which wrap
  around.\<close>

theorem pipe_fifo:
  assumes "pipe_history ins outs p"
  shows "ins = outs @ pipe_list p \<and> length (pipe_list p) \<le> PIPESIZE"
proof -
  from assms have "ins = outs @ pipe_list p \<and> pipe_inv p"
  proof (induction rule: pipe_history.induct)
    case (created d)
    then show ?case by simp
  next
    case (written ins outs p pa killed src addr n i out p' ins' wk)
    then show ?case using pipewrite_loop_rec by fastforce
  next
    case (taken ins outs p pa killed dst addr n out p' outs' wk)
    then show ?case using piperead_rec by fastforce
  next
    case (closed ins outs p pa w p' ch fr)
    then show ?case using pipeclose_list by auto
  qed
  then show ?thesis using pipeq.items_cap by blast
qed

theorem pipe_fifo_witness:
  "pipe_history [7] [7] (snd (pipe_get (pipe_put 7 (pipe_init (\<lambda>_. 0))))) \<and>
   [7] = [7] @ pipe_list (snd (pipe_get (pipe_put 7 (pipe_init (\<lambda>_. 0)))))"
proof -
  have w: "pipewrite_loop 0 (\<lambda>_. False) (copyin_rec (\<lambda>_. Some 7)) 0 1 0 (pipe_init (\<lambda>_. 0)) []
      = (PRet 1, pipe_put 7 (pipe_init (\<lambda>_. 0)), [7], [ChPipeR 0])"
    by (subst pipewrite_loop.simps, subst pipewrite_loop.simps)
      (simp add: pipe_init_def copyin_rec_def PIPESIZE_def)
  have r: "piperead 0 False (copyout_rec (\<lambda>_. True)) 0 1 (pipe_put 7 (pipe_init (\<lambda>_. 0))) []
      = (PRet 1, snd (pipe_get (pipe_put 7 (pipe_init (\<lambda>_. 0)))), [7], [ChPipeW 0])"
    by (simp add: piperead_def piperead_loop.simps pipe_init_def pipe_put_def pipe_get_def
        copyout_rec_def PIPESIZE_def)
  have h: "pipe_history [7] [7] (snd (pipe_get (pipe_put 7 (pipe_init (\<lambda>_. 0)))))"
    using taken[OF written[OF created w] r] .
  show ?thesis using h pipe_fifo[OF h] by blast
qed

text \<open>C14.  What \<^verbatim>\<open>pipewrite\<close> does on every path.  It appends to the queue bytes fetched in order from
  user memory, and it got past a byte only with the read end open and the caller not killed.  With \<open>k\<close>
  bytes written, the end of the run is determined: all \<open>n\<close> bytes written, it returns \<open>n\<close>; else, the
  read end closed or the caller killed, it returns -1; else, the ring full, it sleeps; else the next
  user byte is unreadable and it returns \<open>k\<close>.  On every path but the -1 one it wakes the readers.\<close>

theorem pipewrite_behaviour:
  assumes "pipe_inv p" "0 \<le> n" "pipewrite pa killed copyin addr n p u = (out, p', u', wk)"
  shows "\<exists>bs v k. k = int (length bs) \<and> k \<le> n \<and> fetched copyin addr 0 bs u v \<and>
     pipe_list p' = pipe_list p @ bs \<and> pipe_inv p' \<and> readopen p' = readopen p \<and> writeopen p' = writeopen p \<and>
     (\<forall>j. 0 \<le> j \<and> j < k \<longrightarrow> readopen p \<and> \<not> killed j) \<and>
     (if k = n then out = PRet n \<and> u' = v \<and> wk = [ChPipeR pa]
      else if \<not> readopen p \<or> killed k then out = PRet (-1) \<and> u' = v \<and> wk = []
      else if length (pipe_list p') = PIPESIZE then out = PSleep k \<and> u' = v \<and> wk = [ChPipeR pa]
      else out = PRet k \<and> wk = [ChPipeR pa] \<and> copyin (addr + of_int k) v = (None, u'))"
proof -
  from assms(3) have "pipewrite_loop pa killed copyin addr n 0 p u = (out, p', u', wk)"
    by (simp add: pipewrite_def)
  from pipewrite_loop_spec[OF this assms(1,2)] show ?thesis unfolding add_0 .
qed

theorem pipewrite_behaviour_witness:
  "\<exists>bs v. fetched (copyin_rec (\<lambda>_. Some 7)) 0 0 bs [] v \<and>
     pipe_list (pipe_put 7 (pipe_init (\<lambda>_. 0))) = pipe_list (pipe_init (\<lambda>_. 0)) @ bs"
proof -
  have "pipewrite 0 (\<lambda>_. False) (copyin_rec (\<lambda>_. Some 7)) 0 1 (pipe_init (\<lambda>_. 0)) []
      = (PRet 1, pipe_put 7 (pipe_init (\<lambda>_. 0)), [7], [ChPipeR 0])"
    by (simp add: pipewrite_def, subst pipewrite_loop.simps, subst pipewrite_loop.simps)
      (simp add: pipe_init_def copyin_rec_def PIPESIZE_def)
  from pipewrite_behaviour[OF pipe_inv_init(1) _ this] show ?thesis by auto
qed

text \<open>C15.  What \<^verbatim>\<open>piperead\<close> does when there is data or no writer is left: it stores the oldest
  bytes of the ring to consecutive user addresses and returns their number, stopping when it has
  \<open>n\<close> bytes or the ring is empty; if a store fails, the byte it was storing is gone from the ring
  although it is not part of the count.  It wakes the writers.\<close>

theorem piperead_behaviour:
  assumes "pipe_inv p" "0 \<le> n" "pipe_list p \<noteq> [] \<or> \<not> writeopen p"
    "piperead pa killed copyout addr n p u = (out, p', u', wk)"
  shows "\<exists>bs v. stored copyout addr 0 bs u v \<and> out = PRet (int (length bs)) \<and>
     int (length bs) \<le> n \<and> wk = [ChPipeW pa] \<and> pipe_inv p' \<and>
     (pipe_list p = bs @ pipe_list p' \<and> u' = v \<and> (int (length bs) = n \<or> pipe_list p' = [])
      \<or> (\<exists>b. pipe_list p = bs @ b # pipe_list p' \<and> int (length bs) < n \<and>
             copyout (addr + of_int (int (length bs))) b v = (False, u')))"
proof -
  from assms(3,4) obtain r where r: "piperead_loop copyout addr n 0 p u = (r, p', u')"
    and out: "out = PRet r" "wk = [ChPipeW pa]"
    by (auto simp: piperead_def pipe_list_empty split: prod.splits if_splits)
  from piperead_loop_spec[OF r assms(1,2)] show ?thesis unfolding out add_0 by blast
qed

theorem piperead_behaviour_witness:
  "\<exists>bs v. stored (copyout_rec (\<lambda>_. False)) 0 0 bs [] v \<and> PRet 0 = PRet (int (length bs))"
proof -
  let ?p = "pipe_put 7 (pipe_init (\<lambda>_. 0))"
  have "piperead 0 False (copyout_rec (\<lambda>_. False)) 0 1 ?p [] = (PRet 0, snd (pipe_get ?p), [7], [ChPipeW 0])"
    by (simp add: piperead_def piperead_loop.simps pipe_init_def pipe_put_def pipe_get_def
        copyout_rec_def PIPESIZE_def)
  moreover have "pipe_inv ?p" by (simp add: pipe_inv_def pipe_put_def pipe_init_def PIPESIZE_def)
  moreover have "pipe_list ?p \<noteq> []" by (simp add: pipe_list_empty pipe_put_def pipe_init_def)
  ultimately show ?thesis using piperead_behaviour[of ?p 1] by fastforce
qed

text \<open>C16.  A killed writer and a sleeping reader.  The ring is empty, so a reader of the open pipe sleeps on
  \<^verbatim>\<open>&pi->nread\<close>.  A writer of \<open>n\<close> bytes whose user memory is readable is killed before its byte \<open>k\<close>,
  with at least one byte written and less than \<open>n\<close>.  It returns -1 and wakes nobody, with its \<open>k\<close> bytes
  in the ring: the reader, which from now on would not sleep but return data, is left asleep.\<close>

theorem pipewrite_killed_leaves_readers_asleep:
  assumes "pipe_inv p" "readopen p" "writeopen p" "pipe_list p = []"
    and k: "0 < k" "k < n" "k \<le> int PIPESIZE" "\<forall>j. 0 \<le> j \<and> j < k \<longrightarrow> \<not> killed j" "killed k"
    and readable: "\<forall>a v. fst (copyin a v) \<noteq> None"
  shows "piperead pa False copyout dst m p w = (PSleep 0, p, w, []) \<and>
    (\<exists>p' u' bs v. pipewrite pa killed copyin addr n p u = (PRet (-1), p', u', []) \<and>
      fetched copyin addr 0 bs u v \<and> int (length bs) = k \<and> pipe_list p' = bs \<and>
      (\<exists>r p'' w'. piperead pa False copyout dst m p' w = (PRet r, p'', w', [ChPipeW pa])))"
proof
  show "piperead pa False copyout dst m p w = (PSleep 0, p, w, [])"
    using assms(3,4) by (simp add: piperead_def pipe_list_empty)
  obtain out p' u' wk where run: "pipewrite_loop pa killed copyin addr n 0 p u = (out, p', u', wk)"
    using prod_cases4 by blast
  from pipewrite_loop_spec[OF this assms(1)] k(1,2) obtain bs v l where l: "l = int (length bs)" "l \<le> n"
    "fetched copyin addr 0 bs u v" "pipe_list p' = bs" "\<forall>j. 0 \<le> j \<and> j < l \<longrightarrow> \<not> killed j"
    "if l = n then out = PRet n \<and> u' = v \<and> wk = [ChPipeR pa]
     else if \<not> readopen p \<or> killed l then out = PRet (-1) \<and> u' = v \<and> wk = []
     else if length (pipe_list p') = PIPESIZE then out = PSleep l \<and> u' = v \<and> wk = [ChPipeR pa]
     else out = PRet l \<and> wk = [ChPipeR pa] \<and> copyin (addr + of_int l) v = (None, u')"
    using assms(4) by auto
  have "l = k"
  proof (rule ccontr)
    assume "l \<noteq> k"
    moreover have "l \<le> k" using l(5) k(1,5) by (meson linorder_not_less less_imp_le)
    ultimately have "l < k" by simp
    then have "\<not> killed l" "length (pipe_list p') \<noteq> PIPESIZE" "l \<noteq> n" using k l(1,4) by auto
    then show False using l(6) assms(2) readable by (metis fst_conv)
  qed
  moreover from this have "nread p' \<noteq> nwrite p'" using l(1,4) k(1) pipe_list_empty[of p'] by auto
  then have "\<exists>r p'' w'. piperead pa False copyout dst m p' w = (PRet r, p'', w', [ChPipeW pa])"
    by (auto simp: piperead_def split: prod.split)
  ultimately show "\<exists>p' u' bs v. pipewrite pa killed copyin addr n p u = (PRet (-1), p', u', []) \<and>
      fetched copyin addr 0 bs u v \<and> int (length bs) = k \<and> pipe_list p' = bs \<and>
      (\<exists>r p'' w'. piperead pa False copyout dst m p' w = (PRet r, p'', w', [ChPipeW pa]))"
    using l k(2,5) run by (intro exI[of _ p'] exI[of _ u'] exI[of _ bs] exI[of _ v]) (auto simp: pipewrite_def)
qed

theorem pipewrite_killed_leaves_readers_asleep_witness:
  "piperead 0 False (copyout_rec (\<lambda>_. True)) 0 8 (pipe_init (\<lambda>_. 0)) [] = (PSleep 0, pipe_init (\<lambda>_. 0), [], []) \<and>
   (\<exists>p' u'. pipewrite 0 (\<lambda>i. 2 \<le> i) (copyin_rec (\<lambda>_. Some 7)) 0 5 (pipe_init (\<lambda>_. 0)) [] = (PRet (-1), p', u', []) \<and>
     length (pipe_list p') = 2)"
proof -
  have "\<forall>a v. fst (copyin_rec (\<lambda>_. Some 7) a v) \<noteq> None" by (simp add: copyin_rec_def)
  moreover have "readopen (pipe_init (\<lambda>_. 0))" "writeopen (pipe_init (\<lambda>_. 0))" by (simp_all add: pipe_init_def)
  moreover have "(2 :: int) \<le> int PIPESIZE" by (simp add: PIPESIZE_def)
  ultimately show ?thesis
    using pipewrite_killed_leaves_readers_asleep[of "pipe_init (\<lambda>_. 0)" 2 5 "\<lambda>i. 2 \<le> i" "copyin_rec (\<lambda>_. Some 7)"
      0 "copyout_rec (\<lambda>_. True)" 0 8 "[]" 0 "[]"] by auto
qed

end
