(* ===== verification/Xv6_Locks.thy ===== *)
theory Xv6_Locks
  imports Xv6_Prelude
begin

text \<open>
  Spin locks (\<^verbatim>\<open>kernel/spinlock.c\<close>) and sleep locks (\<^verbatim>\<open>kernel/sleeplock.c\<close>). The instructions of
  \<^verbatim>\<open>acquire\<close> and \<^verbatim>\<open>release\<close> that other harts can observe between are separate steps of an inductive
  relation over any number of harts and locks; mutual exclusion and the discipline of
  \<^verbatim>\<open>push_off\<close> and \<^verbatim>\<open>pop_off\<close> are invariants of its reachable states. They justify treating a
  critical section of the other components as one atomic function.
\<close>

section \<open>Data\<close>

record spinlock =
  slocked :: bool
  sname :: string
  scpu :: "nat option"      \<comment> \<open>\<^verbatim>\<open>lk->cpu\<close>, a hart or null\<close>

record cpu =
  noff :: int
  intena :: bool
  sie :: bool               \<comment> \<open>what \<^verbatim>\<open>intr_get()\<close> reads on this hart\<close>

record sleeplock =
  locked :: bool
  spid :: int

section \<open>Spin locks\<close>

definition initlock :: "string \<Rightarrow> spinlock" where
  "initlock name = \<lparr>slocked = False, sname = name, scpu = None\<rparr>"

definition holding :: "nat \<Rightarrow> spinlock \<Rightarrow> bool" where
  "holding me lk \<longleftrightarrow> slocked lk \<and> scpu lk = Some me"

definition push_off :: "cpu \<Rightarrow> cpu" where
  "push_off c =
     (let old = sie c;
          c = c\<lparr>sie := False\<rparr>;
          c = (if noff c = 0 then c\<lparr>intena := old\<rparr> else c)
      in c\<lparr>noff := noff c + 1\<rparr>)"

definition pop_off :: "cpu \<Rightarrow> cpu res" where
  "pop_off c =
     (if sie c then Inl (Panic ''pop_off - interruptible'')
      else if noff c < 1 then Inl (Panic ''pop_off'')
      else let c = c\<lparr>noff := noff c - 1\<rparr>
           in Inr (if noff c = 0 \<and> intena c then c\<lparr>sie := True\<rparr> else c))"

text \<open>\<^verbatim>\<open>acquire\<close> up to its loop, one turn of the loop (\<^verbatim>\<open>amoswap\<close> returns the old value), and
  what follows it.\<close>

definition acquire_enter :: "nat \<Rightarrow> spinlock \<Rightarrow> cpu \<Rightarrow> cpu res" where
  "acquire_enter me lk c = (let c = push_off c in if holding me lk then Inl (Panic ''acquire'') else Inr c)"

definition test_and_set :: "spinlock \<Rightarrow> bool \<times> spinlock" where
  "test_and_set lk = (slocked lk, lk\<lparr>slocked := True\<rparr>)"

definition acquire_own :: "nat \<Rightarrow> spinlock \<Rightarrow> spinlock" where
  "acquire_own me lk = lk\<lparr>scpu := Some me\<rparr>"

definition acquire :: "nat \<Rightarrow> spinlock \<Rightarrow> cpu \<Rightarrow> (spinlock \<times> cpu) res" where
  "acquire me lk c =
     bindR (acquire_enter me lk c) (\<lambda>c.
       case test_and_set lk of
         (True, lk) \<Rightarrow> Inl Diverges
       | (False, lk) \<Rightarrow> Inr (acquire_own me lk, c))"

definition release_disown :: "nat \<Rightarrow> spinlock \<Rightarrow> spinlock res" where
  "release_disown me lk = (if \<not> holding me lk then Inl (Panic ''release'') else Inr (lk\<lparr>scpu := None\<rparr>))"

definition lock_release :: "spinlock \<Rightarrow> spinlock" where
  "lock_release lk = lk\<lparr>slocked := False\<rparr>"

definition release :: "nat \<Rightarrow> spinlock \<Rightarrow> cpu \<Rightarrow> (spinlock \<times> cpu) res" where
  "release me lk c =
     bindR (release_disown me lk) (\<lambda>lk. bindR (pop_off c) (\<lambda>c. Inr (lock_release lk, c)))"

section \<open>Sleep locks\<close>

definition initsleeplock :: sleeplock where
  "initsleeplock = \<lparr>locked = False, spid = 0\<rparr>"

text \<open>One test of the loop of \<^verbatim>\<open>acquiresleep\<close>; the caller that sleeps runs it again when woken.\<close>

definition acquiresleep :: "chan \<Rightarrow> int \<Rightarrow> sleeplock \<Rightarrow> sleeplock res" where
  "acquiresleep ch pid lk =
     (if locked lk then Inl (Sleeps ch) else Inr (lk\<lparr>locked := True, spid := pid\<rparr>))"

definition releasesleep :: "chan \<Rightarrow> sleeplock \<Rightarrow> sleeplock \<times> chan list" where
  "releasesleep ch lk = (lk\<lparr>locked := False, spid := 0\<rparr>, [ch])"

definition holdingsleep :: "int \<Rightarrow> sleeplock \<Rightarrow> bool" where
  "holdingsleep pid lk \<longleftrightarrow> locked lk \<and> spid lk = pid"

section \<open>Nesting of push_off and pop_off\<close>

fun pop_offs :: "nat \<Rightarrow> cpu \<Rightarrow> cpu res" where
  "pop_offs 0 c = Inr c"
| "pop_offs (Suc n) c = bindR (pop_off c) (pop_offs n)"

lemma push_off_simps:
  "noff (push_off c) = noff c + 1" "\<not> sie (push_off c)"
  "intena (push_off c) = (if noff c = 0 then sie c else intena c)"
  by (simp_all add: push_off_def Let_def)

lemma pushed_simps:
  "0 \<le> noff c \<Longrightarrow> n > 0 \<Longrightarrow>
   noff ((push_off ^^ n) c) = noff c + int n \<and> \<not> sie ((push_off ^^ n) c) \<and>
   intena ((push_off ^^ n) c) = (if noff c = 0 then sie c else intena c)"
proof (induction n)
  case 0
  then show ?case by simp
next
  case (Suc n)
  then show ?case by (cases n) (auto simp: push_off_simps)
qed

lemma pop_offs_spec:
  "\<not> sie c \<Longrightarrow> 0 \<le> noff c - int n \<Longrightarrow>
   pop_offs n c = Inr (c\<lparr>noff := noff c - int n, sie := (0 < n \<and> noff c = int n \<and> intena c)\<rparr>)"
proof (induction n arbitrary: c)
  case 0
  then show ?case by simp
next
  case (Suc n)
  show ?case
  proof (cases n)
    case 0
    then show ?thesis using Suc.prems by (auto simp: pop_off_def Let_def)
  next
    case (Suc m)
    then have "pop_off c = Inr (c\<lparr>noff := noff c - 1\<rparr>)" using Suc.prems by (simp add: pop_off_def Let_def)
    then show ?thesis using Suc.prems Suc.IH[of "c\<lparr>noff := noff c - 1\<rparr>"] Suc by auto
  qed
qed

section \<open>Harts\<close>

datatype pc = Idle | Spinning nat | Taken nat | Disowned nat | Unlocked

record lsys =
  lks :: "nat \<Rightarrow> spinlock"
  cpus :: "nat \<Rightarrow> cpu"
  pcs :: "nat \<Rightarrow> pc"

inductive lock_step :: "lsys \<Rightarrow> lsys \<Rightarrow> bool" where
  st_enter: "pcs s h = Idle \<Longrightarrow> acquire_enter h (lks s l) (cpus s h) = Inr c \<Longrightarrow>
     lock_step s (s\<lparr>cpus := (cpus s)(h := c), pcs := (pcs s)(h := Spinning l)\<rparr>)"
| st_tas: "pcs s h = Spinning l \<Longrightarrow> test_and_set (lks s l) = (old, lk) \<Longrightarrow>
     lock_step s (s\<lparr>lks := (lks s)(l := lk), pcs := (pcs s)(h := if old then Spinning l else Taken l)\<rparr>)"
| st_own: "pcs s h = Taken l \<Longrightarrow>
     lock_step s (s\<lparr>lks := (lks s)(l := acquire_own h (lks s l)), pcs := (pcs s)(h := Idle)\<rparr>)"
| st_disown: "pcs s h = Idle \<Longrightarrow> release_disown h (lks s l) = Inr lk \<Longrightarrow>
     lock_step s (s\<lparr>lks := (lks s)(l := lk), pcs := (pcs s)(h := Disowned l)\<rparr>)"
| st_unlock: "pcs s h = Disowned l \<Longrightarrow>
     lock_step s (s\<lparr>lks := (lks s)(l := lock_release (lks s l)), pcs := (pcs s)(h := Unlocked)\<rparr>)"
| st_pop: "pcs s h = Unlocked \<Longrightarrow> pop_off (cpus s h) = Inr c \<Longrightarrow>
     lock_step s (s\<lparr>cpus := (cpus s)(h := c), pcs := (pcs s)(h := Idle)\<rparr>)"
| st_intr: "pcs s h = Idle \<Longrightarrow> noff (cpus s h) = 0 \<Longrightarrow>
     lock_step s (s\<lparr>cpus := (cpus s)(h := (cpus s h)\<lparr>sie := b\<rparr>)\<rparr>)"

inductive lock_reach :: "lsys \<Rightarrow> bool" where
  reach_init: "(\<And>l. \<exists>name. lks s l = initlock name) \<Longrightarrow> (\<And>h. noff (cpus s h) = 0) \<Longrightarrow>
     (\<And>h. pcs s h = Idle) \<Longrightarrow> lock_reach s"
| reach_step: "lock_reach s \<Longrightarrow> lock_step s s' \<Longrightarrow> lock_reach s'"

text \<open>Hart \<^term>\<open>h\<close> is between a successful \<^verbatim>\<open>amoswap\<close> on lock \<^term>\<open>l\<close> and the store that frees it.\<close>

definition in_critical :: "lsys \<Rightarrow> nat \<Rightarrow> nat \<Rightarrow> bool" where
  "in_critical s h l \<longleftrightarrow> pcs s h = Taken l \<or> pcs s h = Disowned l \<or> scpu (lks s l) = Some h"

definition depth :: "lsys \<Rightarrow> nat \<Rightarrow> int" where
  "depth s h = int (card {l. scpu (lks s l) = Some h}) + (if pcs s h = Idle then 0 else 1)"

definition at_lock :: "lsys \<Rightarrow> nat \<Rightarrow> nat set" where
  "at_lock s l = {h. pcs s h = Taken l \<or> pcs s h = Disowned l}"

definition mutex_ok :: "spinlock \<Rightarrow> nat set \<Rightarrow> bool" where
  "mutex_ok lk A \<longleftrightarrow>
     (if slocked lk then \<exists>h. A = {h} \<and> scpu lk = None \<or> A = {} \<and> scpu lk = Some h
      else A = {} \<and> scpu lk = None)"

definition mutex_inv :: "lsys \<Rightarrow> bool" where
  "mutex_inv s \<longleftrightarrow> (\<forall>l. mutex_ok (lks s l) (at_lock s l))"

definition depth_inv :: "lsys \<Rightarrow> bool" where
  "depth_inv s \<longleftrightarrow>
     (\<forall>h. finite {l. scpu (lks s l) = Some h} \<and> noff (cpus s h) = depth s h \<and>
          (0 < noff (cpus s h) \<longrightarrow> \<not> sie (cpus s h)))"

lemmas lock_op_defs = acquire_enter_def test_and_set_def acquire_own_def release_disown_def
  lock_release_def holding_def Let_def

lemma in_critical_alt: "in_critical s h l \<longleftrightarrow> h \<in> at_lock s l \<or> scpu (lks s l) = Some h"
  by (auto simp: in_critical_def at_lock_def)

lemma mutex_critical:
  assumes "mutex_inv s"
  shows "slocked (lks s l) \<longleftrightarrow> (\<exists>h. in_critical s h l)"
    and "in_critical s h l \<Longrightarrow> in_critical s h' l \<Longrightarrow> h = h'"
  using assms[unfolded mutex_inv_def, rule_format, of l]
  by (auto simp: mutex_ok_def in_critical_alt split: if_splits)

lemma at_lock_upd:
  "at_lock (s\<lparr>lks := L, pcs := (pcs s)(h := p)\<rparr>) l =
     (if p = Taken l \<or> p = Disowned l then insert h (at_lock s l) else at_lock s l - {h})"
  "at_lock (s\<lparr>cpus := C, pcs := (pcs s)(h := p)\<rparr>) l =
     (if p = Taken l \<or> p = Disowned l then insert h (at_lock s l) else at_lock s l - {h})"
  "at_lock (s\<lparr>cpus := C\<rparr>) l = at_lock s l"
  by (auto simp: at_lock_def)

lemma not_at_lock: "pcs s h \<noteq> Taken l \<Longrightarrow> pcs s h \<noteq> Disowned l \<Longrightarrow> at_lock s l - {h} = at_lock s l"
  by (auto simp: at_lock_def)

lemma mutex_invI:
  assumes "mutex_inv s" "\<And>k. mutex_ok (lks s k) (at_lock s k) \<Longrightarrow> mutex_ok (lks s' k) (at_lock s' k)"
  shows "mutex_inv s'"
  using assms by (simp add: mutex_inv_def)

lemma mutex_inv_step: "lock_step s s' \<Longrightarrow> mutex_inv s \<Longrightarrow> mutex_inv s'"
proof (induction rule: lock_step.induct)
  case (st_enter s h l c)
  show ?case by (rule mutex_invI[OF st_enter(3)]) (simp add: at_lock_upd not_at_lock st_enter(1))
next
  case (st_tas s h l old lk)
  have lk: "lk = (lks s l)\<lparr>slocked := True\<rparr>" "old = slocked (lks s l)"
    using st_tas(2) by (auto simp: lock_op_defs)
  show ?case
  proof (rule mutex_invI[OF st_tas(3)])
    fix k
    assume "mutex_ok (lks s k) (at_lock s k)"
    then show "mutex_ok (lks (s\<lparr>lks := (lks s)(l := lk), pcs := (pcs s)(h := if old then Spinning l else Taken l)\<rparr>) k)
       (at_lock (s\<lparr>lks := (lks s)(l := lk), pcs := (pcs s)(h := if old then Spinning l else Taken l)\<rparr>) k)"
      using lk by (cases "k = l") (auto simp: at_lock_upd not_at_lock st_tas(1) mutex_ok_def)
  qed
next
  case (st_own s h l)
  have "h \<in> at_lock s l" "\<And>k. k \<noteq> l \<Longrightarrow> at_lock s k - {h} = at_lock s k"
    using st_own(1) by (auto simp: at_lock_def)
  then show ?case
    by (intro mutex_invI[OF st_own(2)]) (auto simp: at_lock_upd mutex_ok_def lock_op_defs split: if_splits)
next
  case (st_disown s h l lk)
  have "\<And>k. at_lock s k - {h} = at_lock s k" using st_disown(1) by (auto simp: at_lock_def)
  then show ?case using st_disown(2)
    by (intro mutex_invI[OF st_disown(3)]) (auto simp: at_lock_upd mutex_ok_def lock_op_defs split: if_splits)
next
  case (st_unlock s h l)
  have "h \<in> at_lock s l" "\<And>k. k \<noteq> l \<Longrightarrow> at_lock s k - {h} = at_lock s k"
    using st_unlock(1) by (auto simp: at_lock_def)
  then show ?case
    by (intro mutex_invI[OF st_unlock(2)]) (auto simp: at_lock_upd mutex_ok_def lock_op_defs split: if_splits)
next
  case (st_pop s h c)
  show ?case by (rule mutex_invI[OF st_pop(3)]) (simp add: at_lock_upd not_at_lock st_pop(1))
next
  case (st_intr s h b)
  show ?case by (rule mutex_invI[OF st_intr(3)]) (simp add: at_lock_upd)
qed

definition held :: "lsys \<Rightarrow> nat \<Rightarrow> nat set" where
  "held s h = {l. scpu (lks s l) = Some h}"

lemma depth_inv_alt:
  "depth_inv s \<longleftrightarrow> (\<forall>h. finite (held s h) \<and>
     noff (cpus s h) = int (card (held s h)) + (if pcs s h = Idle then 0 else 1) \<and>
     (0 < noff (cpus s h) \<longrightarrow> \<not> sie (cpus s h)))"
  by (simp add: depth_inv_def depth_def held_def)

lemma pop_off_spec:
  "pop_off c = Inr c' \<longleftrightarrow> \<not> sie c \<and> 1 \<le> noff c \<and> c' = c\<lparr>noff := noff c - 1, sie := (noff c = 1 \<and> intena c)\<rparr>"
  by (auto simp: pop_off_def Let_def)

lemma depth_inv_step:
  "lock_step s s' \<Longrightarrow> mutex_inv s \<Longrightarrow> depth_inv s \<Longrightarrow> depth_inv s'"
proof (induction rule: lock_step.induct)
  case (st_enter s h l c)
  have "held (s\<lparr>cpus := (cpus s)(h := c), pcs := (pcs s)(h := Spinning l)\<rparr>) = held s"
    by (simp add: held_def fun_eq_iff)
  then show ?case using st_enter unfolding depth_inv_alt
    by (auto simp: lock_op_defs push_off_simps split: if_splits)
next
  case (st_tas s h l old lk)
  have "held (s\<lparr>lks := (lks s)(l := lk), pcs := (pcs s)(h := if old then Spinning l else Taken l)\<rparr>) = held s"
    using st_tas(2) by (auto simp: held_def fun_eq_iff lock_op_defs)
  then show ?case using st_tas unfolding depth_inv_alt by auto
next
  case (st_own s h l)
  let ?s = "s\<lparr>lks := (lks s)(l := acquire_own h (lks s l)), pcs := (pcs s)(h := Idle)\<rparr>"
  have "h \<in> at_lock s l" using st_own(1) by (simp add: at_lock_def)
  then have n: "scpu (lks s l) = None"
    using st_own(2)[unfolded mutex_inv_def, rule_format, of l] by (auto simp: mutex_ok_def split: if_splits)
  then have "held ?s k = (if k = h then insert l (held s h) else held s k)" "l \<notin> held s h" for k
    by (auto simp: held_def lock_op_defs)
  then show ?case using st_own unfolding depth_inv_alt by auto
next
  case (st_disown s h l lk)
  let ?s = "s\<lparr>lks := (lks s)(l := lk), pcs := (pcs s)(h := Disowned l)\<rparr>"
  have l: "scpu (lks s l) = Some h" "scpu lk = None" using st_disown(2) by (auto simp: lock_op_defs split: if_splits)
  then have H: "held ?s k = (if k = h then held s h - {l} else held s k)" for k
    by (auto simp: held_def)
  have fin: "finite (held s h)" using st_disown(4) by (simp add: depth_inv_alt)
  have "l \<in> held s h" using l by (simp add: held_def)
  with fin have "0 < card (held s h)" using card_gt_0_iff by blast
  then show ?case using st_disown(1,4) H fin \<open>l \<in> held s h\<close> unfolding depth_inv_alt by (auto simp: of_nat_diff)
next
  case (st_unlock s h l)
  have "held (s\<lparr>lks := (lks s)(l := lock_release (lks s l)), pcs := (pcs s)(h := Unlocked)\<rparr>) = held s"
    by (auto simp: held_def fun_eq_iff lock_op_defs)
  then show ?case using st_unlock unfolding depth_inv_alt by auto
next
  case (st_pop s h c)
  have "held (s\<lparr>cpus := (cpus s)(h := c), pcs := (pcs s)(h := Idle)\<rparr>) = held s"
    by (simp add: held_def fun_eq_iff)
  then show ?case using st_pop unfolding depth_inv_alt by (auto simp: pop_off_spec)
next
  case (st_intr s h b)
  have "held (s\<lparr>cpus := (cpus s)(h := (cpus s h)\<lparr>sie := b\<rparr>)\<rparr>) = held s"
    by (simp add: held_def fun_eq_iff)
  then show ?case using st_intr unfolding depth_inv_alt by auto
qed

lemma lock_reach_inv: "lock_reach s \<Longrightarrow> mutex_inv s \<and> depth_inv s"
proof (induction rule: lock_reach.induct)
  case (reach_init s)
  have l: "\<not> slocked (lks s l) \<and> scpu (lks s l) = None" for l
    using reach_init(1)[of l] by (auto simp: initlock_def)
  then show ?case using reach_init(2,3)
    by (simp add: mutex_inv_def mutex_ok_def at_lock_def depth_inv_alt held_def)
next
  case (reach_step s s')
  then show ?case using mutex_inv_step depth_inv_step by blast
qed

lemma critical_noff:
  assumes "depth_inv s" "in_critical s h l"
  shows "0 < noff (cpus s h)"
proof -
  have "held s h \<noteq> {} \<or> pcs s h \<noteq> Idle" using assms(2) by (auto simp: in_critical_def held_def)
  then show ?thesis using assms(1)[unfolded depth_inv_alt, rule_format, of h] card_gt_0_iff[of "held s h"] by auto
qed

section \<open>Properties\<close>

text \<open>C13. Spin locks give mutual exclusion between any number of harts whose instructions interleave
  arbitrarily: at most one hart is between a successful atomic swap and the store that frees the lock, the
  lock word is set exactly while there is one, that hart runs with interrupts off, the pop_off at the
  end of release never panics, and acquire panics exactly when the calling hart already holds the
  lock.\<close>

theorem spinlock_mutual_exclusion:
  assumes "lock_reach s"
  shows "(in_critical s h l \<longrightarrow> in_critical s h' l \<longrightarrow> h = h') \<and>
    (slocked (lks s l) \<longleftrightarrow> (\<exists>k. in_critical s k l)) \<and>
    (in_critical s h l \<longrightarrow> \<not> sie (cpus s h)) \<and>
    (pcs s h = Unlocked \<longrightarrow> (\<exists>c. pop_off (cpus s h) = Inr c)) \<and>
    (pcs s h = Idle \<longrightarrow>
       acquire_enter h (lks s l) (cpus s h) =
       (if in_critical s h l then Inl (Panic ''acquire'') else Inr (push_off (cpus s h))))"
proof -
  have i: "mutex_inv s" "depth_inv s" using lock_reach_inv[OF assms] by auto
  have d: "0 < noff (cpus s h) \<Longrightarrow> \<not> sie (cpus s h)"
    "noff (cpus s h) = int (card (held s h)) + (if pcs s h = Idle then 0 else 1)"
    using i(2) by (simp_all add: depth_inv_alt)
  have "pcs s h = Idle \<Longrightarrow> holding h (lks s l) \<longleftrightarrow> in_critical s h l"
    using mutex_critical(1)[OF i(1), of l] by (auto simp: holding_def in_critical_def)
  moreover have "in_critical s h l \<Longrightarrow> \<not> sie (cpus s h)" using critical_noff[OF i(2)] d(1) by blast
  moreover have "pcs s h = Unlocked \<Longrightarrow> \<exists>c. pop_off (cpus s h) = Inr c"
    using d by (simp add: pop_off_def Let_def)
  ultimately show ?thesis
    using mutex_critical[OF i(1)] by (auto simp: acquire_enter_def Let_def)
qed

theorem spinlock_mutual_exclusion_witness:
  "slocked (lks \<lparr>lks = (\<lambda>_. initlock ''a''), cpus = (\<lambda>_. \<lparr>noff = 0, intena = False, sie = True\<rparr>), pcs = (\<lambda>_. Idle)\<rparr> 0)
   \<longleftrightarrow> (\<exists>k. in_critical \<lparr>lks = (\<lambda>_. initlock ''a''), cpus = (\<lambda>_. \<lparr>noff = 0, intena = False, sie = True\<rparr>), pcs = (\<lambda>_. Idle)\<rparr> k 0)"
proof -
  have "lock_reach \<lparr>lks = (\<lambda>_. initlock ''a''), cpus = (\<lambda>_. \<lparr>noff = 0, intena = False, sie = True\<rparr>), pcs = (\<lambda>_. Idle)\<rparr>"
    by (rule reach_init) auto
  from spinlock_mutual_exclusion[OF this, of 0 0 0] show ?thesis by blast
qed

text \<open>C25. push_off and pop_off are matched: after n calls of push_off, interrupts are off, n calls of pop_off
  succeed, and they restore the nesting depth and the interrupt state of the hart exactly; in
  particular a release undoes what the matching acquire did to the hart.\<close>

theorem push_off_pop_off_matched:
  assumes "0 \<le> noff c" "0 < noff c \<longrightarrow> \<not> sie c" "0 < n"
  shows "\<not> sie ((push_off ^^ n) c) \<and>
    (\<exists>c'. pop_offs n ((push_off ^^ n) c) = Inr c' \<and> noff c' = noff c \<and> sie c' = sie c) \<and>
    (\<not> slocked lk \<longrightarrow> (\<exists>lk1 c1 c2. acquire h lk c = Inr (lk1, c1) \<and> holding h lk1 \<and> \<not> sie c1 \<and>
       release h lk1 c1 = Inr (lk\<lparr>scpu := None\<rparr>, c2) \<and> noff c2 = noff c \<and> sie c2 = sie c))"
proof -
  have p: "noff ((push_off ^^ n) c) = noff c + int n" "\<not> sie ((push_off ^^ n) c)"
    "intena ((push_off ^^ n) c) = (if noff c = 0 then sie c else intena c)"
    using pushed_simps[OF assms(1,3)] by auto
  have "\<exists>c'. pop_offs n ((push_off ^^ n) c) = Inr c' \<and> noff c' = noff c \<and> sie c' = sie c"
    using pop_offs_spec[OF p(2), of n] p assms by auto
  moreover have "\<exists>lk1 c1 c2. acquire h lk c = Inr (lk1, c1) \<and> holding h lk1 \<and> \<not> sie c1 \<and>
       release h lk1 c1 = Inr (lk\<lparr>scpu := None\<rparr>, c2) \<and> noff c2 = noff c \<and> sie c2 = sie c" if "\<not> slocked lk"
    using that assms(1,2)
    by (auto simp: acquire_def release_def lock_op_defs pop_off_def push_off_simps)
  ultimately show ?thesis using p(2) by blast
qed

theorem push_off_pop_off_matched_witness:
  "\<exists>c'. pop_offs 3 ((push_off ^^ 3) \<lparr>noff = 0, intena = False, sie = True\<rparr>) = Inr c' \<and> noff c' = 0 \<and> sie c'"
  using push_off_pop_off_matched[of "\<lparr>noff = 0, intena = False, sie = True\<rparr>" 3 "initlock ''a''" 0] by simp

end
