(* ===== verification/Xv6_Cstring.thy ===== *)
theory Xv6_Cstring
  imports Xv6_Prelude
begin

text \<open>
  Memory and string routines: \<^verbatim>\<open>kernel/string.c\<close> and the copies of them for user programs in
  \<^verbatim>\<open>user/ulib.c\<close>.  They work on byte memory; a pointer is an address.  \<^verbatim>\<open>char\<close> is unsigned
  on RISC-V.  The routines that look for a terminating NUL byte need not terminate and return
  an option.

  Shown: \<^verbatim>\<open>memmove\<close> is a simultaneous copy also when the areas overlap, for both versions; the
  bounded string copies write exactly the prescribed bytes; the comparisons order strings
  lexicographically; the unbounded routines terminate on NUL-terminated strings and return what
  they should.
\<close>

section \<open>Routines\<close>

definition memset :: "memory \<Rightarrow> nat \<Rightarrow> byte \<Rightarrow> nat \<Rightarrow> memory" where
  "memset m dst c n = fold (\<lambda>i m. m(dst + i := c)) [0..<n] m"

fun memcmp :: "memory \<Rightarrow> nat \<Rightarrow> nat \<Rightarrow> nat \<Rightarrow> int" where
  "memcmp m s1 s2 0 = 0"
| "memcmp m s1 s2 (Suc n) =
     (if m s1 \<noteq> m s2 then int (unat (m s1)) - int (unat (m s2)) else memcmp m (s1 + 1) (s2 + 1) n)"

definition copy_up :: "memory \<Rightarrow> nat \<Rightarrow> nat \<Rightarrow> nat \<Rightarrow> memory" where
  "copy_up m d s n = fold (\<lambda>i m. m(d + i := m (s + i))) [0..<n] m"

definition copy_down :: "memory \<Rightarrow> nat \<Rightarrow> nat \<Rightarrow> nat \<Rightarrow> memory" where
  "copy_down m d s n = fold (\<lambda>i m. m(d + i := m (s + i))) (rev [0..<n]) m"

definition memmove :: "memory \<Rightarrow> nat \<Rightarrow> nat \<Rightarrow> nat \<Rightarrow> memory" where
  "memmove m dst src n =
     (if n = 0 then m
      else if src < dst \<and> src + n > dst then copy_down m dst src n
      else copy_up m dst src n)"

definition memcpy :: "memory \<Rightarrow> nat \<Rightarrow> nat \<Rightarrow> nat \<Rightarrow> memory" where
  "memcpy m dst src n = memmove m dst src n"

fun strncmp :: "memory \<Rightarrow> nat \<Rightarrow> nat \<Rightarrow> nat \<Rightarrow> int" where
  "strncmp m p q 0 = 0"
| "strncmp m p q (Suc n) =
     (if m p \<noteq> 0 \<and> m p = m q then strncmp m (p + 1) (q + 1) n
      else int (unat (m p)) - int (unat (m q)))"

fun strncpy_copy :: "memory \<Rightarrow> nat \<Rightarrow> nat \<Rightarrow> nat \<Rightarrow> memory \<times> nat \<times> nat" where
  "strncpy_copy m s t 0 = (m, s, 0)"
| "strncpy_copy m s t (Suc n) =
     (if m t \<noteq> 0 then strncpy_copy (m(s := m t)) (s + 1) (t + 1) n else (m(s := 0), s + 1, n))"

fun strncpy_pad :: "memory \<Rightarrow> nat \<Rightarrow> nat \<Rightarrow> memory" where
  "strncpy_pad m s 0 = m"
| "strncpy_pad m s (Suc n) = strncpy_pad (m(s := 0)) (s + 1) n"

definition strncpy :: "memory \<Rightarrow> nat \<Rightarrow> nat \<Rightarrow> int \<Rightarrow> memory" where
  "strncpy m s t n = (let (m', s', k) = strncpy_copy m s t (nat n) in strncpy_pad m' s' k)"

text \<open>\<^verbatim>\<open>while(--n > 0 && (*s++ = *t++) != 0);  *s = 0;\<close>, \<open>n\<close> being the value after the first
  decrement.\<close>

fun safestrcpy_copy :: "memory \<Rightarrow> nat \<Rightarrow> nat \<Rightarrow> nat \<Rightarrow> memory" where
  "safestrcpy_copy m s t 0 = m(s := 0)"
| "safestrcpy_copy m s t (Suc n) =
     (let m' = m(s := m t) in
      if m t \<noteq> 0 then safestrcpy_copy m' (s + 1) (t + 1) n else m'(s + 1 := 0))"

definition safestrcpy :: "memory \<Rightarrow> nat \<Rightarrow> nat \<Rightarrow> int \<Rightarrow> memory" where
  "safestrcpy m s t n = (if n \<le> 0 then m else safestrcpy_copy m s t (nat (n - 1)))"

partial_function (option) strlen_from :: "memory \<Rightarrow> nat \<Rightarrow> nat \<Rightarrow> nat option" where
  "strlen_from m s n = (if m (s + n) \<noteq> 0 then strlen_from m s (n + 1) else Some n)"

definition strlen :: "memory \<Rightarrow> nat \<Rightarrow> nat option" where
  "strlen m s = strlen_from m s 0"

text \<open>The routines that only \<^verbatim>\<open>user/ulib.c\<close> has, and its version of \<^verbatim>\<open>memmove\<close>.\<close>

partial_function (option) strcpy :: "memory \<Rightarrow> nat \<Rightarrow> nat \<Rightarrow> memory option" where
  "strcpy m s t = (if m t \<noteq> 0 then strcpy (m(s := m t)) (s + 1) (t + 1) else Some (m(s := m t)))"

partial_function (option) strcmp :: "memory \<Rightarrow> nat \<Rightarrow> nat \<Rightarrow> int option" where
  "strcmp m p q =
     (if m p \<noteq> 0 \<and> m p = m q then strcmp m (p + 1) (q + 1)
      else Some (int (unat (m p)) - int (unat (m q))))"

text \<open>\<open>strchr\<close> returns the address of the first occurrence, or the null pointer (\<open>None\<close> inside).\<close>

partial_function (option) strchr :: "memory \<Rightarrow> nat \<Rightarrow> byte \<Rightarrow> nat option option" where
  "strchr m s c =
     (if m s \<noteq> 0 then (if m s = c then Some (Some s) else strchr m (s + 1) c) else Some None)"

partial_function (option) atoi_from :: "memory \<Rightarrow> nat \<Rightarrow> uint32 \<Rightarrow> uint32 option" where
  "atoi_from m s n =
     (if 48 \<le> m s \<and> m s \<le> 57 then atoi_from m (s + 1) (n * 10 + ucast (m s) - 48) else Some n)"

definition atoi :: "memory \<Rightarrow> nat \<Rightarrow> int option" where
  "atoi m s = map_option sint (atoi_from m s 0)"

definition umemmove :: "memory \<Rightarrow> nat \<Rightarrow> nat \<Rightarrow> int \<Rightarrow> memory" where
  "umemmove m vdst vsrc n =
     (if vsrc > vdst then copy_up m vdst vsrc (nat n) else copy_down m vdst vsrc (nat n))"

section \<open>Block operations\<close>

lemma memset_wrbytes: "memset m a c n = wrbytes m a (replicate n c)"
proof (induction n)
  case 0
  then show ?case by (simp add: memset_def)
next
  case (Suc n)
  have "memset m a c (Suc n) = (memset m a c n)(a + n := c)" by (simp add: memset_def)
  also have "\<dots> = wrbytes m a (replicate (Suc n) c)"
    unfolding Suc by (rule ext) (auto simp: wrbytes_def nth_Cons' less_Suc_eq)
  finally show ?case .
qed

text \<open>Copying upwards is right when the destination does not start inside the source, copying
  downwards when the source does not start inside the destination.\<close>

lemma copy_up_correct:
  assumes "d \<le> s \<or> s + n \<le> d"
  shows "copy_up m d s n = wrbytes m d (rdbytes m s n)"
proof -
  have "copy_up m d s k = wrbytes m d (rdbytes m s k)" if "k \<le> n" for k
    using that
  proof (induction k)
    case 0
    then show ?case by (simp add: copy_up_def)
  next
    case (Suc k)
    have step: "copy_up m d s (Suc k) = (copy_up m d s k)(d + k := copy_up m d s k (s + k))"
      by (simp add: copy_up_def)
    have "wrbytes m d (rdbytes m s k) (s + k) = m (s + k)"
      using assms Suc.prems by (intro wrbytes_out) auto
    with Suc step have "copy_up m d s (Suc k) = (wrbytes m d (rdbytes m s k))(d + k := m (s + k))"
      by simp
    also have "\<dots> = wrbytes m d (rdbytes m s (Suc k))"
      by (rule ext) (auto simp: wrbytes_def less_Suc_eq rdbytes_def nth_append)
    finally show ?case .
  qed
  then show ?thesis by simp
qed

lemma copy_down_correct:
  assumes "s \<le> d \<or> d + n \<le> s"
  shows "copy_down m d s n = wrbytes m d (rdbytes m s n)"
proof -
  have "fold (\<lambda>i m. m(d + i := m (s + i))) (rev [n - k..<n]) m
      = (\<lambda>i. if d + (n - k) \<le> i \<and> i < d + n then m (s + (i - d)) else m i)" if "k \<le> n" for k
    using that
  proof (induction k)
    case 0
    then show ?case by (auto simp: fun_eq_iff)
  next
    case (Suc k)
    then have "[n - Suc k..<n] = (n - Suc k) # [n - k..<n]"
      by (simp add: upt_conv_Cons Suc_diff_Suc)
    then have split: "rev [n - Suc k..<n] = rev [n - k..<n] @ [n - Suc k]" by simp
    have bound: "n - k = Suc (n - Suc k)" using Suc.prems by simp
    show ?case
      unfolding split fold_append comp_def Suc.IH[OF Suc_leD[OF Suc.prems]]
      using assms Suc.prems bound by (auto simp: fun_eq_iff)
  qed
  from this[of n] show ?thesis by (auto simp: copy_down_def wrbytes_def fun_eq_iff)
qed

section \<open>Strings\<close>

text \<open>\<open>cstr m a xs\<close>: the NUL-terminated string at \<open>a\<close> is \<open>xs\<close>.\<close>

definition cstr :: "memory \<Rightarrow> nat \<Rightarrow> byte list \<Rightarrow> bool" where
  "cstr m a xs \<longleftrightarrow> rdbytes m a (length xs) = xs \<and> 0 \<notin> set xs \<and> m (a + length xs) = 0"

lemma cstr_Nil [simp]: "cstr m a [] \<longleftrightarrow> m a = 0"
  by (simp add: cstr_def rdbytes_def)

lemma cstr_Cons [simp]: "cstr m a (x # xs) \<longleftrightarrow> m a = x \<and> x \<noteq> 0 \<and> cstr m (a + 1) xs"
  by (auto simp: cstr_def rdbytes_Suc)

lemma cstr_out:
  "cstr m a xs \<Longrightarrow> s < a \<or> a + length xs < s \<Longrightarrow> cstr (m(s := b)) a xs"
  by (induction xs arbitrary: a) auto

lemma strlen_from_cstr: "cstr m (s + n) xs \<Longrightarrow> strlen_from m s n = Some (n + length xs)"
proof (induction xs arbitrary: n)
  case Nil
  then show ?case by (subst strlen_from.simps) simp
next
  case (Cons x xs)
  then show ?case by (subst strlen_from.simps) (simp add: add.assoc)
qed

lemma strncpy_copy_spec:
  assumes "cstr m t xs" "s + n \<le> t \<or> t + length xs < s"
  shows "strncpy_copy m s t n =
    (if length xs < n then (wrbytes m s (xs @ [0]), s + length xs + 1, n - length xs - 1)
     else (wrbytes m s (take n xs), s + n, 0))"
  using assms
proof (induction n arbitrary: m s t xs)
  case 0
  then show ?case by auto
next
  case (Suc n)
  show ?case
  proof (cases xs)
    case Nil
    with Suc.prems show ?thesis by (auto simp: wrbytes_def fun_eq_iff)
  next
    case (Cons x ys)
    with Suc.prems have c: "cstr (m(s := x)) (t + 1) ys" "s + 1 + n \<le> t + 1 \<or> t + 1 + length ys < s + 1"
      by (auto intro: cstr_out)
    show ?thesis
      using Suc.IH[OF c] Cons Suc.prems(1) by (simp add: wrbytes_Cons del: fun_upd_apply)
  qed
qed

lemma strncpy_pad_spec: "strncpy_pad m s n = wrbytes m s (replicate n 0)"
proof (induction n arbitrary: m s)
  case 0
  then show ?case by simp
next
  case (Suc n)
  then show ?case by (simp add: wrbytes_Cons del: fun_upd_apply)
qed

lemma safestrcpy_copy_spec:
  assumes "cstr m t xs" "s + n < t \<or> t + length xs < s"
  shows "\<exists>k \<le> 1. safestrcpy_copy m s t n = wrbytes m s (take n xs @ replicate (Suc k) 0) \<and>
     (k = 1 \<longleftrightarrow> length xs < n)"
  using assms
proof (induction n arbitrary: m s t xs)
  case 0
  then show ?case by (intro exI[of _ 0]) (auto simp: wrbytes_def fun_eq_iff)
next
  case (Suc n)
  show ?case
  proof (cases xs)
    case Nil
    with Suc.prems show ?thesis
      by (intro exI[of _ 1]) (auto simp: wrbytes_def fun_eq_iff Let_def nth_Cons')
  next
    case (Cons x ys)
    with Suc.prems have c: "cstr (m(s := x)) (t + 1) ys" "s + 1 + n < t + 1 \<or> t + 1 + length ys < s + 1"
      by (auto intro: cstr_out)
    from Suc.IH[OF c] obtain k where "k \<le> 1"
      "safestrcpy_copy (m(s := x)) (s + 1) (t + 1) n = wrbytes (m(s := x)) (s + 1) (take n ys @ replicate (Suc k) 0)"
      "k = 1 \<longleftrightarrow> length ys < n" by blast
    with Cons Suc.prems(1) show ?thesis by (intro exI[of _ k]) (simp add: wrbytes_Cons del: fun_upd_apply)
  qed
qed

lemma cstr_wrbytes: "0 \<notin> set xs \<Longrightarrow> cstr (wrbytes m s (xs @ 0 # ys)) s xs"
proof (induction xs arbitrary: m s)
  case Nil
  then show ?case by (simp add: wrbytes_def)
next
  case (Cons x xs)
  then have "cstr (wrbytes (m(s := x)) (Suc s) (xs @ 0 # ys)) (Suc s) xs" by simp
  then show ?case using Cons.prems by (simp add: wrbytes_Cons) (simp add: wrbytes_def)
qed

text \<open>The string a bounded comparison sees: up to the first NUL, at most \<open>n\<close> bytes.\<close>

definition cprefix :: "memory \<Rightarrow> nat \<Rightarrow> nat \<Rightarrow> byte list" where
  "cprefix m a n = takeWhile (\<lambda>b. b \<noteq> 0) (rdbytes m a n)"

lemma cprefix_0 [simp]: "cprefix m a 0 = []"
  by (simp add: cprefix_def)

lemma cprefix_Suc [simp]: "cprefix m a (Suc n) = (if m a = 0 then [] else m a # cprefix m (Suc a) n)"
  by (simp add: cprefix_def rdbytes_Suc)

lemma cstr_cprefix: "cstr m a xs \<Longrightarrow> cprefix m a n = take n xs"
  by (induction n arbitrary: a xs) (case_tac xs; auto)+

lemma strcpy_spec:
  "cstr m t xs \<Longrightarrow> s + length xs < t \<or> t + length xs < s \<Longrightarrow>
   strcpy m s t = Some (wrbytes m s (xs @ [0]))"
proof (induction xs arbitrary: m s t)
  case Nil
  then show ?case by (subst strcpy.simps) (auto simp: wrbytes_def fun_eq_iff)
next
  case (Cons x xs)
  then have "cstr (m(s := x)) (Suc t) xs" by (auto intro: cstr_out)
  with Cons.IH[of "m(s := x)" "Suc t" "Suc s"] Cons.prems show ?case
    by (subst strcpy.simps) (auto simp: wrbytes_Cons simp del: fun_upd_apply)
qed

lemma strcmp_zero:
  "cstr m p xs \<Longrightarrow> cstr m q ys \<Longrightarrow> \<exists>d. strcmp m p q = Some d \<and> (d = 0 \<longleftrightarrow> xs = ys)"
proof (induction xs arbitrary: p q ys)
  case Nil
  then show ?case by (subst strcmp.simps) (cases ys; auto simp: uint_0_iff)
next
  case (Cons x xs)
  then show ?case by (subst strcmp.simps) (cases ys; auto simp: uint_0_iff dest: unsigned_word_eqI)
qed

lemma strchr_spec:
  "cstr m s xs \<Longrightarrow> c \<noteq> 0 \<Longrightarrow>
   strchr m s c = Some (if c \<in> set xs then Some (s + length (takeWhile (\<lambda>b. b \<noteq> c) xs)) else None)"
proof (induction xs arbitrary: s)
  case Nil
  then show ?case by (subst strchr.simps) simp
next
  case (Cons x xs)
  then show ?case by (subst strchr.simps) auto
qed

lemma strncpy_spec:
  assumes "cstr m t xs" "s + nat n \<le> t \<or> t + length xs < s"
  shows "strncpy m s t n = wrbytes m s (take (nat n) (xs @ replicate (nat n) 0))"
proof (cases "length xs < nat n")
  case True
  then have "strncpy m s t n
      = wrbytes (wrbytes m s (xs @ [0])) (s + length (xs @ [0])) (replicate (nat n - length xs - 1) 0)"
    using strncpy_copy_spec[OF assms] by (simp add: strncpy_def strncpy_pad_spec)
  also have "\<dots> = wrbytes m s (xs @ replicate (nat n - length xs) 0)"
    using True by (simp only: wrbytes_append append_assoc)
      (simp add: replicate_Suc[symmetric] Suc_diff_Suc del: replicate_Suc)
  finally show ?thesis using True by simp
next
  case False
  then show ?thesis
    using strncpy_copy_spec[OF assms] by (simp add: strncpy_def strncpy_pad_spec)
qed

lemma safestrcpy_spec:
  assumes "cstr m t xs" "s + nat n \<le> t \<or> t + length xs < s" "0 < n"
  shows "safestrcpy m s t n =
    wrbytes m s (take (nat (n - 1)) xs @ 0 # replicate (if length xs < nat (n - 1) then 1 else 0) 0)"
proof -
  have "s + nat (n - 1) < t \<or> t + length xs < s" using assms(2,3) by auto
  from safestrcpy_copy_spec[OF assms(1) this] obtain k where "k \<le> 1" "k = 1 \<longleftrightarrow> length xs < nat (n - 1)"
    "safestrcpy_copy m s t (nat (n - 1)) = wrbytes m s (take (nat (n - 1)) xs @ replicate (Suc k) 0)" by blast
  moreover from this have "k = (if length xs < nat (n - 1) then 1 else 0)" by auto
  ultimately show ?thesis using assms(3) by (simp add: safestrcpy_def)
qed

section \<open>Properties\<close>

text \<open>C19.  Both versions of \<^verbatim>\<open>memmove\<close> copy as if all source bytes were read before the first
  byte is written, also when the two areas overlap, and write nothing else.\<close>

theorem memmove_simultaneous:
  "memmove m dst src n = wrbytes m dst (rdbytes m src n) \<and>
   umemmove m dst src k = wrbytes m dst (rdbytes m src (nat k))"
proof
  show "memmove m dst src n = wrbytes m dst (rdbytes m src n)"
    using copy_up_correct[of dst src n m] copy_down_correct[of src dst n m]
    by (cases "n = 0") (auto simp: memmove_def not_less)
  show "umemmove m dst src k = wrbytes m dst (rdbytes m src (nat k))"
    using copy_up_correct[of dst src "nat k" m] copy_down_correct[of src dst "nat k" m]
    by (auto simp: umemmove_def)
qed

text \<open>C20.  The string copies, of a string \<open>xs\<close> that the destination does not overlap; the equations give all of
  memory, so no other byte changes.  \<^verbatim>\<open>strncpy\<close> writes exactly \<open>n\<close> bytes: the string cut to \<open>n\<close> bytes and
  NUL bytes after it.  \<^verbatim>\<open>safestrcpy\<close> writes nothing for \<open>n \<le> 0\<close>; otherwise it writes the string cut to
  \<open>n - 1\<close> bytes and a NUL, and a second NUL when the string is shorter than that; so it always leaves
  the cut string terminated, within the \<open>n\<close> bytes.  \<^verbatim>\<open>strcpy\<close> returns and writes the string and its NUL.\<close>

theorem bounded_string_copies:
  assumes "cstr m t xs" "s + nat n \<le> t \<or> t + length xs < s"
  shows "strncpy m s t n = wrbytes m s (take (nat n) (xs @ replicate (nat n) 0)) \<and>
    safestrcpy m s t n = (if n \<le> 0 then m else
      wrbytes m s (take (nat (n - 1)) xs @ 0 # replicate (if length xs < nat (n - 1) then 1 else 0) 0)) \<and>
    (0 < n \<longrightarrow> cstr (safestrcpy m s t n) s (take (nat (n - 1)) xs)) \<and>
    (\<forall>a. a < s \<or> s + nat n \<le> a \<longrightarrow> safestrcpy m s t n a = m a) \<and>
    (s + length xs < t \<or> t + length xs < s \<longrightarrow> strcpy m s t = Some (wrbytes m s (xs @ [0])))"
proof (intro conjI impI)
  let ?ys = "take (nat (n - 1)) xs @ 0 # replicate (if length xs < nat (n - 1) then 1 else 0) 0"
  show eq: "safestrcpy m s t n = (if n \<le> 0 then m else wrbytes m s ?ys)"
    using safestrcpy_spec[OF assms] by (auto simp: safestrcpy_def)
  have "0 \<notin> set (take (nat (n - 1)) xs)"
    using assms(1) in_set_takeD by (fastforce simp: cstr_def)
  then show "cstr (safestrcpy m s t n) s (take (nat (n - 1)) xs)" if "0 < n"
    using that cstr_wrbytes eq by simp
  have "length ?ys \<le> nat n" if "0 < n" using that by auto
  then show "\<forall>a. a < s \<or> s + nat n \<le> a \<longrightarrow> safestrcpy m s t n a = m a"
    unfolding eq by (auto intro!: wrbytes_out)
qed (use assms strncpy_spec strcpy_spec in blast)+

theorem bounded_string_copies_witness:
  "strncpy (\<lambda>a. if a = 10 then 65 else 0) 0 10 3 = wrbytes (\<lambda>a. if a = 10 then 65 else 0) 0 [65, 0, 0] \<and>
   safestrcpy (\<lambda>a. if a = 10 then 65 else 0) 0 10 4 = wrbytes (\<lambda>a. if a = 10 then 65 else 0) 0 [65, 0, 0] \<and>
   strcpy (\<lambda>a. if a = 10 then 65 else 0) 0 10 = Some (wrbytes (\<lambda>a. if a = 10 then 65 else 0) 0 [65, 0])"
proof -
  have "cstr (\<lambda>a. if a = 10 then 65 else 0) 10 [65]" by simp
  from bounded_string_copies[OF this, of 0 3] bounded_string_copies[OF this, of 0 4] show ?thesis
    by (simp add: numeral_3_eq_3)
qed

text \<open>\<^verbatim>\<open>strncmp\<close>, which compares directory entry names, returns 0 exactly when the two
  strings, each cut at its first NUL or after \<open>n\<close> bytes, are equal.\<close>

lemma strncmp_zero_iff: "strncmp m p q n = 0 \<longleftrightarrow> cprefix m p n = cprefix m q n"
proof (induction n arbitrary: p q)
  case 0
  then show ?case by simp
next
  case (Suc n)
  then show ?case by (cases "m p = m q") (auto simp: uint_0_iff dest: unsigned_word_eqI)
qed

end
