(* ===== verification/Xv6_Riscv.thy ===== *)
theory Xv6_Riscv
  imports Xv6_Prelude
begin

unbundle bit_operations_syntax

text \<open>
  The memory layout (\<^verbatim>\<open>kernel/memlayout.h\<close>) and the page-table macros of \<^verbatim>\<open>kernel/riscv.h\<close> on
  64-bit words, with the arithmetic reading of the bit operations: rounding to pages, the three
  9-bit indices of a virtual address, and packing a physical address and flags into a page table
  entry.
\<close>

section \<open>Constants and macros\<close>

definition PGSIZE :: nat where "PGSIZE = 4096"
definition KERNBASE :: nat where "KERNBASE = 0x80000000"
definition PHYSTOP :: nat where "PHYSTOP = KERNBASE + 128 * 1024 * 1024"
definition MAXVA :: uint64 where "MAXVA = push_bit (9 + 9 + 9 + 12 - 1) 1"
definition TRAMPOLINE :: uint64 where "TRAMPOLINE = MAXVA - of_nat PGSIZE"
definition TRAPFRAME :: uint64 where "TRAPFRAME = TRAMPOLINE - of_nat PGSIZE"
definition KSTACK :: "nat \<Rightarrow> uint64" where
  "KSTACK p = TRAMPOLINE - (of_nat p + 1) * 2 * of_nat PGSIZE"

definition PGROUNDUP :: "uint64 \<Rightarrow> uint64" where
  "PGROUNDUP sz = (sz + of_nat PGSIZE - 1) AND NOT (of_nat PGSIZE - 1)"

definition PGROUNDDOWN :: "uint64 \<Rightarrow> uint64" where
  "PGROUNDDOWN a = a AND NOT (of_nat PGSIZE - 1)"

definition PTE_V :: uint64 where "PTE_V = push_bit 0 1"
definition PTE_R :: uint64 where "PTE_R = push_bit 1 1"
definition PTE_W :: uint64 where "PTE_W = push_bit 2 1"
definition PTE_X :: uint64 where "PTE_X = push_bit 3 1"
definition PTE_U :: uint64 where "PTE_U = push_bit 4 1"

definition PA2PTE :: "uint64 \<Rightarrow> uint64" where
  "PA2PTE pa = push_bit 10 (drop_bit 12 pa)"

definition PTE2PA :: "uint64 \<Rightarrow> uint64" where
  "PTE2PA pte = push_bit 12 (drop_bit 10 pte)"

definition PTE_FLAGS :: "uint64 \<Rightarrow> uint64" where
  "PTE_FLAGS pte = pte AND 0x3FF"

definition PXMASK :: uint64 where "PXMASK = 0x1FF"

definition PXSHIFT :: "nat \<Rightarrow> nat" where
  "PXSHIFT level = 12 + 9 * level"

definition PX :: "nat \<Rightarrow> uint64 \<Rightarrow> uint64" where
  "PX level va = drop_bit (PXSHIFT level) va AND PXMASK"

section \<open>Rounding\<close>

lemma mask12: "(of_nat PGSIZE - 1 :: uint64) = mask 12"
  by (simp add: PGSIZE_def mask_eq_exp_minus_1)

lemma unat_drop_bit: "unat (drop_bit n (w :: uint64)) = unat w div 2 ^ n"
proof -
  have "take_bit LENGTH(64) (unat w) = unat w" by (rule take_bit_nat_eq_self) (rule unat_less)
  then show ?thesis by (subst unsigned_drop_bit_eq) (simp add: drop_bit_eq_div)
qed

lemma unat_PGROUNDDOWN: "unat (PGROUNDDOWN a) = PGSIZE * (unat a div PGSIZE)"
proof -
  have "PGROUNDDOWN a = push_bit 12 (drop_bit 12 a)"
    unfolding PGROUNDDOWN_def mask12 by (rule bit_word_eqI) (auto simp: bit_simps)
  then have "unat (PGROUNDDOWN a) = take_bit 64 (push_bit 12 (unat (drop_bit 12 a)))"
    by (simp only: unsigned_push_bit_eq) simp
  also have "\<dots> = take_bit 64 (PGSIZE * (unat a div PGSIZE))"
    by (simp only: unat_drop_bit push_bit_eq_mult) (simp add: PGSIZE_def mult.commute)
  also have "\<dots> = PGSIZE * (unat a div PGSIZE)"
    using unat_less[of a] by (intro take_bit_nat_eq_self) (simp add: PGSIZE_def)
  finally show ?thesis .
qed

lemma PGROUNDUP_alt: "PGROUNDUP sz = PGROUNDDOWN (sz + (of_nat PGSIZE - 1))"
  by (simp add: PGROUNDUP_def PGROUNDDOWN_def add_diff_eq)

lemma unat_PGROUNDUP:
  assumes "unat sz + PGSIZE - 1 < 2 ^ 64"
  shows "unat (PGROUNDUP sz) = PGSIZE * ((unat sz + PGSIZE - 1) div PGSIZE)"
proof -
  have "unat (sz + (of_nat PGSIZE - 1)) = unat sz + (PGSIZE - 1)"
    using assms by (simp add: PGSIZE_def unat_word_ariths)
  then show ?thesis by (simp add: PGROUNDUP_alt unat_PGROUNDDOWN PGSIZE_def)
qed

lemma PGROUNDUP_bounds:
  assumes "unat sz + PGSIZE - 1 < 2 ^ 64"
  shows "unat sz \<le> unat (PGROUNDUP sz)" "unat (PGROUNDUP sz) < unat sz + PGSIZE"
    "PGSIZE dvd unat (PGROUNDUP sz)"
  using unat_PGROUNDUP[OF assms] by (auto simp: PGSIZE_def)

section \<open>Page table entries\<close>

lemma PTE_vals: "PTE_V = 1" "PTE_R = 2" "PTE_W = 4" "PTE_X = 8" "PTE_U = 16"
  by (simp_all add: PTE_V_def PTE_R_def PTE_W_def PTE_X_def PTE_U_def)

lemma mask10: "(0x3FF :: uint64) = mask 10"
  by (simp add: mask_eq_exp_minus_1)

lemma mask9: "PXMASK = mask 9"
  by (simp add: PXMASK_def mask_eq_exp_minus_1)

lemma PTE_FLAGS_bit:
  assumes "PTE_FLAGS f = f" "10 \<le> k"
  shows "\<not> bit f k"
proof -
  have "bit (f AND mask 10) k = bit f k" using assms(1) by (simp only: PTE_FLAGS_def mask10)
  then show ?thesis using assms(2) by (auto simp: bit_and_iff bit_mask_iff)
qed

lemma PTE_FLAGS_pack:
  assumes "PTE_FLAGS f = f"
  shows "PTE_FLAGS (PA2PTE pa OR f) = f"
proof (rule bit_word_eqI)
  fix n
  show "bit (PTE_FLAGS (PA2PTE pa OR f)) n = bit f n"
    unfolding PTE_FLAGS_def PA2PTE_def mask10 using PTE_FLAGS_bit[OF assms, of n]
    by (cases "10 \<le> n") (auto simp: bit_simps)
qed

lemma PTE2PA_pack:
  assumes "PTE_FLAGS f = f" "pa AND mask 12 = 0" "pa AND NOT (mask 56) = 0"
  shows "PTE2PA (PA2PTE pa OR f) = pa"
proof (rule bit_word_eqI)
  fix n
  assume n: "n < LENGTH(64)"
  have f: "\<not> bit f k" if "10 \<le> k" for k
    using PTE_FLAGS_bit[OF assms(1) that] .
  have lo: "\<not> bit pa k" if "k < 12" for k
  proof -
    have "bit (pa AND mask 12) k = False" using assms(2) by simp
    then show ?thesis using that by (auto simp: bit_simps)
  qed
  have hi: "\<not> bit pa k" if "56 \<le> k" "k < 64" for k
  proof -
    have "bit (pa AND NOT (mask 56)) k = False" using assms(3) by simp
    then show ?thesis using that by (auto simp: bit_simps)
  qed
  show "bit (PTE2PA (PA2PTE pa OR f)) n = bit pa n"
    unfolding PTE2PA_def PA2PTE_def using n f[of "n - 2"] lo[of n] hi[of n]
    by (cases "n < 12"; cases "56 \<le> n") (auto simp: bit_simps)
qed

lemma aligned_iff: "w AND mask 12 = 0 \<longleftrightarrow> unat (w :: uint64) mod PGSIZE = 0"
proof -
  have "w AND mask 12 = take_bit 12 w" by (simp add: take_bit_eq_mask)
  moreover have "take_bit 12 w = 0 \<longleftrightarrow> unat (take_bit 12 w) = 0" by (simp add: unat_eq_0)
  moreover have "unat (take_bit 12 w) = unat w mod PGSIZE"
    by (simp only: unsigned_take_bit_eq take_bit_nat_def) (simp add: PGSIZE_def)
  ultimately show ?thesis by simp
qed

lemma small_pa: "unat w < 2 ^ 56 \<Longrightarrow> w AND NOT (mask 56) = (0 :: uint64)"
proof (rule bit_word_eqI)
  fix n
  assume w: "unat w < 2 ^ 56" and n: "n < LENGTH(64)"
  have "\<not> bit w n" if "56 \<le> n"
  proof
    assume "bit w n"
    then have "bit (unat w) n" using n by (simp add: bit_unsigned_iff)
    then have "2 ^ n \<le> unat w" by (metis bit_nat_iff not_le zero_neq_one div_less even_zero bit_iff_odd)
    moreover have "(2::nat) ^ 56 \<le> 2 ^ n" using that by (rule power_increasing) simp
    ultimately show False using w by simp
  qed
  then show "bit (w AND NOT (mask 56)) n = bit (0 :: uint64) n"
    using n by (cases "56 \<le> n") (auto simp: bit_simps)
qed

section \<open>Indices of a virtual address\<close>

lemma unat_PX: "unat (PX level va) = (unat va div 2 ^ PXSHIFT level) mod 512"
proof -
  have "PX level va = take_bit 9 (drop_bit (PXSHIFT level) va)"
    by (simp add: PX_def mask9 take_bit_eq_mask)
  then have "unat (PX level va) = take_bit 9 (unat (drop_bit (PXSHIFT level) va))"
    by (simp only: unsigned_take_bit_eq)
  then show ?thesis by (simp only: unat_drop_bit take_bit_nat_def) simp
qed

lemma PX_less: "unat (PX level va) < 512"
  by (simp add: unat_PX)

lemma MAXVA_val: "unat MAXVA = 2 ^ 38"
  by (simp add: MAXVA_def)

lemma digits3:
  assumes "(n :: nat) < 512 * 512 * 512"
  shows "n = n mod 512 + 512 * ((n div 512) mod 512) + 512 * 512 * ((n div (512 * 512)) mod 512)"
proof -
  have "n div (512 * 512) mod 512 = n div 512 div 512"
    using assms by (simp add: div_mult2_eq[symmetric])
  moreover have "n = n mod 512 + 512 * (n div 512)" by simp
  moreover have "n div 512 = (n div 512) mod 512 + 512 * (n div 512 div 512)"
    by (simp only: mod_mult_div_eq)
  ultimately show ?thesis by linarith
qed

text \<open>Below \<^verbatim>\<open>MAXVA\<close> the three indices determine the page.\<close>

lemma PX_inj:
  assumes "va < MAXVA" "vb < MAXVA"
    and "PX 0 va = PX 0 vb" "PX 1 va = PX 1 vb" "PX 2 va = PX 2 vb"
  shows "unat va div PGSIZE = unat vb div PGSIZE"
proof -
  let ?p = "\<lambda>v. unat (v :: uint64) div 4096"
  have bound: "?p v < 512 * 512 * 512" if "v < MAXVA" for v
  proof -
    have "unat v < 2 ^ 38" using that MAXVA_val by (simp add: word_less_nat_alt)
    then show ?thesis by simp
  qed
  have px: "unat (PX 0 v) = ?p v mod 512" "unat (PX 1 v) = (?p v div 512) mod 512"
    "unat (PX 2 v) = (?p v div (512 * 512)) mod 512" for v
    by (simp_all add: unat_PX PXSHIFT_def div_mult2_eq[symmetric])
  have "?p va = ?p vb"
    using digits3[OF bound[OF assms(1)]] digits3[OF bound[OF assms(2)]]
    unfolding px[symmetric] assms(3-5) by simp
  then show ?thesis by (simp add: PGSIZE_def)
qed

end
