(* ===== verification/Xv6_Kalloc.thy ===== *)
theory Xv6_Kalloc
  imports Xv6_Cstring Xv6_Riscv
begin

text \<open>
  The physical page allocator, \<^verbatim>\<open>kernel/kalloc.c\<close>. A \<^verbatim>\<open>struct run\<close> is named by its index in
  \<^verbatim>\<open>kmem.runs\<close>, so \<^verbatim>\<open>next\<close> and \<^verbatim>\<open>freelist\<close> are optional indices; \<^verbatim>\<open>end\<close>, which the linker
  places, is the field \<^term>\<open>kend\<close>. Every routine is one critical section of \<^verbatim>\<open>kmem.lock\<close>. The
  linked free list is related to a HOL list of pages, the allocator is shown to implement the
  interface \<^verbatim>\<open>page_allocator\<close>, and the histories of its clients keep owned and free pages apart.
\<close>

section \<open>State\<close>

record phys =
  pmem :: memory                     \<comment> \<open>physical memory, by address\<close>
  kend :: nat                        \<comment> \<open>\<^verbatim>\<open>end\<close>\<close>
  freelist :: "nat option"           \<comment> \<open>\<^verbatim>\<open>kmem.freelist\<close>\<close>
  rnext :: "nat \<Rightarrow> nat option"       \<comment> \<open>\<^verbatim>\<open>kmem.runs[i].next\<close>\<close>
  rref :: "nat \<Rightarrow> uint32"            \<comment> \<open>\<^verbatim>\<open>kmem.runs[i].ref\<close>\<close>

definition MAXPAGES :: nat where "MAXPAGES = PHYSTOP div PGSIZE"

section \<open>Operations\<close>

definition bad_page :: "'a phys_scheme \<Rightarrow> nat \<Rightarrow> bool" where
  "bad_page s pa \<longleftrightarrow> pa mod PGSIZE \<noteq> 0 \<or> pa < kend s \<or> PHYSTOP \<le> pa"

definition push_run :: "nat \<Rightarrow> 'a phys_scheme \<Rightarrow> 'a phys_scheme" where
  "push_run r s = s\<lparr>rnext := (rnext s)(r := freelist s), freelist := Some r\<rparr>"

definition kfree0 :: "'a phys_scheme \<Rightarrow> nat \<Rightarrow> 'a phys_scheme res" where
  "kfree0 s pa =
     (if bad_page s pa then Inl (Panic ''_kfree'')
      else Inr (push_run (pa div PGSIZE) (s\<lparr>pmem := memset (pmem s) pa 1 PGSIZE\<rparr>)))"

definition kfree :: "'a phys_scheme \<Rightarrow> nat \<Rightarrow> 'a phys_scheme res" where
  "kfree s pa =
     (if bad_page s pa then Inl (Panic ''kfree'')
      else let s = s\<lparr>pmem := memset (pmem s) pa 1 PGSIZE\<rparr>; r = pa div PGSIZE
           in if rref s r \<noteq> 1 then Inl (Exits (-1)) else Inr (push_run r s))"

function freerange_loop :: "('a phys_scheme \<Rightarrow> nat \<Rightarrow> 'a phys_scheme res) \<Rightarrow> nat \<Rightarrow> nat \<Rightarrow> 'a phys_scheme \<Rightarrow> 'a phys_scheme res" where
  "freerange_loop kf p pa_end s =
     (if p + PGSIZE \<le> pa_end
      then bindR (kf s p) (freerange_loop kf (p + PGSIZE) pa_end)
      else Inr s)"
  by pat_completeness auto
termination by (relation "measure (\<lambda>(kf, p, e, s). e - p)") (auto simp: PGSIZE_def)

declare freerange_loop.simps [simp del]

definition freerange0 :: "nat \<Rightarrow> nat \<Rightarrow> 'a phys_scheme \<Rightarrow> 'a phys_scheme res" where
  "freerange0 pa_start pa_end s =
     freerange_loop kfree0 (unat (PGROUNDUP (of_nat pa_start))) pa_end s"

definition freerange :: "nat \<Rightarrow> nat \<Rightarrow> 'a phys_scheme \<Rightarrow> 'a phys_scheme res" where
  "freerange pa_start pa_end s =
     freerange_loop kfree (unat (PGROUNDUP (of_nat pa_start))) pa_end s"

definition kinit :: "'a phys_scheme \<Rightarrow> 'a phys_scheme res" where
  "kinit s = freerange0 (kend s) PHYSTOP s"

definition kalloc :: "'a phys_scheme \<Rightarrow> nat \<times> 'a phys_scheme" where
  "kalloc s =
     (case freelist s of
        None \<Rightarrow> (0, s)
      | Some r \<Rightarrow>
          let s = s\<lparr>rref := (rref s)(r := 1), freelist := rnext s r\<rparr>
          in (r * PGSIZE, s\<lparr>pmem := memset (pmem s) (r * PGSIZE) 5 PGSIZE\<rparr>))"

definition incref :: "'a phys_scheme \<Rightarrow> nat \<Rightarrow> 'a phys_scheme res" where
  "incref s pa =
     (if bad_page s pa then Inl (Panic ''incref'')
      else Inr (s\<lparr>rref := (rref s)(pa div PGSIZE := rref s (pa div PGSIZE) + 1)\<rparr>))"

definition decref :: "'a phys_scheme \<Rightarrow> nat \<Rightarrow> 'a phys_scheme res" where
  "decref s pa =
     (if bad_page s pa then Inl (Panic ''decref'')
      else Inr (s\<lparr>rref := (rref s)(pa div PGSIZE := rref s (pa div PGSIZE) - 1)\<rparr>))"

definition getref :: "'a phys_scheme \<Rightarrow> nat \<Rightarrow> uint32" where
  "getref s pa = rref s (pa div PGSIZE)"

section \<open>The interface\<close>

fun alloc_n :: "('s \<Rightarrow> nat \<times> 's) \<Rightarrow> nat \<Rightarrow> 's \<Rightarrow> nat list \<times> 's" where
  "alloc_n alloc 0 s = ([], s)"
| "alloc_n alloc (Suc n) s =
     (let (p, s1) = alloc s; (ps, s2) = alloc_n alloc n s1 in (p # ps, s2))"

text \<open>What the rest of the kernel relies on: the free pages form a list without repetition,
  allocation takes the first page or answers 0, and a page that is given back is free again.\<close>

locale page_allocator =
  fixes frees :: "'s \<Rightarrow> nat list \<Rightarrow> bool"
    and alloc :: "'s \<Rightarrow> nat \<times> 's"
    and giveback :: "'s \<Rightarrow> nat \<Rightarrow> 's res"
  assumes frees_ok: "frees s ps \<Longrightarrow> distinct ps \<and> 0 \<notin> set ps"
    and alloc_none: "frees s [] \<Longrightarrow> alloc s = (0, s)"
    and alloc_some: "frees s (p # ps) \<Longrightarrow> fst (alloc s) = p \<and> frees (snd (alloc s)) ps"
    and giveback_law: "frees s ps \<Longrightarrow> p \<notin> set ps \<Longrightarrow> giveback s p = Inr s' \<Longrightarrow> frees s' (p # ps)"
begin

lemma alloc_zero_iff: "frees s ps \<Longrightarrow> fst (alloc s) = 0 \<longleftrightarrow> ps = []"
  using alloc_none[of s] alloc_some[of s] frees_ok[of s ps] by (cases ps) auto

lemma alloc_fresh:
  assumes "frees s ps" "alloc s = (p, s')" "p \<noteq> 0"
  shows "p \<in> set ps \<and> frees s' (remove1 p ps) \<and> set (remove1 p ps) = set ps - {p}"
proof (cases ps)
  case Nil
  then show ?thesis using assms alloc_none[of s] by auto
next
  case (Cons q qs)
  then have "p = q" "frees s' qs" using assms alloc_some[of s q qs] by auto
  then show ?thesis using Cons assms(1) frees_ok[of s ps] by auto
qed

lemma alloc_n_spec:
  "frees s ps \<Longrightarrow> n \<le> length ps \<Longrightarrow>
   fst (alloc_n alloc n s) = take n ps \<and> frees (snd (alloc_n alloc n s)) (drop n ps)"
proof (induction n arbitrary: s ps)
  case 0
  then show ?case by simp
next
  case (Suc n)
  then obtain q qs where ps: "ps = q # qs" by (cases ps) auto
  obtain p s1 where a: "alloc s = (p, s1)" by fastforce
  have "p = q" "frees s1 qs" using alloc_some[of s q qs] Suc.prems ps a by auto
  then show ?case using Suc.IH[of s1 qs] Suc.prems(2) ps a by (auto simp: split_beta)
qed

lemma alloc_n_distinct: "frees s ps \<Longrightarrow> n \<le> length ps \<Longrightarrow> distinct (fst (alloc_n alloc n s))"
  using alloc_n_spec[of s ps n] frees_ok[of s ps] by simp

end

section \<open>The free list\<close>

primrec run_path :: "(nat \<Rightarrow> nat option) \<Rightarrow> nat option \<Rightarrow> nat list \<Rightarrow> bool" where
  "run_path nxt p [] = (p = None)"
| "run_path nxt p (r # rs) = (p = Some r \<and> run_path nxt (nxt r) rs)"

definition free_list :: "'a phys_scheme \<Rightarrow> nat list \<Rightarrow> bool" where
  "free_list s ps \<longleftrightarrow>
     run_path (rnext s) (freelist s) (map (\<lambda>p. p div PGSIZE) ps) \<and> distinct ps \<and>
     list_all (\<lambda>p. \<not> bad_page s p) ps \<and> KERNBASE \<le> kend s"

definition all_pages :: "'a phys_scheme \<Rightarrow> nat set" where
  "all_pages s = {p. \<not> bad_page s p}"

lemma run_path_upd: "r \<notin> set rs \<Longrightarrow> run_path (nxt(r := v)) p rs = run_path nxt p rs"
  by (induction rs arbitrary: p) auto

lemma run_path_unique: "run_path nxt p rs \<Longrightarrow> run_path nxt p rs' \<Longrightarrow> rs = rs'"
proof (induction rs arbitrary: p rs')
  case Nil
  then show ?case by (cases rs') auto
next
  case (Cons r rs)
  then show ?case by (cases rs') auto
qed

lemma page_div_inj:
  "\<not> bad_page s p \<Longrightarrow> \<not> bad_page s q \<Longrightarrow> p div PGSIZE = q div PGSIZE \<Longrightarrow> p = q"
  by (metis bad_page_def mult_div_mod_eq)

lemma page_mult: "\<not> bad_page s p \<Longrightarrow> p div PGSIZE * PGSIZE = p"
  by (auto simp: bad_page_def)

lemma bad_page_kend: "kend s = kend s' \<Longrightarrow> bad_page s p = bad_page s' p"
  by (simp add: bad_page_def)

lemma free_list_cong:
  "freelist s' = freelist s \<Longrightarrow> rnext s' = rnext s \<Longrightarrow> kend s' = kend s \<Longrightarrow>
   free_list s' ps = free_list s ps"
  by (simp add: free_list_def bad_page_def)

lemma push_run_free_list:
  assumes "free_list s ps" "p \<notin> set ps" "\<not> bad_page s p"
  shows "free_list (push_run (p div PGSIZE) s) (p # ps)"
proof -
  have "p div PGSIZE \<notin> set (map (\<lambda>p. p div PGSIZE) ps)"
    using assms page_div_inj[of s p] by (auto simp: free_list_def list_all_iff)
  then show ?thesis
    using assms by (simp add: free_list_def push_run_def run_path_upd bad_page_def)
qed

lemma kalloc_frees: "free_list s (p # ps) \<Longrightarrow> fst (kalloc s) = p \<and> free_list (snd (kalloc s)) ps"
  using page_mult[of s p] by (auto simp: kalloc_def free_list_def bad_page_def)

lemma free_list_ok: "free_list s ps \<Longrightarrow> distinct ps \<and> 0 \<notin> set ps"
  by (auto simp: free_list_def list_all_iff bad_page_def KERNBASE_def)

lemma kfree_kept: "kfree s p = Inr s' \<Longrightarrow> kend s' = kend s \<and> \<not> bad_page s p"
  by (auto simp: kfree_def push_run_def Let_def split: if_splits)

interpretation pages: page_allocator free_list kalloc kfree
proof
  fix s ps p s'
  show "free_list s ps \<Longrightarrow> distinct ps \<and> 0 \<notin> set ps" by (rule free_list_ok)
  show "free_list s [] \<Longrightarrow> kalloc s = (0, s)" by (simp add: free_list_def kalloc_def)
  show "free_list s (p # ps) \<Longrightarrow> fst (kalloc s) = p \<and> free_list (snd (kalloc s)) ps"
    by (rule kalloc_frees)
  assume "free_list s ps" "p \<notin> set ps" "kfree s p = Inr s'"
  then show "free_list s' (p # ps)"
    using push_run_free_list[of "s\<lparr>pmem := memset (pmem s) p 1 PGSIZE\<rparr>" ps p] free_list_cong[of "s\<lparr>pmem := memset (pmem s) p 1 PGSIZE\<rparr>" s]
    by (auto simp: kfree_def Let_def bad_page_def split: if_splits)
qed

section \<open>Initialisation\<close>

definition page_run :: "nat \<Rightarrow> nat \<Rightarrow> nat list" where
  "page_run p n = rev (map (\<lambda>i. p + i * PGSIZE) [0..<n])"

lemma page_run_Suc: "page_run (p + PGSIZE) n @ [p] = page_run p (Suc n)"
  by (simp add: page_run_def upt_conv_Cons map_Suc_upt[symmetric] comp_def algebra_simps del: upt_Suc)

lemma kfree0_ok:
  assumes "free_list s ps" "p \<notin> set ps" "\<not> bad_page s p"
  shows "\<exists>s'. kfree0 s p = Inr s' \<and> free_list s' (p # ps) \<and> kend s' = kend s"
  using push_run_free_list[of "s\<lparr>pmem := memset (pmem s) p 1 PGSIZE\<rparr>" ps p] assms
    free_list_cong[of "s\<lparr>pmem := memset (pmem s) p 1 PGSIZE\<rparr>" s]
  by (auto simp: kfree0_def push_run_def bad_page_def)

lemma freerange_loop_spec:
  "p mod PGSIZE = 0 \<Longrightarrow> kend s \<le> p \<Longrightarrow> p + n * PGSIZE \<le> PHYSTOP \<Longrightarrow> PHYSTOP < p + Suc n * PGSIZE \<Longrightarrow>
   free_list s ps \<Longrightarrow> \<forall>q\<in>set ps. q < p \<Longrightarrow>
   \<exists>s'. freerange_loop kfree0 p PHYSTOP s = Inr s' \<and> free_list s' (page_run p n @ ps) \<and> kend s' = kend s"
proof (induction n arbitrary: p s ps)
  case 0
  then show ?case by (subst freerange_loop.simps) (simp add: page_run_def)
next
  case (Suc n)
  have "\<not> bad_page s p" using Suc.prems by (auto simp: bad_page_def PGSIZE_def)
  then obtain s1 where s1: "kfree0 s p = Inr s1" "free_list s1 (p # ps)" "kend s1 = kend s"
    using kfree0_ok[OF Suc.prems(5)] Suc.prems(6) by auto
  have "\<exists>s'. freerange_loop kfree0 (p + PGSIZE) PHYSTOP s1 = Inr s' \<and>
      free_list s' (page_run (p + PGSIZE) n @ p # ps) \<and> kend s' = kend s1"
    using Suc.prems s1 by (intro Suc.IH) (auto simp: PGSIZE_def)
  moreover have "page_run (p + PGSIZE) n @ p # ps = page_run p (Suc n) @ ps"
    by (simp add: page_run_Suc[symmetric])
  moreover have "p + PGSIZE \<le> PHYSTOP" using Suc.prems(3) by simp
  ultimately show ?case
    using s1 by (subst freerange_loop.simps) auto
qed

lemma page_run_set:
  assumes "p mod PGSIZE = 0" "p + n * PGSIZE \<le> PHYSTOP" "PHYSTOP < p + Suc n * PGSIZE"
  shows "set (page_run p n) = {q. q mod PGSIZE = 0 \<and> p \<le> q \<and> q < PHYSTOP}"
proof (rule set_eqI)
  fix q
  show "q \<in> set (page_run p n) \<longleftrightarrow> q \<in> {q. q mod PGSIZE = 0 \<and> p \<le> q \<and> q < PHYSTOP}"
  proof
    assume "q \<in> set (page_run p n)"
    then obtain i where "i < n" "q = p + i * PGSIZE" by (auto simp: page_run_def)
    moreover have "Suc i * PGSIZE \<le> n * PGSIZE" using \<open>i < n\<close> by (intro mult_le_mono1) simp
    ultimately show "q \<in> {q. q mod PGSIZE = 0 \<and> p \<le> q \<and> q < PHYSTOP}"
      using assms by (auto simp: PGSIZE_def)
  next
    assume q: "q \<in> {q. q mod PGSIZE = 0 \<and> p \<le> q \<and> q < PHYSTOP}"
    then have "PGSIZE dvd q - p" using assms(1) by (auto intro: dvd_diff_nat)
    then obtain i where "q - p = PGSIZE * i" by (rule dvdE)
    then have i: "q = p + i * PGSIZE" using q by (auto simp: mult.commute)
    have "PHYSTOP mod PGSIZE = 0" by (simp add: PHYSTOP_def KERNBASE_def PGSIZE_def)
    then have "PGSIZE dvd PHYSTOP - q" using q by (auto intro: dvd_diff_nat)
    then have "q + PGSIZE \<le> PHYSTOP" using q by (auto dest: dvd_imp_le)
    then have "i < n" using i assms(3) by (auto simp: PGSIZE_def)
    then show "q \<in> set (page_run p n)" using i by (auto simp: page_run_def)
  qed
qed

definition boot_phys :: "'a phys_scheme \<Rightarrow> bool" where
  "boot_phys s \<longleftrightarrow> freelist s = None \<and> KERNBASE \<le> kend s \<and> kend s \<le> PHYSTOP"

lemma kinit_spec:
  assumes "boot_phys s"
  shows "\<exists>s' ps. kinit s = Inr s' \<and> free_list s' ps \<and> set ps = all_pages s \<and> kend s' = kend s"
proof -
  let ?p = "unat (PGROUNDUP (of_nat (kend s)))"
  have e: "unat (of_nat (kend s) :: uint64) = kend s"
    using assms by (auto simp: boot_phys_def PHYSTOP_def KERNBASE_def unat_of_nat)
  have b: "unat (of_nat (kend s) :: uint64) + PGSIZE - 1 < 2 ^ 64"
    using assms e by (auto simp: boot_phys_def PHYSTOP_def KERNBASE_def PGSIZE_def)
  have p: "kend s \<le> ?p" "?p < kend s + PGSIZE" "?p mod PGSIZE = 0"
    using PGROUNDUP_bounds[OF b] e by auto
  have le: "?p \<le> PHYSTOP"
    using p assms by (auto simp: boot_phys_def PHYSTOP_def KERNBASE_def PGSIZE_def)
  define n where "n = (PHYSTOP - ?p) div PGSIZE"
  have "n * PGSIZE + (PHYSTOP - ?p) mod PGSIZE = PHYSTOP - ?p" "(PHYSTOP - ?p) mod PGSIZE < PGSIZE"
    by (simp_all add: n_def PGSIZE_def)
  then have n: "?p + n * PGSIZE \<le> PHYSTOP" "PHYSTOP < ?p + Suc n * PGSIZE"
    using le by auto
  have "free_list s []" using assms by (simp add: boot_phys_def free_list_def)
  then obtain s' where s': "freerange_loop kfree0 ?p PHYSTOP s = Inr s'" "free_list s' (page_run ?p n)" "kend s' = kend s"
    using freerange_loop_spec[OF p(3,1) n, of "[]"] by auto
  have "?p \<le> q \<longleftrightarrow> kend s \<le> q" if "PGSIZE dvd q" for q
    using p(1,2) dvd_gap[OF p(3)[unfolded mod_eq_0_iff_dvd] that] by linarith
  then have "set (page_run ?p n) = all_pages s"
    unfolding page_run_set[OF p(3) n] all_pages_def bad_page_def mod_eq_0_iff_dvd
    by (intro Collect_cong) (meson not_le)
  then show ?thesis using s' by (auto simp: kinit_def freerange0_def)
qed

section \<open>Histories of clients\<close>

text \<open>\<^term>\<open>kmem_history own s\<close>: the allocator went from boot to \<^term>\<open>s\<close> through calls of clients that only
  free, count and write pages they own; \<^term>\<open>own\<close> is the set of pages handed out and not given back.\<close>

inductive kmem_history :: "nat set \<Rightarrow> 'a phys_scheme \<Rightarrow> bool" where
  hist_boot: "boot_phys s0 \<Longrightarrow> kinit s0 = Inr s \<Longrightarrow> kmem_history {} s"
| hist_alloc: "kmem_history own s \<Longrightarrow> kalloc s = (pa, s') \<Longrightarrow> pa \<noteq> 0 \<Longrightarrow> kmem_history (insert pa own) s'"
| hist_full: "kmem_history own s \<Longrightarrow> kalloc s = (0, s') \<Longrightarrow> kmem_history own s'"
| hist_free: "kmem_history own s \<Longrightarrow> pa \<in> own \<Longrightarrow> kfree s pa = Inr s' \<Longrightarrow> kmem_history (own - {pa}) s'"
| hist_incref: "kmem_history own s \<Longrightarrow> pa \<in> own \<Longrightarrow> incref s pa = Inr s' \<Longrightarrow> kmem_history own s'"
| hist_decref: "kmem_history own s \<Longrightarrow> pa \<in> own \<Longrightarrow> decref s pa = Inr s' \<Longrightarrow> kmem_history own s'"
| hist_write: "kmem_history own s \<Longrightarrow> kmem_history own (s\<lparr>pmem := m\<rparr>)"

definition kmem_split :: "nat set \<Rightarrow> 'a phys_scheme \<Rightarrow> nat list \<Rightarrow> bool" where
  "kmem_split own s ps \<longleftrightarrow> free_list s ps \<and> own \<inter> set ps = {} \<and> own \<union> set ps = all_pages s"

lemma all_pages_kend: "kend s' = kend s \<Longrightarrow> all_pages s' = all_pages s"
  by (simp add: all_pages_def bad_page_def)

lemma kmem_split_cong:
  "freelist s' = freelist s \<Longrightarrow> rnext s' = rnext s \<Longrightarrow> kend s' = kend s \<Longrightarrow>
   kmem_split own s' ps = kmem_split own s ps"
  by (simp add: kmem_split_def free_list_cong[of s' s] all_pages_kend[of s' s])

lemma kalloc_kend: "kend (snd (kalloc s)) = kend s"
  by (simp add: kalloc_def Let_def split: option.split)

lemma kmem_split_alloc:
  assumes "kmem_split own s ps" "kalloc s = (pa, s')" "pa \<noteq> 0"
  shows "pa \<notin> own \<and> kmem_split (insert pa own) s' (remove1 pa ps)"
proof -
  have "kend s' = kend s" using kalloc_kend[of s] assms(2) by simp
  then show ?thesis
    using assms pages.alloc_fresh[OF _ assms(2,3)] all_pages_kend[of s' s]
    by (auto simp: kmem_split_def)
qed

lemma kmem_split_free:
  assumes "kmem_split own s ps" "pa \<in> own" "kfree s pa = Inr s'"
  shows "kmem_split (own - {pa}) s' (pa # ps)"
  using assms pages.giveback_law[OF _ _ assms(3), of ps] kfree_kept[OF assms(3)]
    all_pages_kend[of s' s] by (auto simp: kmem_split_def)

lemma kmem_history_split: "kmem_history own s \<Longrightarrow> \<exists>ps. kmem_split own s ps"
proof (induction rule: kmem_history.induct)
  case (hist_boot s0 s)
  then show ?case using kinit_spec[of s0] all_pages_kend[of s s0] by (auto simp: kmem_split_def)
next
  case (hist_alloc own s pa s')
  then show ?case using kmem_split_alloc by blast
next
  case (hist_full own s s')
  then obtain ps where ps: "kmem_split own s ps" by auto
  then have "s' = s" using pages.alloc_zero_iff[of s ps] pages.alloc_none[of s] hist_full(2)
    by (auto simp: kmem_split_def)
  then show ?case using ps by auto
next
  case (hist_free own s pa s')
  then show ?case using kmem_split_free by blast
next
  case (hist_incref own s pa s')
  then show ?case using kmem_split_cong[of s' s] by (auto simp: incref_def split: if_splits)
next
  case (hist_decref own s pa s')
  then show ?case using kmem_split_cong[of s' s] by (auto simp: decref_def split: if_splits)
next
  case (hist_write own s m)
  then show ?case using kmem_split_cong[of "s\<lparr>pmem := m\<rparr>" s] by auto
qed

section \<open>Properties\<close>

definition phys0 :: phys where
  "phys0 = \<lparr>pmem = (\<lambda>_. 0), kend = KERNBASE, freelist = None, rnext = (\<lambda>_. None), rref = (\<lambda>_. 0)\<rparr>"

lemma boot_phys0: "boot_phys phys0"
  by (simp add: boot_phys_def phys0_def PHYSTOP_def)

lemma kmem_history0: "\<exists>s :: phys. kmem_history {} s"
  using kinit_spec[OF boot_phys0] hist_boot[OF boot_phys0] by blast

text \<open>C2. The page allocator never hands out a page twice: whatever sequence of kalloc, kfree, incref and
  decref calls clients make on pages they own, the owned pages and the pages of the linked free list
  are disjoint and together are exactly the pages between the end of the kernel and PHYSTOP; hence
  kalloc returns a page nobody owns, filled with junk and with reference count 1, and it returns 0
  only when every page is owned.\<close>

theorem kalloc_never_double_allocates:
  assumes "kmem_history own s" "kalloc s = (pa, s')"
  shows "(\<exists>ps. free_list s ps \<and> own \<inter> set ps = {} \<and> own \<union> set ps = all_pages s) \<and>
    (pa = 0 \<longleftrightarrow> own = all_pages s) \<and>
    (pa \<noteq> 0 \<longrightarrow> pa \<notin> own \<and> pa \<in> all_pages s \<and> getref s' pa = 1 \<and>
       (\<forall>i < PGSIZE. pmem s' (pa + i) = 5) \<and> (\<forall>a. a < pa \<or> pa + PGSIZE \<le> a \<longrightarrow> pmem s' a = pmem s a))"
proof -
  obtain ps where ps: "kmem_split own s ps" using kmem_history_split[OF assms(1)] by auto
  have z: "pa = 0 \<longleftrightarrow> ps = []"
    using pages.alloc_zero_iff[of s ps] ps assms(2) by (simp add: kmem_split_def)
  have m: "getref s' pa = 1 \<and> (\<forall>i < PGSIZE. pmem s' (pa + i) = 5) \<and>
      (\<forall>a. a < pa \<or> pa + PGSIZE \<le> a \<longrightarrow> pmem s' a = pmem s a)" if "pa \<noteq> 0"
    using assms(2) that
    by (auto simp: kalloc_def getref_def Let_def memset_wrbytes wrbytes_def PGSIZE_def split: option.splits)
  show ?thesis
    using ps z m kmem_split_alloc[OF ps assms(2)] pages.alloc_fresh[of s ps, OF _ assms(2)]
    by (auto simp: kmem_split_def)
qed

theorem kalloc_never_double_allocates_witness:
  "\<exists>(s :: phys) pa s'. kmem_history {} s \<and> kalloc s = (pa, s') \<and> (pa = 0 \<longleftrightarrow> {} = all_pages s)"
proof -
  obtain s :: phys where "kmem_history {} s" using kmem_history0 by blast
  moreover obtain pa s' where "kalloc s = (pa, s')" by fastforce
  ultimately show ?thesis using kalloc_never_double_allocates by blast
qed

text \<open>C17. Booting: kinit frees without panic exactly the whole pages between the end of the kernel and
  PHYSTOP, and n further allocations return n distinct pages of that range whenever it has as many.\<close>

theorem kinit_frees_all_memory:
  assumes "boot_phys s"
  shows "\<exists>s' ps. kinit s = Inr s' \<and> free_list s' ps \<and>
    set ps = {p. PGSIZE dvd p \<and> kend s \<le> p \<and> p < PHYSTOP} \<and>
    (\<forall>n \<le> length ps. fst (alloc_n kalloc n s') = take n ps \<and> distinct (fst (alloc_n kalloc n s')))"
proof -
  obtain s' ps where s': "kinit s = Inr s'" "free_list s' ps" "set ps = all_pages s"
    using kinit_spec[OF assms] by blast
  moreover have "all_pages s = {p. PGSIZE dvd p \<and> kend s \<le> p \<and> p < PHYSTOP}"
    by (auto simp: all_pages_def bad_page_def)
  ultimately show ?thesis
    using pages.alloc_n_spec[OF s'(2)] pages.alloc_n_distinct[OF s'(2)] by auto
qed

theorem kinit_frees_all_memory_witness: "\<exists>s'. kinit phys0 = Inr s'"
  using kinit_frees_all_memory[OF boot_phys0] by blast

text \<open>C18. kfree does not notice a page that is freed twice: the reference count it checks is left at 1, so
  the second call succeeds, the page becomes its own successor in the free list, and the next two
  calls of kalloc both return it.\<close>

theorem kfree_twice_undetected:
  assumes "kfree s pa = Inr s1"
  shows "\<exists>s2 s3 s4. kfree s1 pa = Inr s2 \<and> kalloc s2 = (pa, s3) \<and> kalloc s3 = (pa, s4) \<and>
    rnext s2 (pa div PGSIZE) = Some (pa div PGSIZE)"
proof -
  have "\<not> bad_page s pa" "rref s (pa div PGSIZE) = 1"
    using assms by (auto simp: kfree_def Let_def split: if_splits)
  then show ?thesis
    using assms page_mult[of s pa]
    by (auto simp: kfree_def kalloc_def push_run_def Let_def bad_page_def)
qed

theorem kfree_twice_undetected_witness:
  "\<exists>s1 s2 s3 s4. kfree (phys0\<lparr>rref := (\<lambda>_. 1)\<rparr>) KERNBASE = Inr s1 \<and> kfree s1 KERNBASE = Inr s2 \<and>
     kalloc s2 = (KERNBASE, s3) \<and> kalloc s3 = (KERNBASE, s4)"
proof -
  have "\<exists>s1. kfree (phys0\<lparr>rref := (\<lambda>_. 1)\<rparr>) KERNBASE = Inr s1"
    by (simp add: kfree_def bad_page_def phys0_def KERNBASE_def PHYSTOP_def PGSIZE_def)
  then show ?thesis using kfree_twice_undetected by blast
qed

end
