(* ===== verification/Xv6_Bio.thy ===== *)
theory Xv6_Bio
  imports Xv6_Kalloc Xv6_Locks
begin

text \<open>
  The buffer cache, \<^verbatim>\<open>kernel/bio.c\<close>, over a disk of blocks. The list of buffers is kept through
  explicit \<^verbatim>\<open>prev\<close> and \<^verbatim>\<open>next\<close> fields, updated in the order of the source; index \<^term>\<open>NBUF\<close> is
  \<^verbatim>\<open>bcache.head\<close>. A routine is run by the process \<^verbatim>\<open>me\<close>; the wakeups it makes are appended to the
  field \<^verbatim>\<open>woken\<close>. The lemmas relate the links to a list in most-recently-used order, and give the
  view clients rely on: the current contents of every block of the disk.
\<close>

section \<open>State\<close>

type_synonym block = memory      \<comment> \<open>\<^verbatim>\<open>uchar data[BSIZE]\<close>\<close>

record buf =
  valid :: bool
  disk :: bool
  bdev :: nat
  blockno :: nat
  block_lock :: sleeplock
  refcnt :: int
  bprev :: nat
  bnext :: nat
  bdata :: block

record bcache = phys +
  bufs :: "nat \<Rightarrow> buf"
  dsk :: "nat \<Rightarrow> block"           \<comment> \<open>the disk, by block number\<close>
  wtrace :: "(nat \<times> block) list"   \<comment> \<open>the writes the disk has performed, latest first\<close>
  woken :: "chan list"            \<comment> \<open>channels passed to \<^verbatim>\<open>wakeup\<close>, latest first\<close>

definition MAXOPBLOCKS :: nat where "MAXOPBLOCKS = 10"
definition NBUF :: nat where "NBUF = MAXOPBLOCKS * 3"
definition BSIZE :: nat where "BSIZE = 1024"

definition upd_buf :: "nat \<Rightarrow> (buf \<Rightarrow> buf) \<Rightarrow> 'a bcache_scheme \<Rightarrow> 'a bcache_scheme" where
  "upd_buf b f s = s\<lparr>bufs := (bufs s)(b := f (bufs s b))\<rparr>"

abbreviation "set_next b v \<equiv> upd_buf b (bnext_update (\<lambda>_. v))"
abbreviation "set_prev b v \<equiv> upd_buf b (bprev_update (\<lambda>_. v))"
abbreviation "next_of s b \<equiv> bnext (bufs s b)"
abbreviation "prev_of s b \<equiv> bprev (bufs s b)"

section \<open>Operations\<close>

text \<open>\<^verbatim>\<open>b->next = head.next; b->prev = &head; head.next->prev = b; head.next = b\<close>.\<close>

definition link_front :: "nat \<Rightarrow> 'a bcache_scheme \<Rightarrow> 'a bcache_scheme" where
  "link_front b s =
     (let s = set_next b (next_of s NBUF) s;
          s = set_prev b NBUF s;
          s = set_prev (next_of s NBUF) b s
      in set_next NBUF b s)"

definition unlink :: "nat \<Rightarrow> 'a bcache_scheme \<Rightarrow> 'a bcache_scheme" where
  "unlink b s =
     (let s = set_prev (next_of s b) (prev_of s b) s
      in set_next (prev_of s b) (next_of s b) s)"

definition binit_step :: "nat \<Rightarrow> 'a bcache_scheme \<Rightarrow> 'a bcache_scheme" where
  "binit_step b s =
     (let s = set_next b (next_of s NBUF) s;
          s = set_prev b NBUF s;
          s = upd_buf b (block_lock_update (\<lambda>_. initsleeplock)) s;
          s = set_prev (next_of s NBUF) b s
      in set_next NBUF b s)"

definition binit :: "'a bcache_scheme \<Rightarrow> 'a bcache_scheme" where
  "binit s =
     (let s = set_prev NBUF NBUF s;
          s = set_next NBUF NBUF s
      in fold binit_step [0..<NBUF] s)"

text \<open>The two loops of \<^verbatim>\<open>bget\<close>: follow \<^verbatim>\<open>next\<close> (or \<^verbatim>\<open>prev\<close>) from \<^term>\<open>b\<close> to the head, or to the
  first buffer that satisfies the test.\<close>

fun scan :: "(nat \<Rightarrow> nat) \<Rightarrow> (nat \<Rightarrow> bool) \<Rightarrow> nat \<Rightarrow> nat \<Rightarrow> nat option res" where
  "scan nxt P fuel b =
     (if b = NBUF then Inr None
      else if P b then Inr (Some b)
      else case fuel of 0 \<Rightarrow> Inl Diverges | Suc n \<Rightarrow> scan nxt P n (nxt b))"

declare scan.simps [simp del]

definition lock_buf :: "int \<Rightarrow> nat \<Rightarrow> 'a bcache_scheme \<Rightarrow> (nat \<times> 'a bcache_scheme) res" where
  "lock_buf me b s =
     bindR (acquiresleep (ChBuf b) me (block_lock (bufs s b))) (\<lambda>lk.
       Inr (b, upd_buf b (block_lock_update (\<lambda>_. lk)) s))"

definition bget :: "int \<Rightarrow> nat \<Rightarrow> nat \<Rightarrow> 'a bcache_scheme \<Rightarrow> (nat \<times> 'a bcache_scheme) res" where
  "bget me dev bno s =
     bindR (scan (next_of s) (\<lambda>b. bdev (bufs s b) = dev \<and> blockno (bufs s b) = bno) NBUF (next_of s NBUF)) (\<lambda>f.
       case f of
         Some b \<Rightarrow> lock_buf me b (upd_buf b (\<lambda>x. x\<lparr>refcnt := refcnt x + 1\<rparr>) s)
       | None \<Rightarrow>
           bindR (scan (prev_of s) (\<lambda>b. refcnt (bufs s b) = 0) NBUF (prev_of s NBUF)) (\<lambda>g.
             case g of
               Some b \<Rightarrow> lock_buf me b (upd_buf b (\<lambda>x. x\<lparr>bdev := dev, blockno := bno, valid := False, refcnt := 1\<rparr>) s)
             | None \<Rightarrow> Inl (Panic ''bget: no buffers'')))"

definition virtio_disk_rw :: "nat \<Rightarrow> bool \<Rightarrow> 'a bcache_scheme \<Rightarrow> 'a bcache_scheme" where
  "virtio_disk_rw b write s =
     (if write then s\<lparr>dsk := (dsk s)(blockno (bufs s b) := bdata (bufs s b)),
                      wtrace := (blockno (bufs s b), bdata (bufs s b)) # wtrace s\<rparr>
      else upd_buf b (\<lambda>x. x\<lparr>bdata := dsk s (blockno x)\<rparr>) s)"

definition bread :: "int \<Rightarrow> nat \<Rightarrow> nat \<Rightarrow> 'a bcache_scheme \<Rightarrow> (nat \<times> 'a bcache_scheme) res" where
  "bread me dev bno s =
     bindR (bget me dev bno s) (\<lambda>(b, s).
       Inr (b, if \<not> valid (bufs s b)
               then upd_buf b (valid_update (\<lambda>_. True)) (virtio_disk_rw b False s)
               else s))"

definition bwrite :: "int \<Rightarrow> nat \<Rightarrow> 'a bcache_scheme \<Rightarrow> 'a bcache_scheme res" where
  "bwrite me b s =
     (if \<not> holdingsleep me (block_lock (bufs s b)) then Inl (Panic ''bwrite'')
      else Inr (virtio_disk_rw b True s))"

definition brelse :: "int \<Rightarrow> nat \<Rightarrow> 'a bcache_scheme \<Rightarrow> 'a bcache_scheme res" where
  "brelse me b s =
     (if \<not> holdingsleep me (block_lock (bufs s b)) then Inl (Panic ''brelse'')
      else let (lk, w) = releasesleep (ChBuf b) (block_lock (bufs s b));
               s = upd_buf b (\<lambda>x. x\<lparr>block_lock := lk\<rparr>) (s\<lparr>woken := w @ woken s\<rparr>);
               s = upd_buf b (\<lambda>x. x\<lparr>refcnt := refcnt x - 1\<rparr>) s
           in Inr (if refcnt (bufs s b) = 0 then link_front b (unlink b s) else s))"

definition bpin :: "nat \<Rightarrow> 'a bcache_scheme \<Rightarrow> 'a bcache_scheme" where
  "bpin b s = upd_buf b (\<lambda>x. x\<lparr>refcnt := refcnt x + 1\<rparr>) s"

definition bunpin :: "nat \<Rightarrow> 'a bcache_scheme \<Rightarrow> 'a bcache_scheme" where
  "bunpin b s = upd_buf b (\<lambda>x. x\<lparr>refcnt := refcnt x - 1\<rparr>) s"

section \<open>The list of buffers\<close>

fun linked :: "(nat \<Rightarrow> nat) \<Rightarrow> (nat \<Rightarrow> nat) \<Rightarrow> nat list \<Rightarrow> bool" where
  "linked nx pv (a # b # r) \<longleftrightarrow> nx a = b \<and> pv b = a \<and> linked nx pv (b # r)"
| "linked nx pv _ \<longleftrightarrow> True"

definition lru :: "'a bcache_scheme \<Rightarrow> nat list \<Rightarrow> bool" where
  "lru s xs \<longleftrightarrow> linked (next_of s) (prev_of s) (NBUF # xs @ [NBUF]) \<and> distinct xs \<and> set xs = {..<NBUF}"

lemma upd_buf_simps [simp]:
  "bufs (upd_buf b f s) = (bufs s)(b := f (bufs s b))"
  "dsk (upd_buf b f s) = dsk s" "woken (upd_buf b f s) = woken s" "wtrace (upd_buf b f s) = wtrace s"
  "bcache.more (upd_buf b f s) = bcache.more s"
  "pmem (upd_buf b f s) = pmem s" "kend (upd_buf b f s) = kend s"
  "freelist (upd_buf b f s) = freelist s" "rnext (upd_buf b f s) = rnext s" "rref (upd_buf b f s) = rref s"
  by (simp_all add: upd_buf_def)

lemma linked_append:
  "linked nx pv (xs @ a # ys) \<longleftrightarrow> linked nx pv (xs @ [a]) \<and> linked nx pv (a # ys)"
proof (induction xs)
  case Nil
  then show ?case by (cases ys) auto
next
  case (Cons x xs)
  then show ?case by (cases xs) auto
qed

lemma linked_cong:
  "linked nx pv xs \<Longrightarrow> (\<And>a. a \<in> set (butlast xs) \<Longrightarrow> nx' a = nx a) \<Longrightarrow>
   (\<And>a. a \<in> set (tl xs) \<Longrightarrow> pv' a = pv a) \<Longrightarrow> linked nx' pv' xs"
proof (induction nx pv xs rule: linked.induct)
  case (1 nx pv a b r)
  have "linked nx' pv' (b # r)" using 1 by (intro "1.IH") (auto split: if_splits)
  then show ?case using 1 by auto
qed auto

lemma scan_linked:
  "linked nx pv (a # ys @ [NBUF]) \<Longrightarrow> NBUF \<notin> set ys \<Longrightarrow> length ys \<le> fuel \<Longrightarrow>
   scan nx P fuel (nx a) = Inr (find P ys)"
proof (induction ys arbitrary: a fuel)
  case Nil
  then show ?case by (subst scan.simps) auto
next
  case (Cons y ys)
  then obtain n where n: "fuel = Suc n" by (cases fuel) auto
  have "nx a = y" "linked nx pv (y # ys @ [NBUF])" using Cons.prems(1) by auto
  moreover have "scan nx P n (nx y) = Inr (find P ys)"
    using Cons.IH[OF \<open>linked nx pv (y # ys @ [NBUF])\<close>, of n] Cons.prems n by auto
  ultimately show ?case using Cons.prems n by (subst scan.simps) auto
qed

lemma linked_rev: "linked nx pv xs \<longleftrightarrow> linked pv nx (rev xs)"
proof (induction nx pv xs rule: linked.induct)
  case (1 nx pv a b r)
  then show ?case using linked_append[of pv nx "rev r" b "[a]"] by auto
qed auto

lemma scan_next:
  assumes "lru s xs"
  shows "scan (next_of s) P NBUF (next_of s NBUF) = Inr (find P xs)"
proof -
  have "length xs = NBUF" using assms distinct_card[of xs] by (simp add: lru_def)
  then show ?thesis using assms scan_linked[of "next_of s" "prev_of s" NBUF xs NBUF P] by (auto simp: lru_def)
qed

lemma scan_prev:
  assumes "lru s xs"
  shows "scan (prev_of s) P NBUF (prev_of s NBUF) = Inr (find P (rev xs))"
proof -
  have "length xs = NBUF" using assms distinct_card[of xs] by (simp add: lru_def)
  moreover have "linked (prev_of s) (next_of s) (NBUF # rev xs @ [NBUF])"
    using assms linked_rev[of "next_of s" "prev_of s" "NBUF # xs @ [NBUF]"] by (simp add: lru_def)
  ultimately show ?thesis using assms scan_linked[of "prev_of s" "next_of s" NBUF "rev xs" NBUF P]
    by (auto simp: lru_def)
qed

lemma linked_unlink:
  assumes "linked nx pv (as @ [p] @ b # n # cs)"
    and "p \<notin> set as" "p \<notin> set (butlast (n # cs))" "n \<notin> set (tl (as @ [p]))" "n \<notin> set cs"
  shows "linked (nx(p := n)) (pv(n := p)) (as @ [p] @ n # cs)"
proof -
  have l: "linked nx pv (as @ [p])" "linked nx pv (n # cs)"
    using assms(1) linked_append[of nx pv as p "b # n # cs"] by auto
  have "linked (nx(p := n)) (pv(n := p)) (as @ [p])"
    by (rule linked_cong[OF l(1)]) (use assms in auto)
  moreover have "linked (nx(p := n)) (pv(n := p)) (n # cs)"
    by (rule linked_cong[OF l(2)]) (use assms in auto)
  ultimately show ?thesis using linked_append[of _ _ as p "n # cs"] by simp
qed

lemma linked_front:
  assumes "linked nx pv (h # xs @ [h])" "b \<notin> set xs" "h \<notin> set xs" "b \<noteq> h" "distinct xs"
  shows "linked (nx(b := nx h, h := b)) (pv(b := h, nx h := b)) (h # b # xs @ [h])"
proof (cases xs)
  case Nil
  then show ?thesis using assms by auto
next
  case (Cons x ys)
  have "linked (nx(b := nx h, h := b)) (pv(b := h, nx h := b)) (x # ys @ [h])"
    by (rule linked_cong[of nx pv]) (use assms Cons in \<open>auto simp: butlast_append split: if_splits\<close>)
  then show ?thesis using assms Cons by auto
qed

lemma next_link_front: "b \<noteq> NBUF \<Longrightarrow> next_of (link_front b s) = (next_of s)(b := next_of s NBUF, NBUF := b)"
  and prev_link_front: "b \<noteq> NBUF \<Longrightarrow> prev_of (link_front b s) = (prev_of s)(b := NBUF, next_of s NBUF := b)"
  by (auto simp: link_front_def Let_def fun_eq_iff)

lemma next_unlink: "next_of (unlink b s) = (next_of s)(prev_of s b := next_of s b)"
  and prev_unlink: "prev_of (unlink b s) = (prev_of s)(next_of s b := prev_of s b)"
  by (auto simp: unlink_def Let_def fun_eq_iff)

lemma lru_unlink:
  assumes "lru s xs" "b < NBUF"
  shows "linked (next_of (unlink b s)) (prev_of (unlink b s)) (NBUF # remove1 b xs @ [NBUF])"
proof -
  have d: "distinct xs" "NBUF \<notin> set xs" "b \<in> set xs" using assms by (auto simp: lru_def)
  then obtain ys zs where xs: "xs = ys @ b # zs" by (auto simp: in_set_conv_decomp)
  obtain as p where as: "NBUF # ys = as @ [p]" by (metis append_butlast_last_id list.distinct(1))
  obtain n cs where cs: "zs @ [NBUF] = n # cs" by (cases "zs @ [NBUF]") auto
  have l: "linked (next_of s) (prev_of s) (as @ [p] @ b # n # cs)"
    using assms(1) as cs xs by (simp add: lru_def) (metis append_Cons append.assoc append_Nil)
  then have nb: "next_of s b = n" "prev_of s b = p"
    using linked_append[of "next_of s" "prev_of s" as p "b # n # cs"] by auto
  have ap: "butlast (NBUF # ys) = as" "last (NBUF # ys) = p" by (simp_all add: as)
  have cn: "hd (zs @ [NBUF]) = n" "tl (zs @ [NBUF]) = cs" by (simp_all add: cs)
  have "p \<notin> set as" using ap d xs by (cases ys rule: rev_cases) auto
  moreover have "p \<notin> set (butlast (n # cs))" using ap d xs cs[symmetric] by (cases ys rule: rev_cases) auto
  moreover have "n \<notin> set (tl (as @ [p]))" using as[symmetric] cn d xs by (cases zs) auto
  moreover have "n \<notin> set cs" using cn d xs by (cases zs) auto
  ultimately have "linked ((next_of s)(p := n)) ((prev_of s)(n := p)) (as @ [p] @ n # cs)"
    by (rule linked_unlink[OF l])
  moreover have "as @ [p] @ n # cs = NBUF # remove1 b xs @ [NBUF]"
    using as cs xs d(1) by (simp add: remove1_append)
  ultimately show ?thesis by (simp add: next_unlink prev_unlink nb)
qed

lemma lru_move_front:
  assumes "lru s xs" "b < NBUF"
  shows "lru (link_front b (unlink b s)) (b # remove1 b xs)"
proof -
  have d: "distinct xs" "set xs = {..<NBUF}" using assms by (auto simp: lru_def)
  then have "b \<notin> set (remove1 b xs)" "NBUF \<notin> set (remove1 b xs)" "distinct (remove1 b xs)" by auto
  from linked_front[OF lru_unlink[OF assms] this(1,2) _ this(3)] show ?thesis
    using assms(2) d by (auto simp: lru_def next_link_front prev_link_front)
qed

lemma lru_cong: "(\<And>b. next_of s' b = next_of s b) \<Longrightarrow> (\<And>b. prev_of s' b = prev_of s b) \<Longrightarrow> lru s' xs = lru s xs"
  by (simp add: lru_def)

lemma binit_lru: "lru (binit s) (rev [0..<NBUF])"
proof -
  have step: "linked (next_of (binit_step b s)) (prev_of (binit_step b s)) (NBUF # b # xs @ [NBUF])"
    if "linked (next_of s) (prev_of s) (NBUF # xs @ [NBUF])" "b \<notin> set xs" "NBUF \<notin> set xs" "b \<noteq> NBUF" "distinct xs"
    for b xs and s :: "'a bcache_scheme"
  proof -
    have "next_of (binit_step b s) = (next_of s)(b := next_of s NBUF, NBUF := b)"
      "prev_of (binit_step b s) = (prev_of s)(b := NBUF, next_of s NBUF := b)"
      using that(4) by (auto simp: binit_step_def Let_def fun_eq_iff)
    then show ?thesis using linked_front[OF that] by simp
  qed
  have "linked (next_of (fold binit_step [0..<n] t)) (prev_of (fold binit_step [0..<n] t)) (NBUF # rev [0..<n] @ [NBUF])"
    if "n \<le> NBUF" "next_of t NBUF = NBUF" "prev_of t NBUF = NBUF" for n and t :: "'a bcache_scheme"
    using that
  proof (induction n)
    case 0
    then show ?case by simp
  next
    case (Suc n)
    then show ?case using step[of "fold binit_step [0..<n] t" "rev [0..<n]" n] by simp
  qed
  then show ?thesis by (auto simp: lru_def binit_def Let_def)
qed

section \<open>Contents of the disk as clients see them\<close>

definition ROOTDEV :: nat where "ROOTDEV = 1"

definition caches :: "buf \<Rightarrow> nat \<Rightarrow> bool" where
  "caches x b \<longleftrightarrow> bdev x = ROOTDEV \<and> blockno x = b \<and> valid x"

text \<open>The current contents of block \<^term>\<open>b\<close>: the valid cached copy if there is one, else the disk.\<close>

definition blk :: "'a bcache_scheme \<Rightarrow> nat \<Rightarrow> block" where
  "blk s b = (case find (\<lambda>i. caches (bufs s i) b) [0..<NBUF] of
                Some i \<Rightarrow> bdata (bufs s i) | None \<Rightarrow> dsk s b)"

definition buf_ok :: "(nat \<Rightarrow> block) \<Rightarrow> buf \<Rightarrow> bool" where
  "buf_ok d x \<longleftrightarrow> 0 \<le> refcnt x \<and> (bdev x = ROOTDEV \<or> bdev x = 0 \<and> \<not> valid x \<and> refcnt x = 0) \<and>
     (locked (block_lock x) \<longrightarrow> 0 < refcnt x) \<and>
     (valid x \<and> refcnt x = 0 \<longrightarrow> bdata x = d (blockno x))"

definition bio_inv :: "'a bcache_scheme \<Rightarrow> bool" where
  "bio_inv s \<longleftrightarrow> (\<exists>xs. lru s xs) \<and> (\<forall>i<NBUF. buf_ok (dsk s) (bufs s i)) \<and>
     (\<forall>i<NBUF. \<forall>j<NBUF. bdev (bufs s i) = ROOTDEV \<longrightarrow> bdev (bufs s j) = ROOTDEV \<longrightarrow>
        blockno (bufs s i) = blockno (bufs s j) \<longrightarrow> i = j)"

lemma bio_uniq:
  "bio_inv s \<Longrightarrow> k < NBUF \<Longrightarrow> j < NBUF \<Longrightarrow> bdev (bufs s k) = ROOTDEV \<Longrightarrow> bdev (bufs s j) = ROOTDEV \<Longrightarrow>
   blockno (bufs s k) = blockno (bufs s j) \<Longrightarrow> k = j"
  unfolding bio_inv_def by blast

lemma blk_cached:
  assumes "bio_inv s" "i < NBUF" "caches (bufs s i) b"
  shows "blk s b = bdata (bufs s i)"
proof -
  have "\<not> caches (bufs s j) b" if "j < i" for j
    using assms that bio_uniq[of s i j] by (auto simp: caches_def)
  then have "find (\<lambda>i. caches (bufs s i) b) [0..<NBUF] = Some i"
    using assms(2,3) unfolding find_upt_Some by blast
  then show ?thesis by (simp add: blk_def)
qed

lemma blk_uncached: "(\<And>i. i < NBUF \<Longrightarrow> \<not> caches (bufs s i) b) \<Longrightarrow> blk s b = dsk s b"
proof -
  assume "\<And>i. i < NBUF \<Longrightarrow> \<not> caches (bufs s i) b"
  then have "find (\<lambda>i. caches (bufs s i) b) [0..<NBUF] = None" by (auto simp: find_upt_None)
  then show ?thesis by (simp add: blk_def)
qed

lemma bio_inv_upd:
  assumes "bio_inv s" "i < NBUF" "buf_ok (dsk s) (f (bufs s i))"
    and "bnext (f (bufs s i)) = bnext (bufs s i)" "bprev (f (bufs s i)) = bprev (bufs s i)"
    and "bdev (f (bufs s i)) = ROOTDEV \<Longrightarrow>
      (bdev (bufs s i) = ROOTDEV \<and> blockno (f (bufs s i)) = blockno (bufs s i)) \<or>
      (\<forall>j<NBUF. \<not> (bdev (bufs s j) = ROOTDEV \<and> blockno (bufs s j) = blockno (f (bufs s i))))"
  shows "bio_inv (upd_buf i f s)"
proof -
  note uniq = bio_uniq[OF assms(1)]
  have "next_of (upd_buf i f s) = next_of s" "prev_of (upd_buf i f s) = prev_of s"
    using assms(4,5) by (auto simp: fun_eq_iff)
  then have "\<exists>xs. lru (upd_buf i f s) xs" using assms(1) by (auto simp: bio_inv_def lru_def)
  moreover have "\<forall>k<NBUF. buf_ok (dsk (upd_buf i f s)) (bufs (upd_buf i f s) k)"
    using assms(1,3) by (auto simp: bio_inv_def)
  moreover have "k = j" if "k < NBUF" "j < NBUF" "bdev (bufs (upd_buf i f s) k) = ROOTDEV" "bdev (bufs (upd_buf i f s) j) = ROOTDEV"
        "blockno (bufs (upd_buf i f s) k) = blockno (bufs (upd_buf i f s) j)" for k j
  proof (rule ccontr)
    assume "k \<noteq> j"
    then consider "k = i" "j \<noteq> i" | "j = i" "k \<noteq> i" | "k \<noteq> i" "j \<noteq> i" by blast
    then show False
    proof cases
      case 1
      then show False using that assms(6) uniq[of i j] assms(2) by auto
    next
      case 2
      then show False using that assms(6) uniq[of i k] assms(2) by auto
    next
      case 3
      then show False using that uniq[of k j] \<open>k \<noteq> j\<close> by auto
    qed
  qed
  ultimately show ?thesis by (simp add: bio_inv_def)
qed

text \<open>Changing a buffer changes the view only at blocks the buffer caches before or after.\<close>

lemma blk_upd_other:
  assumes "\<not> caches (bufs s i) b" "\<not> caches (f (bufs s i)) b"
  shows "blk (upd_buf i f s) b = blk s b"
proof -
  have "(\<lambda>k. caches (bufs (upd_buf i f s) k) b) = (\<lambda>k. caches (bufs s k) b)"
    using assms by (auto simp: fun_eq_iff)
  then have e: "find (\<lambda>k. caches (bufs (upd_buf i f s) k) b) [0..<NBUF] = find (\<lambda>k. caches (bufs s k) b) [0..<NBUF]"
    by simp
  show ?thesis
  proof (cases "find (\<lambda>k. caches (bufs s k) b) [0..<NBUF]")
    case None
    then show ?thesis using e by (simp add: blk_def)
  next
    case (Some k)
    then have "k \<noteq> i" using assms(1) by (auto simp: find_upt_Some)
    then show ?thesis using e Some by (simp add: blk_def)
  qed
qed

lemma blk_upd_same:
  assumes "caches (f (bufs s i)) b = caches (bufs s i) b" "bdata (f (bufs s i)) = bdata (bufs s i)"
  shows "blk (upd_buf i f s) b = blk s b"
proof -
  have "(\<lambda>k. caches (bufs (upd_buf i f s) k) b) = (\<lambda>k. caches (bufs s k) b)"
    using assms(1) by (auto simp: fun_eq_iff)
  then have "find (\<lambda>k. caches (bufs (upd_buf i f s) k) b) [0..<NBUF] = find (\<lambda>k. caches (bufs s k) b) [0..<NBUF]"
    by simp
  then show ?thesis using assms(2) unfolding blk_def by (auto split: option.split)
qed

section \<open>What the operations do to the view\<close>

lemma upd_buf_comp: "upd_buf i f (upd_buf i g s) = upd_buf i (\<lambda>_. f (g (bufs s i))) s"
  by (simp add: upd_buf_def)

lemma find_lru:
  assumes "lru s xs"
  shows "find P xs = Some i \<Longrightarrow> i < NBUF \<and> P i" "find P xs = None \<Longrightarrow> (\<forall>i<NBUF. \<not> P i)"
    "find P (rev xs) = Some i \<Longrightarrow> i < NBUF \<and> P i" "find P (rev xs) = None \<Longrightarrow> (\<forall>i<NBUF. \<not> P i)"
proof -
  have "i \<in> set ys \<and> P i" if "find P ys = Some i" for ys
    using that by (induction ys) (auto split: if_splits)
  moreover have "set xs = {..<NBUF}" "set (rev xs) = {..<NBUF}" using assms by (auto simp: lru_def)
  ultimately show "find P xs = Some i \<Longrightarrow> i < NBUF \<and> P i" "find P (rev xs) = Some i \<Longrightarrow> i < NBUF \<and> P i"
    by blast+
  show "find P xs = None \<Longrightarrow> (\<forall>i<NBUF. \<not> P i)" "find P (rev xs) = None \<Longrightarrow> (\<forall>i<NBUF. \<not> P i)"
    using \<open>set xs = {..<NBUF}\<close> by (auto simp: find_None_iff)
qed

abbreviation is_blk :: "nat \<Rightarrow> nat \<Rightarrow> buf \<Rightarrow> bool" where
  "is_blk dev bno x \<equiv> bdev x = dev \<and> blockno x = bno"

lemma sleeplock_upd: "(lk :: sleeplock)\<lparr>locked := l, spid := p\<rparr> = \<lparr>locked = l, spid = p\<rparr>"
  by (cases lk) simp

lemma lock_buf_eq:
  "lock_buf me b s =
     (if locked (block_lock (bufs s b)) then Inl (Sleeps (ChBuf b))
      else Inr (b, upd_buf b (\<lambda>x. x\<lparr>block_lock := \<lparr>locked = True, spid = me\<rparr>\<rparr>) s))"
  by (simp add: lock_buf_def acquiresleep_def sleeplock_upd)

text \<open>The outcome of \<^verbatim>\<open>bread\<close> when the buffer is already assigned to the block, and when an
  unused buffer is taken for it.\<close>

definition hit_buf :: "int \<Rightarrow> block \<Rightarrow> buf \<Rightarrow> buf" where
  "hit_buf me d x = x\<lparr>refcnt := refcnt x + 1, block_lock := \<lparr>locked = True, spid = me\<rparr>,
     bdata := (if valid x then bdata x else d), valid := True\<rparr>"

definition miss_buf :: "int \<Rightarrow> nat \<Rightarrow> nat \<Rightarrow> block \<Rightarrow> buf \<Rightarrow> buf" where
  "miss_buf me dev bno d x = x\<lparr>bdev := dev, blockno := bno, refcnt := 1,
     block_lock := \<lparr>locked = True, spid = me\<rparr>, bdata := d, valid := True\<rparr>"

lemma fill_hit:
  "is_blk dev bno (bufs s b) \<Longrightarrow>
   (let s' = upd_buf b (\<lambda>x. x\<lparr>block_lock := \<lparr>locked = True, spid = me\<rparr>\<rparr>) (upd_buf b (\<lambda>x. x\<lparr>refcnt := refcnt x + 1\<rparr>) s)
    in if \<not> valid (bufs s' b) then upd_buf b (valid_update (\<lambda>_. True)) (virtio_disk_rw b False s') else s')
   = upd_buf b (hit_buf me (dsk s bno)) s"
  by (simp add: Let_def virtio_disk_rw_def upd_buf_def hit_buf_def fun_eq_iff)

lemma fill_miss:
  "(let s' = upd_buf b (\<lambda>x. x\<lparr>block_lock := \<lparr>locked = True, spid = me\<rparr>\<rparr>)
       (upd_buf b (\<lambda>x. x\<lparr>bdev := dev, blockno := bno, valid := False, refcnt := 1\<rparr>) s)
    in if \<not> valid (bufs s' b) then upd_buf b (valid_update (\<lambda>_. True)) (virtio_disk_rw b False s') else s')
   = upd_buf b (miss_buf me dev bno (dsk s bno)) s"
  by (simp add: Let_def virtio_disk_rw_def upd_buf_def miss_buf_def)

lemma bread_eq:
  assumes "lru s xs"
  shows "bread me dev bno s =
    (case find (\<lambda>b. is_blk dev bno (bufs s b)) xs of
       Some b \<Rightarrow> if locked (block_lock (bufs s b)) then Inl (Sleeps (ChBuf b))
                 else Inr (b, upd_buf b (hit_buf me (dsk s bno)) s)
     | None \<Rightarrow>
         (case find (\<lambda>b. refcnt (bufs s b) = 0) (rev xs) of
            Some b \<Rightarrow> if locked (block_lock (bufs s b)) then Inl (Sleeps (ChBuf b))
                      else Inr (b, upd_buf b (miss_buf me dev bno (dsk s bno)) s)
          | None \<Rightarrow> Inl (Panic ''bget: no buffers'')))"
proof (cases "find (\<lambda>b. is_blk dev bno (bufs s b)) xs")
  case (Some b)
  then have "is_blk dev bno (bufs s b)" using find_lru(1)[OF assms Some] by blast
  from fill_hit[OF this, where me = me] Some show ?thesis
    by (simp add: bread_def bget_def scan_next[OF assms] lock_buf_eq Let_def del: upd_buf_simps(1))
      (simp add: upd_buf_simps(1))
next
  case None
  then show ?thesis
    using fill_miss[where me = me and dev = dev and bno = bno and s = s]
    by (simp add: bread_def bget_def scan_next[OF assms] scan_prev[OF assms] lock_buf_eq Let_def split: option.split)
qed

text \<open>The buffer \<^term>\<open>i\<close> is held by process \<^term>\<open>me\<close> for block \<^term>\<open>b\<close>.\<close>

definition holds :: "int \<Rightarrow> nat \<Rightarrow> nat \<Rightarrow> 'a bcache_scheme \<Rightarrow> bool" where
  "holds me i b s \<longleftrightarrow> i < NBUF \<and> holdingsleep me (block_lock (bufs s i)) \<and> caches (bufs s i) b"

lemma bio_inv_buf_ok: "bio_inv s \<Longrightarrow> i < NBUF \<Longrightarrow> buf_ok (dsk s) (bufs s i)"
  by (simp add: bio_inv_def)

lemma bio_inv_lru: "bio_inv s \<Longrightarrow> \<exists>xs. lru s xs"
  by (simp add: bio_inv_def)

lemma bread_Inr:
  assumes "lru s xs" "bread me dev bno s = Inr (i, s')"
  shows "i < NBUF \<and> \<not> locked (block_lock (bufs s i)) \<and>
    (is_blk dev bno (bufs s i) \<and> s' = upd_buf i (hit_buf me (dsk s bno)) s \<or>
     refcnt (bufs s i) = 0 \<and> (\<forall>j<NBUF. \<not> is_blk dev bno (bufs s j)) \<and>
     s' = upd_buf i (miss_buf me dev bno (dsk s bno)) s)"
proof (cases "find (\<lambda>b. is_blk dev bno (bufs s b)) xs")
  case (Some b)
  then show ?thesis
    using assms(2) find_lru(1)[OF assms(1) Some] by (auto simp: bread_eq[OF assms(1)] split: if_splits)
next
  case None
  then obtain b where "find (\<lambda>b. refcnt (bufs s b) = 0) (rev xs) = Some b"
    using assms(2) by (auto simp: bread_eq[OF assms(1)] split: option.splits)
  then show ?thesis
    using assms(2) find_lru(2)[OF assms(1) None] find_lru(3)[OF assms(1), of _ b] None
    by (auto simp: bread_eq[OF assms(1)] split: if_splits)
qed

lemma bread_Inl:
  assumes "lru s xs" "bread me dev bno s = Inl e"
  shows "e = Panic ''bget: no buffers'' \<and> (\<forall>j<NBUF. \<not> is_blk dev bno (bufs s j)) \<and> (\<forall>j<NBUF. refcnt (bufs s j) \<noteq> 0) \<or>
    (\<exists>i<NBUF. e = Sleeps (ChBuf i) \<and> locked (block_lock (bufs s i)) \<and>
       (is_blk dev bno (bufs s i) \<or> refcnt (bufs s i) = 0))"
proof (cases "find (\<lambda>b. is_blk dev bno (bufs s b)) xs")
  case (Some b)
  then show ?thesis
    using assms(2) find_lru(1)[OF assms(1) Some] by (auto simp: bread_eq[OF assms(1)] split: if_splits)
next
  case N: None
  show ?thesis
  proof (cases "find (\<lambda>b. refcnt (bufs s b) = 0) (rev xs)")
    case (Some b)
    then show ?thesis
      using assms(2) find_lru(3)[OF assms(1) Some] N by (auto simp: bread_eq[OF assms(1)] split: if_splits)
  next
    case None
    then show ?thesis
      using assms(2) find_lru(2)[OF assms(1) N] find_lru(4)[OF assms(1) None] N
      by (simp add: bread_eq[OF assms(1)])
  qed
qed

lemma caches_uniq:
  "bio_inv s \<Longrightarrow> i < NBUF \<Longrightarrow> j < NBUF \<Longrightarrow> is_blk ROOTDEV b (bufs s i) \<Longrightarrow> caches (bufs s j) b \<Longrightarrow> j = i"
  using bio_uniq[of s j i] by (simp add: caches_def)

lemma blk_hit:
  assumes "bio_inv s" "i < NBUF" "is_blk ROOTDEV b (bufs s i)" "bio_inv (upd_buf i (hit_buf me (dsk s b)) s)"
  shows "blk (upd_buf i (hit_buf me (dsk s b)) s) c = blk s c" "bdata (hit_buf me (dsk s b) (bufs s i)) = blk s b"
proof -
  show d: "bdata (hit_buf me (dsk s b) (bufs s i)) = blk s b"
  proof (cases "valid (bufs s i)")
    case True
    then show ?thesis using blk_cached[OF assms(1,2), of b] assms(3) by (simp add: hit_buf_def caches_def)
  next
    case False
    have "\<not> caches (bufs s j) b" if "j < NBUF" for j
      using caches_uniq[OF assms(1,2) that assms(3)] False by (metis caches_def)
    then show ?thesis using blk_uncached[of s b] False by (simp add: hit_buf_def)
  qed
  show "blk (upd_buf i (hit_buf me (dsk s b)) s) c = blk s c"
  proof (cases "c = b")
    case True
    then show ?thesis
      using blk_cached[OF assms(4,2), of b] assms(3) d by (simp add: caches_def hit_buf_def)
  next
    case False
    then show ?thesis using assms(3) by (intro blk_upd_other) (auto simp: caches_def hit_buf_def)
  qed
qed

lemma blk_miss:
  assumes "bio_inv s" "i < NBUF" "\<forall>j<NBUF. \<not> is_blk ROOTDEV b (bufs s j)" "refcnt (bufs s i) = 0"
    and "bio_inv (upd_buf i (miss_buf me ROOTDEV b (dsk s b)) s)" (is "bio_inv ?s'")
  shows "blk (upd_buf i (miss_buf me ROOTDEV b (dsk s b)) s) c = blk s c" "blk s b = dsk s b"
proof -
  show d: "blk s b = dsk s b" using assms(3) by (intro blk_uncached) (auto simp: caches_def)
  show "blk ?s' c = blk s c"
  proof (cases "c = b")
    case True
    then show ?thesis using blk_cached[OF assms(5,2), of b] d by (simp add: caches_def miss_buf_def)
  next
    case False
    show ?thesis
    proof (cases "caches (bufs s i) c")
      case True
      have "blk ?s' c = dsk s c"
      proof (subst blk_uncached)
        fix j
        assume "j < NBUF"
        then have "j \<noteq> i \<Longrightarrow> \<not> caches (bufs s j) c"
          using caches_uniq[OF assms(1,2), of j c] True by (metis caches_def)
        then show "\<not> caches (bufs ?s' j) c"
          using False by (simp add: caches_def miss_buf_def)
      qed simp
      moreover have "blk s c = dsk s c"
        using blk_cached[OF assms(1,2) True] bio_inv_buf_ok[OF assms(1,2)] True assms(4)
        by (simp add: buf_ok_def caches_def)
      ultimately show ?thesis by simp
    next
      case F: False
      then show ?thesis using False by (intro blk_upd_other) (auto simp: caches_def miss_buf_def)
    qed
  qed
qed

lemma bread_spec:
  assumes "bio_inv s" "bread me ROOTDEV b s = Inr (i, s')"
  shows "bio_inv s'" "holds me i b s'" "bdata (bufs s' i) = blk s b" "blk s' = blk s" "dsk s' = dsk s"
    "s' = upd_buf i (\<lambda>_. bufs s' i) s" "\<not> locked (block_lock (bufs s i))"
    "refcnt (bufs s' i) = 1 \<or> is_blk ROOTDEV b (bufs s i) \<and> refcnt (bufs s' i) = refcnt (bufs s i) + 1"
proof -
  obtain xs where "lru s xs" using bio_inv_lru[OF assms(1)] by blast
  note r = bread_Inr[OF this assms(2)]
  have i: "i < NBUF" using r by blast
  note ok = bio_inv_buf_ok[OF assms(1) i]
  show "\<not> locked (block_lock (bufs s i))" using r by blast
  show inv: "bio_inv s'"
    using r ok by (auto intro!: bio_inv_upd assms(1) simp: buf_ok_def hit_buf_def miss_buf_def)
  show "holds me i b s'" "dsk s' = dsk s" "s' = upd_buf i (\<lambda>_. bufs s' i) s"
    "refcnt (bufs s' i) = 1 \<or> is_blk ROOTDEV b (bufs s i) \<and> refcnt (bufs s' i) = refcnt (bufs s i) + 1"
    using r by (auto simp: holds_def holdingsleep_def caches_def hit_buf_def miss_buf_def upd_buf_def)
  show "bdata (bufs s' i) = blk s b"
    using r inv blk_hit(2)[OF assms(1) i] blk_miss(2)[OF assms(1) i] by (auto simp: miss_buf_def)
  show "blk s' = blk s"
    using r inv blk_hit(1)[OF assms(1) i] blk_miss(1)[OF assms(1) i] by (intro ext) auto
qed

lemma holds_blk: "bio_inv s \<Longrightarrow> holds me i b s \<Longrightarrow> bdata (bufs s i) = blk s b"
  using blk_cached[of s i b] by (simp add: holds_def)

lemma holds_refcnt: "bio_inv s \<Longrightarrow> holds me i b s \<Longrightarrow> 0 < refcnt (bufs s i)"
  using bio_inv_buf_ok[of s i] by (auto simp: holds_def buf_ok_def holdingsleep_def)

definition set_data :: "nat \<Rightarrow> (block \<Rightarrow> block) \<Rightarrow> 'a bcache_scheme \<Rightarrow> 'a bcache_scheme" where
  "set_data i f s = upd_buf i (\<lambda>x. x\<lparr>bdata := f (bdata x)\<rparr>) s"

lemma set_data_spec:
  assumes "bio_inv s" "holds me i b s"
  shows "bio_inv (set_data i f s)" "holds me i b (set_data i f s)"
    "blk (set_data i f s) = (blk s)(b := f (blk s b))"
proof -
  have i: "i < NBUF" and c: "caches (bufs s i) b" using assms(2) by (auto simp: holds_def)
  show inv: "bio_inv (set_data i f s)" unfolding set_data_def
    using bio_inv_buf_ok[OF assms(1) i] holds_refcnt[OF assms]
    by (intro bio_inv_upd[OF assms(1) i]) (auto simp: buf_ok_def)
  show h: "holds me i b (set_data i f s)" using assms(2) by (simp add: set_data_def holds_def caches_def)
  show "blk (set_data i f s) = (blk s)(b := f (blk s b))"
  proof
    fix x
    show "blk (set_data i f s) x = ((blk s)(b := f (blk s b))) x"
    proof (cases "x = b")
      case True
      then show ?thesis using holds_blk[OF inv h] holds_blk[OF assms] by (simp add: set_data_def)
    next
      case False
      then show ?thesis using c unfolding set_data_def
        by (subst blk_upd_other) (auto simp: caches_def)
    qed
  qed
qed

lemma bwrite_spec:
  assumes "bio_inv s" "holds me i b s"
  shows "bwrite me i s = Inr (s\<lparr>dsk := (dsk s)(b := blk s b), wtrace := (b, blk s b) # wtrace s\<rparr>)"
    "bio_inv (s\<lparr>dsk := (dsk s)(b := blk s b), wtrace := w\<rparr>)"
    "blk (s\<lparr>dsk := (dsk s)(b := blk s b), wtrace := w\<rparr>) = blk s"
proof -
  let ?s = "s\<lparr>dsk := (dsk s)(b := blk s b), wtrace := w\<rparr>"
  have i: "i < NBUF" and c: "caches (bufs s i) b" using assms(2) by (auto simp: holds_def)
  have b: "bdata (bufs s i) = blk s b" by (rule holds_blk[OF assms])
  then show "bwrite me i s = Inr (s\<lparr>dsk := (dsk s)(b := blk s b), wtrace := (b, blk s b) # wtrace s\<rparr>)"
    using assms(2) c by (simp add: bwrite_def holds_def virtio_disk_rw_def caches_def)
  have "buf_ok (dsk ?s) (bufs s j)" if j: "j < NBUF" for j
  proof (cases "caches (bufs s j) b")
    case True
    then have "j = i" using caches_uniq[OF assms(1) i j] c by (simp add: caches_def)
    then show ?thesis using bio_inv_buf_ok[OF assms(1) i] b by (auto simp: buf_ok_def)
  next
    case False
    then show ?thesis using bio_inv_buf_ok[OF assms(1) j] by (auto simp: buf_ok_def caches_def)
  qed
  moreover have "lru ?s xs = lru s xs" for xs by (rule lru_cong) auto
  ultimately show "bio_inv ?s" using assms(1) by (simp add: bio_inv_def)
  show "blk ?s = blk s"
  proof
    fix x
    show "blk ?s x = blk s x"
    proof (cases "x = b")
      case True
      then have "find (\<lambda>k. caches (bufs s k) x) [0..<NBUF] \<noteq> None" using i c unfolding find_upt_None by blast
      then show ?thesis by (auto simp: blk_def)
    next
      case False
      then show ?thesis by (cases "find (\<lambda>k. caches (bufs s k) x) [0..<NBUF]") (simp_all add: blk_def)
    qed
  qed
qed

text \<open>Everything in a buffer but its place in the list.\<close>

definition core :: "buf \<Rightarrow> buf" where
  "core x = x\<lparr>bprev := 0, bnext := 0\<rparr>"

lemma core_eqD:
  "core x = core y \<Longrightarrow> valid x = valid y \<and> disk x = disk y \<and> bdev x = bdev y \<and> blockno x = blockno y \<and>
     block_lock x = block_lock y \<and> refcnt x = refcnt y \<and> bdata x = bdata y"
  by (cases x; cases y) (simp add: core_def)

lemma core_links [simp]: "core (x\<lparr>bprev := p\<rparr>) = core x" "core (x\<lparr>bnext := p\<rparr>) = core x"
  by (simp_all add: core_def)

lemma core_upd: "(\<And>x. core (f x) = core x) \<Longrightarrow> core (bufs (upd_buf b f s) j) = core (bufs s j)"
  by simp

lemma core_move: "core (bufs (link_front b (unlink b s)) j) = core (bufs s j)"
  unfolding link_front_def unlink_def Let_def
  by (simp only: core_upd core_links)

lemma move_simps [simp]:
  "dsk (link_front b s) = dsk s" "dsk (unlink b s) = dsk s"
  "woken (link_front b s) = woken s" "woken (unlink b s) = woken s"
  "wtrace (link_front b s) = wtrace s" "wtrace (unlink b s) = wtrace s"
  "bcache.more (link_front b s) = bcache.more s" "bcache.more (unlink b s) = bcache.more s"
  unfolding link_front_def unlink_def Let_def by (simp_all only: upd_buf_simps)

lemma upd_buf_frame: "bufs_update (\<lambda>_. bufs (upd_buf b f s)) s = upd_buf b f s"
  by (simp add: upd_buf_def)

lemma move_frame: "s\<lparr>bufs := bufs (link_front b (unlink b s))\<rparr> = link_front b (unlink b s)"
  unfolding link_front_def unlink_def Let_def by (simp add: upd_buf_def)

lemma blk_core:
  assumes "\<And>j. core (bufs s' j) = core (bufs s j)" "dsk s' = dsk s"
  shows "blk s' = blk s"
proof
  fix b
  have "caches (bufs s' j) b = caches (bufs s j) b" "bdata (bufs s' j) = bdata (bufs s j)" for j
    using core_eqD[OF assms(1)[of j]] by (simp_all add: caches_def)
  then show "blk s' b = blk s b" by (simp add: blk_def assms(2) split: option.split)
qed

lemma bio_inv_core:
  assumes "bio_inv s" "\<And>j. core (bufs s' j) = core (bufs s j)" "dsk s' = dsk s" "lru s' ys"
  shows "bio_inv s'"
proof -
  have "buf_ok (dsk s') (bufs s' j) = buf_ok (dsk s) (bufs s j)" "bdev (bufs s' j) = bdev (bufs s j)"
    "blockno (bufs s' j) = blockno (bufs s j)" for j
    using core_eqD[OF assms(2)[of j]] assms(3) by (simp_all add: buf_ok_def)
  then show ?thesis using assms(1,4) by (auto simp: bio_inv_def)
qed

definition released :: "buf \<Rightarrow> buf" where
  "released x = x\<lparr>block_lock := \<lparr>locked = False, spid = 0\<rparr>, refcnt := refcnt x - 1\<rparr>"

lemma brelse_eq:
  "brelse me b s =
     (if \<not> holdingsleep me (block_lock (bufs s b)) then Inl (Panic ''brelse'')
      else let s' = upd_buf b released (s\<lparr>woken := ChBuf b # woken s\<rparr>)
           in Inr (if refcnt (bufs s b) = 1 then link_front b (unlink b s') else s'))"
  by (simp add: brelse_def releasesleep_def sleeplock_upd upd_buf_def Let_def released_def)

lemma brelse_spec:
  assumes "bio_inv s" "holds me i b s" "refcnt (bufs s i) = 1 \<Longrightarrow> blk s b = dsk s b"
  obtains s' where "brelse me i s = Inr s'" "bio_inv s'" "blk s' = blk s" "dsk s' = dsk s"
    "s' = s\<lparr>woken := ChBuf i # woken s, bufs := bufs s'\<rparr>" "\<And>j. core (bufs s' j) = core (if j = i then released (bufs s i) else bufs s j)"
proof -
  have i: "i < NBUF" and c: "caches (bufs s i) b" using assms(2) by (auto simp: holds_def)
  let ?s = "upd_buf i released (s\<lparr>woken := ChBuf i # woken s\<rparr>)"
  have inv0: "bio_inv (s\<lparr>woken := ChBuf i # woken s\<rparr>)"
    using assms(1) lru_cong[of "s\<lparr>woken := ChBuf i # woken s\<rparr>" s] by (simp add: bio_inv_def)
  have b0: "blk (s\<lparr>woken := ChBuf i # woken s\<rparr>) = blk s" by (rule blk_core) simp_all
  have inv: "bio_inv ?s"
    using bio_inv_buf_ok[OF assms(1) i] holds_refcnt[OF assms(1,2)] assms(3) holds_blk[OF assms(1,2)] c
    by (intro bio_inv_upd[OF inv0 i]) (auto simp: buf_ok_def released_def caches_def)
  have b: "blk ?s = blk s"
    unfolding b0[symmetric] by (rule ext, rule blk_upd_same) (simp_all add: released_def caches_def)
  obtain xs where xs: "lru ?s xs" using bio_inv_lru[OF inv] by blast
  define s' where "s' = (if refcnt (bufs s i) = 1 then link_front i (unlink i ?s) else ?s)"
  have cs: "core (bufs s' j) = core (bufs ?s j)" for j by (simp add: s'_def core_move)
  have ds: "dsk s' = dsk ?s" by (simp add: s'_def)
  have "\<exists>ys. lru s' ys" using xs lru_move_front[OF xs i] by (auto simp: s'_def)
  then have "bio_inv s'" using bio_inv_core[OF inv cs ds] by blast
  moreover have "blk s' = blk s" using blk_core[OF cs ds] b by simp
  moreover have "brelse me i s = Inr s'" using assms(2) by (simp add: brelse_eq s'_def Let_def holds_def)
  moreover have "dsk s' = dsk s" using ds by simp
  moreover have "s' = s\<lparr>woken := ChBuf i # woken s, bufs := bufs s'\<rparr>"
    using move_frame[of i ?s] by (auto simp: s'_def upd_buf_def)
  moreover have "core (bufs s' j) = core (if j = i then released (bufs s i) else bufs s j)" for j
    using cs[of j] by simp
  ultimately show thesis using that by blast
qed

lemma bpin_spec:
  assumes "bio_inv s" "holds me i b s"
  shows "bio_inv (bpin i s)" "holds me i b (bpin i s)" "blk (bpin i s) = blk s"
proof -
  have i: "i < NBUF" using assms(2) by (simp add: holds_def)
  show "bio_inv (bpin i s)" unfolding bpin_def
    using bio_inv_buf_ok[OF assms(1) i] holds_refcnt[OF assms] by (intro bio_inv_upd[OF assms(1) i]) (auto simp: buf_ok_def)
  show "holds me i b (bpin i s)" using assms(2) by (simp add: bpin_def holds_def caches_def)
  show "blk (bpin i s) = blk s" unfolding bpin_def by (rule ext, rule blk_upd_same) (simp_all add: caches_def)
qed

lemma bunpin_spec:
  assumes "bio_inv s" "holds me i b s" "1 < refcnt (bufs s i)"
  shows "bio_inv (bunpin i s)" "holds me i b (bunpin i s)" "blk (bunpin i s) = blk s"
proof -
  have i: "i < NBUF" using assms(2) by (simp add: holds_def)
  show "bio_inv (bunpin i s)" unfolding bunpin_def
    using bio_inv_buf_ok[OF assms(1) i] assms(3) by (intro bio_inv_upd[OF assms(1) i]) (auto simp: buf_ok_def)
  show "holds me i b (bunpin i s)" using assms(2) by (simp add: bunpin_def holds_def caches_def)
  show "blk (bunpin i s) = blk s" unfolding bunpin_def by (rule ext, rule blk_upd_same) (simp_all add: caches_def)
qed

definition zero_buf :: buf where
  "zero_buf = \<lparr>valid = False, disk = False, bdev = 0, blockno = 0, block_lock = initsleeplock, refcnt = 0,
     bprev = 0, bnext = 0, bdata = (\<lambda>_. 0)\<rparr>"

lemma core_binit_step:
  "\<forall>j. core (bufs s j) = core zero_buf \<Longrightarrow> \<forall>j. core (bufs (binit_step b s) j) = core zero_buf"
proof -
  assume a: "\<forall>j. core (bufs s j) = core zero_buf"
  have l: "core (bufs (upd_buf b (block_lock_update (\<lambda>_. initsleeplock)) t) j) = core zero_buf"
    if "\<forall>j. core (bufs t j) = core zero_buf" for t :: "'a bcache_scheme" and j
  proof -
    have "block_lock (bufs t b) = initsleeplock"
      using core_eqD[OF that[rule_format, of b]] by (simp add: zero_buf_def)
    then have "(bufs t b)\<lparr>block_lock := initsleeplock\<rparr> = bufs t b" by (cases "bufs t b") simp
    then show ?thesis using that by simp
  qed
  show ?thesis
    unfolding binit_step_def Let_def
    by (simp only: core_upd core_links) (intro allI l, simp only: core_upd core_links a simp_thms)
qed

lemma binit_inv:
  assumes "bufs s = (\<lambda>_. zero_buf)"
  shows "bio_inv (binit s)" "blk (binit s) = dsk s" "dsk (binit s) = dsk s"
    "bdev (bufs (binit s) j) = 0 \<and> \<not> valid (bufs (binit s) j) \<and> refcnt (bufs (binit s) j) = 0 \<and>
      block_lock (bufs (binit s) j) = initsleeplock"
proof -
  have f: "(\<forall>j. core (bufs (fold binit_step xs t) j) = core zero_buf) \<and> dsk (fold binit_step xs t) = dsk t"
    if "\<forall>j. core (bufs t j) = core zero_buf" for xs and t :: "'a bcache_scheme"
    using that
  proof (induction xs arbitrary: t)
    case Nil
    then show ?case by simp
  next
    case (Cons b xs)
    have "dsk (binit_step b t) = dsk t" unfolding binit_step_def Let_def by (simp only: upd_buf_simps)
    then show ?case using Cons.IH[OF core_binit_step[OF Cons.prems]] by simp
  qed
  have c: "core (bufs (binit s) j) = core zero_buf" for j
    unfolding binit_def Let_def by (rule f[THEN conjunct1, rule_format]) (simp add: assms)
  show d: "dsk (binit s) = dsk s"
    unfolding binit_def Let_def by (subst f[THEN conjunct2]) (simp_all add: assms)
  have z: "bdev (bufs (binit s) j) = 0 \<and> \<not> valid (bufs (binit s) j) \<and> refcnt (bufs (binit s) j) = 0 \<and>
      block_lock (bufs (binit s) j) = initsleeplock" for j
    using core_eqD[OF c[of j]] by (simp add: zero_buf_def)
  then show "\<And>j. bdev (bufs (binit s) j) = 0 \<and> \<not> valid (bufs (binit s) j) \<and> refcnt (bufs (binit s) j) = 0 \<and>
      block_lock (bufs (binit s) j) = initsleeplock" by blast
  from z show "bio_inv (binit s)"
    using binit_lru[of s] by (auto simp: bio_inv_def buf_ok_def initsleeplock_def ROOTDEV_def)
  have "blk (binit s) b = dsk (binit s) b" for b by (rule blk_uncached) (simp add: z caches_def)
  then show "blk (binit s) = dsk s" using d by (simp add: fun_eq_iff)
qed

text \<open>Runs of clients that follow the rules in the header of \<^verbatim>\<open>bio.c\<close>: data is changed only while the
  buffer is held, and a changed buffer is written or pinned before its last reference goes away.
  \<^term>\<open>V\<close> is the contents of the disk as the clients last wrote it.\<close>

inductive bio_run :: "'a bcache_scheme \<Rightarrow> (nat \<Rightarrow> block) \<Rightarrow> bool" where
  run_init: "bufs s0 = (\<lambda>_. zero_buf) \<Longrightarrow> bio_run (binit s0) (dsk s0)"
| run_bread: "bio_run s V \<Longrightarrow> bread me ROOTDEV b s = Inr (i, s') \<Longrightarrow> bio_run s' V"
| run_change: "bio_run s V \<Longrightarrow> holds me i b s \<Longrightarrow> bio_run (set_data i f s) (V(b := f (V b)))"
| run_bwrite: "bio_run s V \<Longrightarrow> holds me i b s \<Longrightarrow> bwrite me i s = Inr s' \<Longrightarrow> bio_run s' V"
| run_brelse: "bio_run s V \<Longrightarrow> holds me i b s \<Longrightarrow> brelse me i s = Inr s' \<Longrightarrow>
     1 < refcnt (bufs s i) \<or> bdata (bufs s i) = dsk s b \<Longrightarrow> bio_run s' V"
| run_bpin: "bio_run s V \<Longrightarrow> holds me i b s \<Longrightarrow> bio_run (bpin i s) V"
| run_bunpin: "bio_run s V \<Longrightarrow> holds me i b s \<Longrightarrow> 1 < refcnt (bufs s i) \<Longrightarrow> bio_run (bunpin i s) V"

lemma bio_run_inv: "bio_run s V \<Longrightarrow> bio_inv s \<and> blk s = V"
proof (induction rule: bio_run.induct)
  case (run_init s0)
  then show ?case using binit_inv[of s0] by simp
next
  case (run_bread s V me b i s')
  then show ?case using bread_spec[of s me b i s'] by simp
next
  case (run_change s V me i b f)
  then show ?case using set_data_spec[of s me i b f] by simp
next
  case (run_bwrite s V me i b s')
  then show ?case using bwrite_spec[of s me i b] by auto
next
  case (run_brelse s V me i b s')
  then obtain t where "brelse me i s = Inr t" "bio_inv t" "blk t = blk s"
    using brelse_spec[of s me i b] holds_blk[of s me i b] by fastforce
  then show ?case using run_brelse by simp
next
  case (run_bpin s V me i b)
  then show ?case using bpin_spec[of s me i b] by simp
next
  case (run_bunpin s V me i b)
  then show ?case using bunpin_spec[of s me i b] by simp
qed

section \<open>Properties\<close>

text \<open>C21. The buffer cache is coherent: in every run of clients that follow its rules, at most one buffer
  is assigned to a block, bread returns a locked buffer with the data last written to the block
  (whether it was cached, evicted in between or never written back yet), and it panics only when
  every buffer is referenced and none is assigned to the block.\<close>

theorem bread_returns_latest:
  assumes "bio_run s V"
  shows "case bread me ROOTDEV b s of
      Inr (i, s') \<Rightarrow> bdata (bufs s' i) = V b \<and> holdingsleep me (block_lock (bufs s' i)) \<and>
        blockno (bufs s' i) = b \<and> (\<forall>j<NBUF. j \<noteq> i \<longrightarrow> \<not> is_blk ROOTDEV b (bufs s' j))
    | Inl (Sleeps ch) \<Rightarrow> \<exists>i<NBUF. ch = ChBuf i \<and> locked (block_lock (bufs s i)) \<and> is_blk ROOTDEV b (bufs s i)
    | Inl (Panic msg) \<Rightarrow> \<forall>j<NBUF. refcnt (bufs s j) > 0 \<and> \<not> is_blk ROOTDEV b (bufs s j)
    | Inl _ \<Rightarrow> False"
proof -
  have inv: "bio_inv s" "blk s = V" using bio_run_inv[OF assms] by auto
  obtain xs where xs: "lru s xs" using bio_inv_lru[OF inv(1)] by blast
  show ?thesis
  proof (cases "bread me ROOTDEV b s")
    case (Inr r)
    obtain i s' where r: "r = (i, s')" by fastforce
    note sp = bread_spec[OF inv(1) Inr[unfolded r]]
    have "j = i" if "j < NBUF" "is_blk ROOTDEV b (bufs s' j)" for j
      using caches_uniq[OF sp(1) that(1) _ that(2), of i] sp(2) by (simp add: holds_def)
    then show ?thesis using Inr r sp(2,3) inv(2) by (auto simp: holds_def caches_def)
  next
    case (Inl e)
    have ok: "0 \<le> refcnt (bufs s j)" "locked (block_lock (bufs s j)) \<Longrightarrow> refcnt (bufs s j) \<noteq> 0" if "j < NBUF" for j
      using bio_inv_buf_ok[OF inv(1) that] by (auto simp: buf_ok_def)
    from bread_Inl[OF xs Inl] show ?thesis
    proof
      assume "e = Panic ''bget: no buffers'' \<and> (\<forall>j<NBUF. \<not> is_blk ROOTDEV b (bufs s j)) \<and> (\<forall>j<NBUF. refcnt (bufs s j) \<noteq> 0)"
      then show ?thesis using Inl ok(1) by (simp add: order_less_le)
    next
      assume "\<exists>i<NBUF. e = Sleeps (ChBuf i) \<and> locked (block_lock (bufs s i)) \<and>
         (is_blk ROOTDEV b (bufs s i) \<or> refcnt (bufs s i) = 0)"
      then show ?thesis using Inl ok(2) by auto
    qed
  qed
qed

definition bcache0 :: bcache where
  "bcache0 = phys.extend phys0 \<lparr>bufs = (\<lambda>_. zero_buf), dsk = (\<lambda>b a. of_nat b), wtrace = [], woken = []\<rparr>"

lemma bufs_bcache0: "bufs bcache0 = (\<lambda>_. zero_buf)"
  by (simp add: bcache0_def phys.defs phys0_def)

theorem bread_returns_latest_witness:
  "\<exists>i s'. bread 7 ROOTDEV 5 (binit bcache0) = Inr (i, s') \<and> bdata (bufs s' i) = dsk bcache0 5"
proof -
  have "\<not> locked (block_lock (bufs (binit bcache0) i))" "refcnt (bufs (binit bcache0) i) = 0" for i
    using binit_inv(4)[OF bufs_bcache0, of i] by (auto simp: initsleeplock_def)
  moreover have "\<exists>j. j < NBUF" by (rule exI[of _ 0]) (simp add: NBUF_def MAXOPBLOCKS_def)
  ultimately show ?thesis
    using bread_returns_latest[OF run_init[OF bufs_bcache0], where me = 7 and b = 5]
    by (auto split: sum.splits stop.splits)
qed

text \<open>C22. Recycling is least recently used first: when the links spell the list xs, bread uses the buffer
  assigned to the block or else the last unreferenced one of xs, brelse of the last reference moves
  the buffer to the front through the prev and next fields and keeps all links consistent, and binit
  builds the list of all NBUF buffers.\<close>

theorem buffer_recycling_lru:
  assumes "lru s xs" "i < NBUF" "holdingsleep me (block_lock (bufs s i))"
  shows "bread me dev bno s =
    (case find (\<lambda>b. is_blk dev bno (bufs s b)) xs of
       Some b \<Rightarrow> if locked (block_lock (bufs s b)) then Inl (Sleeps (ChBuf b))
                 else Inr (b, upd_buf b (hit_buf me (dsk s bno)) s)
     | None \<Rightarrow>
         (case find (\<lambda>b. refcnt (bufs s b) = 0) (rev xs) of
            Some b \<Rightarrow> if locked (block_lock (bufs s b)) then Inl (Sleeps (ChBuf b))
                      else Inr (b, upd_buf b (miss_buf me dev bno (dsk s bno)) s)
          | None \<Rightarrow> Inl (Panic ''bget: no buffers''))) \<and>
    (\<exists>s'. brelse me i s = Inr s' \<and> lru s' (if refcnt (bufs s i) = 1 then i # remove1 i xs else xs)) \<and>
    lru (binit s) (rev [0..<NBUF])"
proof -
  let ?s = "upd_buf i released (s\<lparr>woken := ChBuf i # woken s\<rparr>)"
  have "lru ?s xs" using assms(1) by (subst lru_cong[of ?s s]) (auto simp: released_def)
  then have "lru (link_front i (unlink i ?s)) (i # remove1 i xs)" by (rule lru_move_front[OF _ assms(2)])
  with \<open>lru ?s xs\<close> show ?thesis
    using bread_eq[OF assms(1)] binit_lru[of s] assms(3) by (simp add: brelse_eq Let_def)
qed

theorem buffer_recycling_lru_witness:
  "\<exists>s'. brelse 7 3 (upd_buf 3 (\<lambda>x. x\<lparr>refcnt := 1, block_lock := \<lparr>locked = True, spid = 7\<rparr>\<rparr>) (binit bcache0)) = Inr s' \<and>
     lru s' (3 # remove1 3 (rev [0..<NBUF]))"
proof -
  let ?s = "upd_buf 3 (\<lambda>x. x\<lparr>refcnt := 1, block_lock := \<lparr>locked = True, spid = 7\<rparr>\<rparr>) (binit bcache0)"
  have "lru ?s (rev [0..<NBUF])" using binit_lru[of bcache0] by (subst lru_cong[of ?s "binit bcache0"]) auto
  from buffer_recycling_lru[OF this, where i = 3 and me = 7] show ?thesis
    by (simp add: holdingsleep_def NBUF_def MAXOPBLOCKS_def)
qed

end
