(* ===== verification/Xv6_Bview.thy ===== *)
theory Xv6_Bview
  imports Xv6_Bio
begin

text \<open>
  An abstract buffer cache and the proof that \<^verbatim>\<open>bio.c\<close> implements it. The abstract state has no
  buffers: it maps every block of the disk to its current contents, its contents on disk, its
  reference count and the process that holds it. Each operation of the cache is a one-line update
  of that state, and \<^verbatim>\<open>bread\<close> succeeds exactly under a condition on it.
\<close>

section \<open>The abstract cache\<close>

record vcache =
  vblk :: "nat \<Rightarrow> block"
  vdsk :: "nat \<Rightarrow> block"
  vref :: "nat \<Rightarrow> int"
  vlock :: "nat \<Rightarrow> int option"
  vtrace :: "(nat \<times> block) list"

definition v_bread :: "int \<Rightarrow> nat \<Rightarrow> vcache \<Rightarrow> vcache" where
  "v_bread me b v = v\<lparr>vref := (vref v)(b := vref v b + 1), vlock := (vlock v)(b := Some me)\<rparr>"

definition v_brelse :: "nat \<Rightarrow> vcache \<Rightarrow> vcache" where
  "v_brelse b v = v\<lparr>vref := (vref v)(b := vref v b - 1), vlock := (vlock v)(b := None)\<rparr>"

definition v_set :: "nat \<Rightarrow> (block \<Rightarrow> block) \<Rightarrow> vcache \<Rightarrow> vcache" where
  "v_set b f v = v\<lparr>vblk := (vblk v)(b := f (vblk v b))\<rparr>"

definition v_bwrite :: "nat \<Rightarrow> vcache \<Rightarrow> vcache" where
  "v_bwrite b v = v\<lparr>vdsk := (vdsk v)(b := vblk v b), vtrace := (b, vblk v b) # vtrace v\<rparr>"

definition v_pin :: "nat \<Rightarrow> int \<Rightarrow> vcache \<Rightarrow> vcache" where
  "v_pin b k v = v\<lparr>vref := (vref v)(b := vref v b + k)\<rparr>"

definition v_avail :: "nat \<Rightarrow> vcache \<Rightarrow> bool" where
  "v_avail b v \<longleftrightarrow> vlock v b = None \<and> (0 < vref v b \<or> card {c. 0 < vref v c} < NBUF)"

section \<open>Abstraction\<close>

definition assigned :: "'a bcache_scheme \<Rightarrow> nat \<Rightarrow> nat option" where
  "assigned s b = find (\<lambda>i. is_blk ROOTDEV b (bufs s i)) [0..<NBUF]"

definition absc :: "'a bcache_scheme \<Rightarrow> vcache" where
  "absc s =
     \<lparr>vblk = blk s, vdsk = dsk s,
      vref = (\<lambda>b. case assigned s b of None \<Rightarrow> 0 | Some i \<Rightarrow> refcnt (bufs s i)),
      vlock = (\<lambda>b. case assigned s b of None \<Rightarrow> None
                 | Some i \<Rightarrow> if locked (block_lock (bufs s i)) then Some (spid (block_lock (bufs s i))) else None),
      vtrace = wtrace s\<rparr>"

lemma absc_sel [simp]: "vblk (absc s) = blk s" "vdsk (absc s) = dsk s" "vtrace (absc s) = wtrace s"
  by (simp_all add: absc_def)

lemma assigned_Some:
  assumes "bio_inv s"
  shows "assigned s b = Some i \<longleftrightarrow> i < NBUF \<and> is_blk ROOTDEV b (bufs s i)"
proof
  assume "i < NBUF \<and> is_blk ROOTDEV b (bufs s i)"
  moreover have "\<not> is_blk ROOTDEV b (bufs s j)" if "j < i" for j
    using bio_uniq[OF assms, of j i] calculation that by auto
  ultimately show "assigned s b = Some i" unfolding assigned_def find_upt_Some by blast
qed (auto simp: assigned_def find_upt_Some)

lemma assigned_None: "assigned s b = None \<longleftrightarrow> (\<forall>i<NBUF. \<not> is_blk ROOTDEV b (bufs s i))"
  by (simp add: assigned_def find_upt_None)

lemma vref_at:
  "bio_inv s \<Longrightarrow> i < NBUF \<Longrightarrow> is_blk ROOTDEV b (bufs s i) \<Longrightarrow> vref (absc s) b = refcnt (bufs s i)"
  "bio_inv s \<Longrightarrow> i < NBUF \<Longrightarrow> is_blk ROOTDEV b (bufs s i) \<Longrightarrow>
     vlock (absc s) b = (if locked (block_lock (bufs s i)) then Some (spid (block_lock (bufs s i))) else None)"
  using assigned_Some[of s b i] by (simp_all add: absc_def)

lemma vref_none:
  "\<forall>i<NBUF. \<not> is_blk ROOTDEV b (bufs s i) \<Longrightarrow> vref (absc s) b = 0 \<and> vlock (absc s) b = None"
  using assigned_None[of s b] by (simp add: absc_def)

lemma vref_cases:
  assumes "bio_inv s"
  obtains i where "i < NBUF" "is_blk ROOTDEV b (bufs s i)" "vref (absc s) b = refcnt (bufs s i)"
  | "\<forall>i<NBUF. \<not> is_blk ROOTDEV b (bufs s i)" "vref (absc s) b = 0" "vlock (absc s) b = None"
proof (cases "\<forall>i<NBUF. \<not> is_blk ROOTDEV b (bufs s i)")
  case True
  then show ?thesis using vref_none[of s b] that(2) by simp
next
  case False
  then obtain i where "i < NBUF" "is_blk ROOTDEV b (bufs s i)" by blast
  then show ?thesis using vref_at(1)[OF assms, of i b] that(1) by simp
qed

lemma holds_v:
  assumes "bio_inv s" "holds me i b s"
  shows "vlock (absc s) b = Some me" "vref (absc s) b = refcnt (bufs s i)" "0 < vref (absc s) b"
  using assms vref_at[OF assms(1), of i b] holds_refcnt[OF assms]
  by (auto simp: holds_def caches_def holdingsleep_def)

lemma vref_nonneg: "bio_inv s \<Longrightarrow> 0 \<le> vref (absc s) b"
  by (rule vref_cases[of s b]) (auto dest: bio_inv_buf_ok simp: buf_ok_def)

text \<open>The abstraction of a state in which buffer \<^term>\<open>i\<close> changed.\<close>

lemma vref_upd:
  assumes "bio_inv s" "bio_inv s'" "i < NBUF" "\<And>j. j \<noteq> i \<Longrightarrow> core (bufs s' j) = core (bufs s j)"
    and "is_blk ROOTDEV b (bufs s' i)" "is_blk ROOTDEV b (bufs s i) \<or> refcnt (bufs s i) = 0"
    and "c \<noteq> b"
  shows "vref (absc s') c = vref (absc s) c" "vlock (absc s') c = vlock (absc s) c"
proof -
  have e: "is_blk ROOTDEV c (bufs s' j) = is_blk ROOTDEV c (bufs s j)" "refcnt (bufs s' j) = refcnt (bufs s j)"
    "block_lock (bufs s' j) = block_lock (bufs s j)" if "j \<noteq> i" for j
    using core_eqD[OF assms(4)[OF that]] by auto
  have ni: "\<not> is_blk ROOTDEV c (bufs s' i)" using assms(5,7) by auto
  show "vref (absc s') c = vref (absc s) c" "vlock (absc s') c = vlock (absc s) c"
  proof -
    consider j where "j \<noteq> i" "j < NBUF" "is_blk ROOTDEV c (bufs s j)" | "is_blk ROOTDEV c (bufs s i)"
      | "\<forall>j<NBUF. \<not> is_blk ROOTDEV c (bufs s j)" by metis
    then have "vref (absc s') c = vref (absc s) c \<and> vlock (absc s') c = vlock (absc s) c"
    proof cases
      case 1
      then show ?thesis using e[of j] vref_at[OF assms(1), of j c] vref_at[OF assms(2), of j c] by simp
    next
      case 2
      have z: "refcnt (bufs s i) = 0" using 2 assms(6,7) by auto
      have "\<forall>j<NBUF. \<not> is_blk ROOTDEV c (bufs s' j)"
        using bio_uniq[OF assms(1) assms(3)] 2 e ni by metis
      then show ?thesis
        using vref_none[of s' c] vref_at[OF assms(1,3) 2] z bio_inv_buf_ok[OF assms(1,3)]
        by (simp add: buf_ok_def)
    next
      case 3
      then have "\<forall>j<NBUF. \<not> is_blk ROOTDEV c (bufs s' j)" using e ni by metis
      then show ?thesis using 3 vref_none[of s c] vref_none[of s' c] by simp
    qed
    then show "vref (absc s') c = vref (absc s) c" "vlock (absc s') c = vlock (absc s) c" by blast+
  qed
qed

lemma vcache_eqI:
  "vblk v = vblk w \<Longrightarrow> vdsk v = vdsk w \<Longrightarrow> vtrace v = vtrace w \<Longrightarrow>
   (\<And>c. vref v c = vref w c) \<Longrightarrow> (\<And>c. vlock v c = vlock w c) \<Longrightarrow> v = (w :: vcache)"
  by (cases v; cases w) (auto simp: fun_eq_iff)

section \<open>The operations refine the abstract ones\<close>

text \<open>Only the cache and the disk changed.\<close>

definition bframe :: "'a bcache_scheme \<Rightarrow> 'a bcache_scheme \<Rightarrow> bool" where
  "bframe s s' \<longleftrightarrow> (\<exists>B D W K. s' = s\<lparr>bufs := B, dsk := D, wtrace := W, woken := K\<rparr>)"

lemma bframe_refl [simp, intro]: "bframe s s"
  unfolding bframe_def by (rule exI[of _ "bufs s"], rule exI[of _ "dsk s"], rule exI[of _ "wtrace s"], rule exI[of _ "woken s"]) simp

lemma bframe_trans [trans]: "bframe s t \<Longrightarrow> bframe t u \<Longrightarrow> bframe s u"
  unfolding bframe_def by (elim exE) (simp, blast)

lemma bframeI: "bframe s (s\<lparr>bufs := B, dsk := D, wtrace := W, woken := K\<rparr>)"
  unfolding bframe_def by blast

lemma bcache_upd_commute: "(s :: 'a bcache_scheme)\<lparr>woken := K, bufs := B\<rparr> = s\<lparr>bufs := B, woken := K\<rparr>"
  by (cases s) simp

lemma bframe_upd_buf: "bframe s (upd_buf i f s)"
  using bframeI[where s = s and B = "(bufs s)(i := f (bufs s i))" and D = "dsk s" and W = "wtrace s" and K = "woken s"] by (simp add: upd_buf_def)

lemma bframe_upd_bufI: "bframe s t \<Longrightarrow> bframe s (upd_buf i f t)"
  by (rule bframe_trans[OF _ bframe_upd_buf])

lemma bframe_sel:
  "bframe s s' \<Longrightarrow> bcache.more s' = bcache.more s" "bframe s s' \<Longrightarrow> pmem s' = pmem s"
  "bframe s s' \<Longrightarrow> kend s' = kend s" "bframe s s' \<Longrightarrow> freelist s' = freelist s"
  "bframe s s' \<Longrightarrow> rnext s' = rnext s" "bframe s s' \<Longrightarrow> rref s' = rref s"
  by (auto simp: bframe_def)

text \<open>The operations touch nothing else, whatever the state.\<close>

lemma bread_frame: "bread me dev b s = Inr (i, s') \<Longrightarrow> bframe s s'"
  unfolding bread_def bget_def lock_buf_def
  by (auto simp: res_simps virtio_disk_rw_def split: option.splits if_splits
      intro!: bframe_upd_bufI)

lemma bwrite_frame: "bwrite me i s = Inr s' \<Longrightarrow> bframe s s'"
  using bframeI[where s = s and B = "bufs s" and K = "woken s"]
  by (auto simp: bwrite_def virtio_disk_rw_def split: if_splits)

lemma brelse_frame: "brelse me i s = Inr s' \<Longrightarrow> bframe s s'"
proof -
  assume a: "brelse me i s = Inr s'"
  have w: "bframe s (s\<lparr>woken := K\<rparr>)" for K
    using bframeI[where s = s and B = "bufs s" and D = "dsk s" and W = "wtrace s" and K = K] by simp
  have m: "bframe t (link_front b (unlink b t))" for b and t :: "'a bcache_scheme"
    unfolding link_front_def unlink_def Let_def
    by (intro bframe_upd_bufI bframe_refl)
  have r: "bframe s (upd_buf i released (s\<lparr>woken := ChBuf i # woken s\<rparr>))"
    by (rule bframe_trans[OF w bframe_upd_buf])
  show ?thesis
    using a r bframe_trans[OF r m] by (auto simp: brelse_eq Let_def split: if_splits)
qed

lemma set_data_frame: "bframe s (set_data i f s)"
  and bpin_frame: "bframe s (bpin i s)" and bunpin_frame: "bframe s (bunpin i s)"
  unfolding set_data_def bpin_def bunpin_def by (rule bframe_upd_buf)+

lemma frame_dests:
  "bframe (set_data i f t) u \<Longrightarrow> bframe t u" "bframe (bpin i t) u \<Longrightarrow> bframe t u" "bframe (bunpin i t) u \<Longrightarrow> bframe t u"
  using set_data_frame bpin_frame bunpin_frame by (blast intro: bframe_trans)+

lemmas bio_frames = bread_frame bwrite_frame brelse_frame frame_dests

lemma bread_v:
  assumes "bio_inv s" "bread me ROOTDEV b s = Inr (i, s')"
  shows "absc s' = v_bread me b (absc s)" "bio_inv s'" "holds me i b s'" "bframe s s'"
proof -
  note sp = bread_spec[OF assms]
  obtain xs where "lru s xs" using bio_inv_lru[OF assms(1)] by blast
  note r = bread_Inr[OF this assms(2)]
  show inv: "bio_inv s'" and h: "holds me i b s'" using sp by blast+
  have s': "s' = upd_buf i (\<lambda>_. bufs s' i) s" by (rule sp(6))
  show "bframe s s'" by (subst s') (rule bframe_upd_buf)
  have i: "i < NBUF" and bi: "is_blk ROOTDEV b (bufs s' i)" using h by (auto simp: holds_def caches_def)
  have old: "is_blk ROOTDEV b (bufs s i) \<or> refcnt (bufs s i) = 0" using r by blast
  have tr: "wtrace s' = wtrace s" by (subst s') simp
  have core: "core (bufs s' j) = core (bufs s j)" if "j \<noteq> i" for j
    using that by (subst s') simp
  have "vref (absc s') b = vref (absc s) b + 1"
  proof -
    have "vref (absc s') b = refcnt (bufs s' i)" by (rule vref_at(1)[OF inv i bi])
    moreover have "refcnt (bufs s' i) = vref (absc s) b + 1"
      using r vref_at(1)[OF assms(1) i, of b] vref_none[of s b] by (auto simp: hit_buf_def miss_buf_def)
    ultimately show ?thesis by simp
  qed
  moreover have "vlock (absc s') b = Some me" by (rule holds_v(1)[OF inv h])
  ultimately show "absc s' = v_bread me b (absc s)"
    using vref_upd[OF assms(1) inv i core bi old] sp(4,5) tr
    by (intro vcache_eqI) (auto simp: v_bread_def)
qed

lemma referenced_blocks:
  assumes "bio_inv s"
  shows "{c. 0 < vref (absc s) c} = (\<lambda>i. blockno (bufs s i)) ` {i. i < NBUF \<and> 0 < refcnt (bufs s i)}"
proof -
  have "0 < vref (absc s) c \<longleftrightarrow> (\<exists>i<NBUF. 0 < refcnt (bufs s i) \<and> blockno (bufs s i) = c)" for c
  proof
    assume "0 < vref (absc s) c"
    then show "\<exists>i<NBUF. 0 < refcnt (bufs s i) \<and> blockno (bufs s i) = c"
      by (rule_tac vref_cases[OF assms, of c]) auto
  next
    assume "\<exists>i<NBUF. 0 < refcnt (bufs s i) \<and> blockno (bufs s i) = c"
    then obtain i where i: "i < NBUF" "0 < refcnt (bufs s i)" "blockno (bufs s i) = c" by blast
    then have "is_blk ROOTDEV c (bufs s i)" using bio_inv_buf_ok[OF assms i(1)] by (auto simp: buf_ok_def)
    then show "0 < vref (absc s) c" using vref_at(1)[OF assms i(1)] i(2) by simp
  qed
  then show ?thesis by auto
qed

lemma finite_referenced: "bio_inv s \<Longrightarrow> finite {c. 0 < vref (absc s) c}"
  by (simp add: referenced_blocks)

lemma bread_avail:
  assumes "bio_inv s" "v_avail b (absc s)"
  shows "\<exists>i s'. bread me ROOTDEV b s = Inr (i, s')"
proof (cases "bread me ROOTDEV b s")
  case (Inr r)
  then show ?thesis by (cases r) auto
next
  case (Inl e)
  obtain xs where xs: "lru s xs" using bio_inv_lru[OF assms(1)] by blast
  from bread_Inl[OF xs Inl] show ?thesis
  proof
    assume p: "e = Panic ''bget: no buffers'' \<and> (\<forall>j<NBUF. \<not> is_blk ROOTDEV b (bufs s j)) \<and> (\<forall>j<NBUF. refcnt (bufs s j) \<noteq> 0)"
    have rt: "0 < refcnt (bufs s j) \<and> bdev (bufs s j) = ROOTDEV" if "j < NBUF" for j
      using p that bio_inv_buf_ok[OF assms(1) that] by (auto simp: buf_ok_def)
    then have "{i. i < NBUF \<and> 0 < refcnt (bufs s i)} = {..<NBUF}" by auto
    moreover have "inj_on (\<lambda>i. blockno (bufs s i)) {..<NBUF}"
      using bio_uniq[OF assms(1)] rt by (auto simp: inj_on_def)
    ultimately have "card {c. 0 < vref (absc s) c} = NBUF"
      by (simp add: referenced_blocks[OF assms(1)] card_image)
    moreover have "vref (absc s) b = 0" using p vref_none[of s b] by simp
    ultimately show ?thesis using assms(2) by (simp add: v_avail_def)
  next
    assume "\<exists>i<NBUF. e = Sleeps (ChBuf i) \<and> locked (block_lock (bufs s i)) \<and>
       (is_blk ROOTDEV b (bufs s i) \<or> refcnt (bufs s i) = 0)"
    then obtain i where i: "i < NBUF" "locked (block_lock (bufs s i))" "is_blk ROOTDEV b (bufs s i) \<or> refcnt (bufs s i) = 0"
      by blast
    then have "is_blk ROOTDEV b (bufs s i)" using bio_inv_buf_ok[OF assms(1) i(1)] by (auto simp: buf_ok_def)
    then show ?thesis using vref_at(2)[OF assms(1) i(1)] i(2) assms(2) by (simp add: v_avail_def)
  qed
qed

lemma brelse_v:
  assumes "bio_inv s" "holds me i b s" "vref (absc s) b = 1 \<Longrightarrow> blk s b = dsk s b"
  obtains s' where "brelse me i s = Inr s'" "bio_inv s'" "absc s' = v_brelse b (absc s)" "bframe s s'"
    "\<And>me' j c. c \<noteq> b \<Longrightarrow> holds me' j c s \<Longrightarrow> holds me' j c s'"
proof -
  note v = holds_v[OF assms(1,2)]
  obtain s' where s': "brelse me i s = Inr s'" "bio_inv s'" "blk s' = blk s" "dsk s' = dsk s"
    "s' = s\<lparr>woken := ChBuf i # woken s, bufs := bufs s'\<rparr>"
    "\<And>j. core (bufs s' j) = core (if j = i then released (bufs s i) else bufs s j)"
    by (rule brelse_spec[OF assms(1,2)]) (use assms(3) v in auto)
  have i: "i < NBUF" and bi: "is_blk ROOTDEV b (bufs s i)" using assms(2) by (auto simp: holds_def caches_def)
  have ci: "core (bufs s' i) = core (released (bufs s i))" using s'(6)[of i] by simp
  then have bi': "is_blk ROOTDEV b (bufs s' i)" "refcnt (bufs s' i) = refcnt (bufs s i) - 1"
    "\<not> locked (block_lock (bufs s' i))"
    using bi core_eqD[OF ci] by (auto simp: released_def)
  have cj: "core (bufs s' j) = core (bufs s j)" if "j \<noteq> i" for j using s'(6)[of j] that by simp
  have fr: "bframe s s'"
    using bframeI[where s = s and B = "bufs s'" and D = "dsk s" and W = "wtrace s" and K = "ChBuf i # woken s"]
    by (subst s'(5)) (simp add: bcache_upd_commute)
  have tr: "wtrace s' = wtrace s" by (subst s'(5)) simp
  have "vref (absc s') b = vref (absc s) b - 1" "vlock (absc s') b = None"
    using vref_at[OF s'(2) i bi'(1)] v(2) bi' by simp_all
  then have "absc s' = v_brelse b (absc s)"
    using vref_upd[OF assms(1) s'(2) i cj bi'(1)] bi s'(3,4) tr
    by (intro vcache_eqI) (auto simp: v_brelse_def)
  moreover have "holds me' j c s'" if "c \<noteq> b" "holds me' j c s" for me' j c
  proof -
    have "j \<noteq> i" using that bi by (auto simp: holds_def caches_def)
    from core_eqD[OF cj[OF this]] show ?thesis using that(2) by (simp add: holds_def caches_def)
  qed
  ultimately show thesis using that s'(1,2) fr by blast
qed

lemma bread_holds:
  assumes "bio_inv s" "bread me ROOTDEV b s = Inr (i, s')" "holds me' j c s"
  shows "holds me' j c s'" "j \<noteq> i"
proof -
  note sp = bread_spec[OF assms(1,2)]
  show "j \<noteq> i" using sp(7) assms(3) by (auto simp: holds_def holdingsleep_def)
  then have "bufs s' j = bufs s j" by (subst sp(6)) simp
  then show "holds me' j c s'" using assms(3) by (simp add: holds_def)
qed

lemma upd_buf_v:
  assumes "bio_inv s" "bio_inv (upd_buf i f s)" "i < NBUF" "is_blk ROOTDEV b (bufs s i)" "is_blk ROOTDEV b (f (bufs s i))"
  shows "vref (absc (upd_buf i f s)) = (vref (absc s))(b := refcnt (f (bufs s i)))"
    "block_lock (f (bufs s i)) = block_lock (bufs s i) \<Longrightarrow> vlock (absc (upd_buf i f s)) = vlock (absc s)"
proof -
  have o: "vref (absc (upd_buf i f s)) c = vref (absc s) c" "vlock (absc (upd_buf i f s)) c = vlock (absc s) c"
    if "c \<noteq> b" for c
    using vref_upd[OF assms(1,2,3) _ _ _ that] assms(4,5) by auto
  have a: "vref (absc (upd_buf i f s)) b = refcnt (f (bufs s i))"
    "vlock (absc (upd_buf i f s)) b = (if locked (block_lock (f (bufs s i))) then Some (spid (block_lock (f (bufs s i)))) else None)"
    using vref_at[OF assms(2,3)] assms(5) by auto
  show "vref (absc (upd_buf i f s)) = (vref (absc s))(b := refcnt (f (bufs s i)))"
    using o(1) a(1) by auto
  show "vlock (absc (upd_buf i f s)) = vlock (absc s)" if "block_lock (f (bufs s i)) = block_lock (bufs s i)"
  proof
    fix c
    show "vlock (absc (upd_buf i f s)) c = vlock (absc s) c"
      using o(2)[of c] a(2) vref_at(2)[OF assms(1,3,4)] that by (cases "c = b") simp_all
  qed
qed

lemma holds_upd_data:
  "holds me' j c s \<Longrightarrow> (\<And>x. bdev (f x) = bdev x \<and> blockno (f x) = blockno x \<and> valid (f x) = valid x \<and> block_lock (f x) = block_lock x) \<Longrightarrow>
   holds me' j c (upd_buf i f s)"
  by (auto simp: holds_def caches_def)

lemma set_data_v:
  assumes "bio_inv s" "holds me i b s"
  shows "absc (set_data i f s) = v_set b f (absc s)" "bio_inv (set_data i f s)" "bframe s (set_data i f s)"
    "holds me' j c s \<Longrightarrow> holds me' j c (set_data i f s)"
proof -
  note sp = set_data_spec[OF assms, of f]
  have i: "i < NBUF" "is_blk ROOTDEV b (bufs s i)" using assms(2) by (auto simp: holds_def caches_def)
  show "bio_inv (set_data i f s)" by (rule sp(1))
  note u = upd_buf_v[OF assms(1) sp(1)[unfolded set_data_def] i]
  show "absc (set_data i f s) = v_set b f (absc s)"
    using u sp(3) i vref_at(1)[OF assms(1) i] unfolding set_data_def
    by (intro vcache_eqI) (auto simp: v_set_def)
  show "bframe s (set_data i f s)" unfolding set_data_def by (rule bframe_upd_buf)
  show "holds me' j c s \<Longrightarrow> holds me' j c (set_data i f s)"
    unfolding set_data_def by (rule holds_upd_data) auto
qed

lemma pin_v:
  assumes "bio_inv s" "holds me i b s"
  shows "absc (bpin i s) = v_pin b 1 (absc s)" "bio_inv (bpin i s)" "bframe s (bpin i s)"
    "holds me' j c s \<Longrightarrow> holds me' j c (bpin i s)"
proof -
  note sp = bpin_spec[OF assms]
  have i: "i < NBUF" "is_blk ROOTDEV b (bufs s i)" using assms(2) by (auto simp: holds_def caches_def)
  show "bio_inv (bpin i s)" by (rule sp(1))
  note u = upd_buf_v[OF assms(1) sp(1)[unfolded bpin_def] i]
  show "absc (bpin i s) = v_pin b 1 (absc s)"
    using u sp(3) i vref_at(1)[OF assms(1) i] unfolding bpin_def
    by (intro vcache_eqI) (auto simp: v_pin_def)
  show "bframe s (bpin i s)" unfolding bpin_def by (rule bframe_upd_buf)
  show "holds me' j c s \<Longrightarrow> holds me' j c (bpin i s)"
    unfolding bpin_def by (rule holds_upd_data) auto
qed

lemma unpin_v:
  assumes "bio_inv s" "holds me i b s" "1 < vref (absc s) b"
  shows "absc (bunpin i s) = v_pin b (-1) (absc s)" "bio_inv (bunpin i s)" "bframe s (bunpin i s)"
    "holds me' j c s \<Longrightarrow> holds me' j c (bunpin i s)"
proof -
  note sp = bunpin_spec[OF assms(1,2)]
  have i: "i < NBUF" "is_blk ROOTDEV b (bufs s i)" using assms(2) by (auto simp: holds_def caches_def)
  have r: "1 < refcnt (bufs s i)" using assms(3) vref_at(1)[OF assms(1) i] by simp
  show "bio_inv (bunpin i s)" by (rule sp(1)[OF r])
  note u = upd_buf_v[OF assms(1) sp(1)[OF r, unfolded bunpin_def] i]
  show "absc (bunpin i s) = v_pin b (-1) (absc s)"
    using u sp(3)[OF r] i vref_at(1)[OF assms(1) i] unfolding bunpin_def
    by (intro vcache_eqI) (auto simp: v_pin_def)
  show "bframe s (bunpin i s)" unfolding bunpin_def by (rule bframe_upd_buf)
  show "holds me' j c s \<Longrightarrow> holds me' j c (bunpin i s)"
    unfolding bunpin_def by (rule holds_upd_data) auto
qed

lemma absc_bufs: "bufs s' = bufs s \<Longrightarrow> vref (absc s') = vref (absc s) \<and> vlock (absc s') = vlock (absc s)"
  by (simp add: absc_def assigned_def cong: option.case_cong if_cong)

lemma bwrite_v:
  assumes "bio_inv s" "holds me i b s"
  obtains s' where "bwrite me i s = Inr s'" "absc s' = v_bwrite b (absc s)" "bio_inv s'" "bframe s s'"
    "\<And>me' j c. holds me' j c s \<Longrightarrow> holds me' j c s'"
proof -
  let ?s = "s\<lparr>dsk := (dsk s)(b := blk s b), wtrace := (b, blk s b) # wtrace s\<rparr>"
  note sp = bwrite_spec[OF assms]
  have "absc ?s = v_bwrite b (absc s)"
    using absc_bufs[of ?s s] sp(3) by (intro vcache_eqI) (auto simp: v_bwrite_def)
  moreover have "bframe s ?s"
    using bframeI[where s = s and B = "bufs s" and D = "(dsk s)(b := blk s b)" and W = "(b, blk s b) # wtrace s" and K = "woken s"]
    by simp
  moreover have "\<And>me' j c. holds me' j c s \<Longrightarrow> holds me' j c ?s" by (simp add: holds_def)
  ultimately show thesis using that sp(1,2) by blast
qed

section \<open>Property\<close>

text \<open>C8. The buffer cache implements the abstract cache: in every state that satisfies its invariant, bread
  succeeds whenever the block is unlocked and is referenced or fewer than NBUF blocks are, and then,
  like brelse, bwrite, bpin, bunpin and stores through a held buffer, it acts on the contents, the
  disk, the reference counts and the locks exactly as the one-line abstract operation does.\<close>

theorem bcache_refines:
  assumes "bio_inv s"
  shows "(v_avail b (absc s) \<longrightarrow> (\<exists>i s'. bread me ROOTDEV b s = Inr (i, s') \<and> bio_inv s' \<and> holds me i b s' \<and>
           bdata (bufs s' i) = vblk (absc s) b \<and> absc s' = v_bread me b (absc s))) \<and>
    (holds me i b s \<longrightarrow> bio_inv (set_data i f s) \<and> absc (set_data i f s) = v_set b f (absc s)) \<and>
    (holds me i b s \<longrightarrow> (\<exists>s'. bwrite me i s = Inr s' \<and> bio_inv s' \<and> absc s' = v_bwrite b (absc s))) \<and>
    (holds me i b s \<longrightarrow> bio_inv (bpin i s) \<and> absc (bpin i s) = v_pin b 1 (absc s)) \<and>
    (holds me i b s \<and> 1 < vref (absc s) b \<longrightarrow> bio_inv (bunpin i s) \<and> absc (bunpin i s) = v_pin b (-1) (absc s)) \<and>
    (holds me i b s \<and> (vref (absc s) b = 1 \<longrightarrow> blk s b = dsk s b) \<longrightarrow>
           (\<exists>s'. brelse me i s = Inr s' \<and> bio_inv s' \<and> absc s' = v_brelse b (absc s)))"
proof (intro conjI)
  show "v_avail b (absc s) \<longrightarrow> (\<exists>i s'. bread me ROOTDEV b s = Inr (i, s') \<and> bio_inv s' \<and> holds me i b s' \<and>
           bdata (bufs s' i) = vblk (absc s) b \<and> absc s' = v_bread me b (absc s))"
    using bread_avail[OF assms, of b me] bread_v[OF assms, of me b] bread_spec(3)[OF assms, of me b] by (metis absc_sel(1))
  show "holds me i b s \<longrightarrow> bio_inv (set_data i f s) \<and> absc (set_data i f s) = v_set b f (absc s)"
    using set_data_v(1,2)[OF assms] by blast
  show "holds me i b s \<longrightarrow> (\<exists>s'. bwrite me i s = Inr s' \<and> bio_inv s' \<and> absc s' = v_bwrite b (absc s))"
    using bwrite_v[OF assms] by metis
  show "holds me i b s \<longrightarrow> bio_inv (bpin i s) \<and> absc (bpin i s) = v_pin b 1 (absc s)"
    using pin_v(1,2)[OF assms] by blast
  show "holds me i b s \<and> 1 < vref (absc s) b \<longrightarrow> bio_inv (bunpin i s) \<and> absc (bunpin i s) = v_pin b (-1) (absc s)"
    using unpin_v(1,2)[OF assms] by blast
  show "holds me i b s \<and> (vref (absc s) b = 1 \<longrightarrow> blk s b = dsk s b) \<longrightarrow>
           (\<exists>s'. brelse me i s = Inr s' \<and> bio_inv s' \<and> absc s' = v_brelse b (absc s))"
    using brelse_v[OF assms, of me i b] by metis
qed

theorem bcache_refines_witness:
  "bio_inv (binit bcache0) \<and> (\<exists>i s'. bread 7 ROOTDEV 5 (binit bcache0) = Inr (i, s') \<and> bdata (bufs s' i) = (\<lambda>_. 5))"
proof -
  have inv: "bio_inv (binit bcache0)" and d: "blk (binit bcache0) = dsk bcache0"
    using binit_inv[OF bufs_bcache0] by auto
  have "\<forall>i<NBUF. \<not> is_blk ROOTDEV b (bufs (binit bcache0) i)" for b
    using binit_inv(4)[OF bufs_bcache0] by (simp add: ROOTDEV_def)
  then have z: "vref (absc (binit bcache0)) b = 0 \<and> vlock (absc (binit bcache0)) b = None" for b
    using vref_none[of "binit bcache0" b] by blast
  then have "v_avail 5 (absc (binit bcache0))" by (simp add: v_avail_def NBUF_def MAXOPBLOCKS_def)
  with bcache_refines[OF inv, where b = 5 and me = 7]
  obtain i s' where "bread 7 ROOTDEV 5 (binit bcache0) = Inr (i, s')" "bdata (bufs s' i) = vblk (absc (binit bcache0)) 5"
    by blast
  moreover have "dsk bcache0 5 = (\<lambda>_. 5)" by (simp add: bcache0_def phys.defs phys0_def)
  ultimately show ?thesis using inv d by auto
qed

end
