(* ===== verification/Xv6_Log.thy ===== *)
theory Xv6_Log
  imports Xv6_Bview
begin

text \<open>
  The write-ahead log, \<^verbatim>\<open>kernel/log.c\<close>. The state extends the buffer cache with \<^verbatim>\<open>struct log\<close>; the
  on-disk header is the block at \<^verbatim>\<open>log.start\<close>, read and written as bytes. \<^verbatim>\<open>begin_op\<close> is one test of
  its loop: a caller that must wait sleeps on the log and runs it again when woken. The disk records
  the writes it performed, so that a crash is a prefix of that trace, and a reboot runs \<^verbatim>\<open>binit\<close> and
  \<^verbatim>\<open>initlog\<close> on the disk the prefix leaves.
\<close>

section \<open>State and operations\<close>

definition LOGSIZE :: nat where "LOGSIZE = MAXOPBLOCKS * 3"

record logst = bcache +
  lstart :: nat
  lsize :: int
  outstanding :: int
  committing :: bool
  ldev :: nat
  ln :: int                        \<comment> \<open>\<^verbatim>\<open>log.lh.n\<close>\<close>
  lblock :: "nat \<Rightarrow> nat"           \<comment> \<open>\<^verbatim>\<open>log.lh.block[i]\<close>\<close>

definition install_step :: "int \<Rightarrow> bool \<Rightarrow> nat \<Rightarrow> 'a logst_scheme \<Rightarrow> 'a logst_scheme res" where
  "install_step me recovering tail s =
     bindR (bread me (ldev s) (lstart s + tail + 1) s) (\<lambda>(lbuf, s).
     bindR (bread me (ldev s) (lblock s tail) s) (\<lambda>(dbuf, s).
     let s = set_data dbuf (\<lambda>_. bdata (bufs s lbuf)) s in
     bindR (bwrite me dbuf s) (\<lambda>s.
     let s = (if recovering then s else bunpin dbuf s) in
     bindR (brelse me lbuf s) (brelse me dbuf))))"

definition install_trans :: "int \<Rightarrow> bool \<Rightarrow> 'a logst_scheme \<Rightarrow> 'a logst_scheme res" where
  "install_trans me recovering s = forR (install_step me recovering) [0..<nat (ln s)] s"

definition hdr_n :: "block \<Rightarrow> int" where
  "hdr_n d = sint (rd32 d 0)"

definition hdr_block :: "block \<Rightarrow> nat \<Rightarrow> nat" where
  "hdr_block d i = unat (rd32 d (4 + 4 * i))"

definition read_head :: "int \<Rightarrow> 'a logst_scheme \<Rightarrow> 'a logst_scheme res" where
  "read_head me s =
     bindR (bread me (ldev s) (lstart s) s) (\<lambda>(buf, s).
     let d = bdata (bufs s buf);
         s = s\<lparr>ln := hdr_n d\<rparr>;
         s = fold (\<lambda>i s. s\<lparr>lblock := (lblock s)(i := hdr_block d i)\<rparr>) [0..<nat (ln s)] s
     in brelse me buf s)"

definition put_head :: "int \<Rightarrow> (nat \<Rightarrow> nat) \<Rightarrow> block \<Rightarrow> block" where
  "put_head n blks d = fold (\<lambda>i d. wr32 d (4 + 4 * i) (of_nat (blks i))) [0..<nat n] (wr32 d 0 (of_int n))"

definition write_head :: "int \<Rightarrow> 'a logst_scheme \<Rightarrow> 'a logst_scheme res" where
  "write_head me s =
     bindR (bread me (ldev s) (lstart s) s) (\<lambda>(buf, s).
     let s = set_data buf (put_head (ln s) (lblock s)) s in
     bindR (bwrite me buf s) (brelse me buf))"

definition recover_from_log :: "int \<Rightarrow> 'a logst_scheme \<Rightarrow> 'a logst_scheme res" where
  "recover_from_log me s =
     bindR (read_head me s) (\<lambda>s.
     bindR (install_trans me True s) (\<lambda>s.
     write_head me (s\<lparr>ln := 0\<rparr>)))"

definition sizeof_logheader :: nat where "sizeof_logheader = 4 + 4 * LOGSIZE"

definition initlog :: "int \<Rightarrow> nat \<Rightarrow> nat \<Rightarrow> nat \<Rightarrow> 'a logst_scheme \<Rightarrow> 'a logst_scheme res" where
  "initlog me dev sb_logstart sb_nlog s =
     (if sizeof_logheader \<ge> BSIZE then Inl (Panic ''initlog: too big logheader'')
      else recover_from_log me (s\<lparr>lstart := sb_logstart, lsize := int sb_nlog, ldev := dev\<rparr>))"

definition begin_op :: "'a logst_scheme \<Rightarrow> 'a logst_scheme res" where
  "begin_op s =
     (if committing s then Inl (Sleeps ChLog)
      else if ln s + (outstanding s + 1) * int MAXOPBLOCKS > int LOGSIZE then Inl (Sleeps ChLog)
      else Inr (s\<lparr>outstanding := outstanding s + 1\<rparr>))"

definition write_log_step :: "int \<Rightarrow> nat \<Rightarrow> 'a logst_scheme \<Rightarrow> 'a logst_scheme res" where
  "write_log_step me tail s =
     bindR (bread me (ldev s) (lstart s + tail + 1) s) (\<lambda>(to, s).
     bindR (bread me (ldev s) (lblock s tail) s) (\<lambda>(from, s).
     let s = set_data to (\<lambda>_. bdata (bufs s from)) s in
     bindR (bwrite me to s) (\<lambda>s.
     bindR (brelse me from s) (brelse me to))))"

definition write_log :: "int \<Rightarrow> 'a logst_scheme \<Rightarrow> 'a logst_scheme res" where
  "write_log me s = forR (write_log_step me) [0..<nat (ln s)] s"

definition commit :: "int \<Rightarrow> 'a logst_scheme \<Rightarrow> 'a logst_scheme res" where
  "commit me s =
     (if ln s > 0
      then bindR (write_log me s) (\<lambda>s.
           bindR (write_head me s) (\<lambda>s.
           bindR (install_trans me False s) (\<lambda>s.
           write_head me (s\<lparr>ln := 0\<rparr>))))
      else Inr s)"

definition end_op :: "int \<Rightarrow> 'a logst_scheme \<Rightarrow> 'a logst_scheme res" where
  "end_op me s =
     (let s = s\<lparr>outstanding := outstanding s - 1\<rparr> in
      if committing s then Inl (Panic ''log.committing'')
      else if outstanding s = 0
      then bindR (commit me (s\<lparr>committing := True\<rparr>)) (\<lambda>s.
             Inr (s\<lparr>committing := False, woken := ChLog # woken s\<rparr>))
      else Inr (s\<lparr>woken := ChLog # woken s\<rparr>))"

definition log_index :: "'a logst_scheme \<Rightarrow> nat \<Rightarrow> nat" where
  "log_index s b = (case find (\<lambda>i. lblock s i = b) [0..<nat (ln s)] of Some i \<Rightarrow> i | None \<Rightarrow> nat (ln s))"

definition log_write :: "nat \<Rightarrow> 'a logst_scheme \<Rightarrow> 'a logst_scheme res" where
  "log_write b s =
     (if ln s \<ge> int LOGSIZE \<or> ln s \<ge> lsize s - 1 then Inl (Panic ''too big a transaction'')
      else if outstanding s < 1 then Inl (Panic ''log_write outside of trans'')
      else let i = log_index s (blockno (bufs s b));
               s = s\<lparr>lblock := (lblock s)(i := blockno (bufs s b))\<rparr>
           in Inr (if int i = ln s then (bpin b s)\<lparr>ln := ln s + 1\<rparr> else s))"

section \<open>The header block\<close>

lemma put_head_spec:
  assumes "0 \<le> n" "n \<le> int LOGSIZE" "\<And>i. i < nat n \<Longrightarrow> blks i < 2 ^ 32"
  shows "hdr_n (put_head n blks d) = n" "i < nat n \<Longrightarrow> hdr_block (put_head n blks d) i = blks i"
proof -
  define e where "e = wr32 d 0 (of_int n :: uint32)"
  have f: "rd32 (fold (\<lambda>i d. wr32 d (4 + 4 * i) (of_nat (blks i))) [0..<k] e) 0 = rd32 e 0 \<and>
    (\<forall>i<k. rd32 (fold (\<lambda>i d. wr32 d (4 + 4 * i) (of_nat (blks i))) [0..<k] e) (4 + 4 * i) = of_nat (blks i))" for k
  proof (induction k)
    case 0
    then show ?case by simp
  next
    case (Suc k)
    then show ?case by (auto simp: rd_wr_disj rd_wr_same less_Suc_eq)
  qed
  have "rd32 e 0 = of_int n" by (simp add: e_def rd_wr_same)
  moreover have "sint (of_int n :: uint32) = n"
    using assms(1,2) by (simp add: int_word_sint LOGSIZE_def MAXOPBLOCKS_def)
  ultimately show "hdr_n (put_head n blks d) = n"
    using f[of "nat n"] by (simp add: hdr_n_def put_head_def e_def)
  show "hdr_block (put_head n blks d) i = blks i" if "i < nat n"
    using f[of "nat n"] that assms(3)[OF that] by (simp add: hdr_block_def put_head_def e_def unat_of_nat)
qed

section \<open>Steps of the log on the abstract cache\<close>

lemma logst_frame:
  "bframe s s' \<Longrightarrow> lstart s' = lstart s" "bframe s s' \<Longrightarrow> lsize s' = lsize s"
  "bframe s s' \<Longrightarrow> outstanding s' = outstanding s" "bframe s s' \<Longrightarrow> committing s' = committing s"
  "bframe s s' \<Longrightarrow> ldev s' = ldev s" "bframe s s' \<Longrightarrow> ln s' = ln s" "bframe s s' \<Longrightarrow> lblock s' = lblock s"
  "bframe s s' \<Longrightarrow> logst.more s' = logst.more s"
  by (auto simp: bframe_def)

lemmas v_defs = v_bread_def v_brelse_def v_set_def v_bwrite_def v_pin_def

text \<open>\<^verbatim>\<open>bread\<close> in one step: it succeeds, and the pieces of the abstract state it gives.\<close>

lemma bread_ok:
  assumes "bio_inv s" "dev = ROOTDEV" "vlock (absc s) b = None" "0 < vref (absc s) b \<or> card {c. 0 < vref (absc s) c} < NBUF"
  obtains i s' where "bread me dev b s = Inr (i, s')" "bio_inv s'" "holds me i b s'" "bframe s s'"
    "absc s' = v_bread me b (absc s)" "bdata (bufs s' i) = blk s b"
    "\<And>me' j c. holds me' j c s \<Longrightarrow> holds me' j c s'"
proof -
  have "v_avail b (absc s)" using assms(3,4) by (simp add: v_avail_def)
  then obtain i s' where r: "bread me ROOTDEV b s = Inr (i, s')" using bread_avail[OF assms(1)] by blast
  show thesis
    using that[of i s'] r bread_v[OF assms(1) r] bread_spec(3)[OF assms(1) r] bread_holds(1)[OF assms(1) r] assms(2)
    by blast
qed

lemma write_log_step_v:
  assumes "bio_inv s" "ldev s = ROOTDEV" "vlock (absc s) = (\<lambda>_. None)"
    and "c = lblock s t" "d = lstart s + t + 1" "c \<noteq> d" "0 < vref (absc s) c" "vref (absc s) d = 0"
    and "card {b. 0 < vref (absc s) b} < NBUF"
  obtains s' where "write_log_step me t s = Inr s'" "bio_inv s'" "bframe s s'"
    "absc s' = (absc s)\<lparr>vblk := (blk s)(d := blk s c), vdsk := (dsk s)(d := blk s c), vtrace := (d, blk s c) # wtrace s\<rparr>"
proof -
  obtain i s1 where s1: "bread me ROOTDEV d s = Inr (i, s1)" "bio_inv s1" "holds me i d s1" "bframe s s1"
    "absc s1 = v_bread me d (absc s)"
    by (rule bread_ok[OF assms(1) refl, where b = d and me = me]) (use assms in auto)
  obtain j s2 where s2: "bread me ROOTDEV c s1 = Inr (j, s2)" "bio_inv s2" "holds me j c s2" "bframe s1 s2"
    "absc s2 = v_bread me c (absc s1)" "bdata (bufs s2 j) = blk s1 c" "holds me i d s2"
    by (rule bread_ok[OF s1(2) refl, where b = c and me = me]) (use assms s1 in \<open>auto simp: v_defs\<close>)
  have b1: "blk s1 = blk s" "dsk s1 = dsk s" "wtrace s1 = wtrace s" "blk s2 = blk s" "dsk s2 = dsk s" "wtrace s2 = wtrace s"
    using s1(5) s2(5) absc_sel[of s1] absc_sel[of s2] by (simp_all add: v_defs)
  let ?s3 = "set_data i (\<lambda>_. blk s c) s2"
  note s3 = set_data_v[OF s2(2,7), where f = "\<lambda>_. blk s c"]
  obtain s4 where s4: "bwrite me i ?s3 = Inr s4" "absc s4 = v_bwrite d (absc ?s3)" "bio_inv s4" "bframe ?s3 s4"
    "holds me i d s4" "holds me j c s4"
    using bwrite_v[OF s3(2) s3(4)[OF s2(7)]] s3(4)[OF s2(7)] s3(4)[OF s2(3)] by metis
  have v4: "absc s4 = v_bwrite d (v_set d (\<lambda>_. blk s c) (v_bread me c (v_bread me d (absc s))))"
    using s4(2) s3(1) s2(5) s1(5) by simp
  have b4: "blk s4 = (blk s)(d := blk s c)" "dsk s4 = (dsk s)(d := blk s c)"
    using v4 absc_sel[of s4] by (simp_all add: v_defs)
  obtain s5 where s5: "brelse me j s4 = Inr s5" "bio_inv s5" "absc s5 = v_brelse c (absc s4)" "bframe s4 s5" "holds me i d s5"
    using brelse_v[OF s4(3,6)] s4(5) assms(6,7) v4 by (simp add: v_defs) (metis)
  have b5: "blk s5 = blk s4" "dsk s5 = dsk s4" using s5(3) absc_sel[of s5] by (simp_all add: v_defs)
  obtain s6 where s6: "brelse me i s5 = Inr s6" "bio_inv s6" "absc s6 = v_brelse d (absc s5)" "bframe s5 s6"
    using brelse_v[OF s5(2,5)] b4 b5 by (metis fun_upd_same)
  have "write_log_step me t s = Inr s6"
    using s1 s2 s4 s5 s6 assms(2,4,5) b1 logst_frame[OF s1(4)] by (simp add: write_log_step_def Let_def)
  moreover have "bframe s s6" using s1(4) s2(4) s3(3) s4(4) s5(4) s6(4) by (meson bframe_trans)
  moreover have "absc s6 = (absc s)\<lparr>vblk := (blk s)(d := blk s c), vdsk := (dsk s)(d := blk s c), vtrace := (d, blk s c) # wtrace s\<rparr>"
    using s6(3) s5(3) v4 assms(3,6) by (intro vcache_eqI) (auto simp: v_defs fun_eq_iff)
  ultimately show thesis using that s6(2) by blast
qed

lemma install_step_v:
  assumes "bio_inv s" "ldev s = ROOTDEV" "vlock (absc s) = (\<lambda>_. None)"
    and "c = lblock s t" "d = lstart s + t + 1" "c \<noteq> d" "vref (absc s) c = (if recovering then 0 else 1)" "vref (absc s) d = 0"
    and "card {b. 0 < vref (absc s) b} + (if recovering then 1 else 0) < NBUF" "blk s d = dsk s d"
  obtains s' where "install_step me recovering t s = Inr s'" "bio_inv s'" "bframe s s'"
    "absc s' = (absc s)\<lparr>vblk := (blk s)(c := blk s d), vdsk := (dsk s)(c := blk s d), vref := (vref (absc s))(c := 0),
       vtrace := (c, blk s d) # wtrace s\<rparr>"
proof -
  obtain i s1 where s1: "bread me ROOTDEV d s = Inr (i, s1)" "bio_inv s1" "holds me i d s1" "bframe s s1"
    "absc s1 = v_bread me d (absc s)"
    by (rule bread_ok[OF assms(1) refl, where b = d and me = me]) (use assms in auto)
  have "{c. 0 < vref (absc s1) c} = insert d {c. 0 < vref (absc s) c}"
    using s1(5) assms(8) by (auto simp: v_defs)
  then have cd: "card {c. 0 < vref (absc s1) c} \<le> Suc (card {c. 0 < vref (absc s) c})"
    using finite_referenced[OF assms(1)] by (simp add: card_insert_if)
  have lk: "vlock (absc s1) c = None" using s1(5) assms(3,6) by (simp add: v_defs)
  have av: "0 < vref (absc s1) c \<or> card {c. 0 < vref (absc s1) c} < NBUF"
  proof (cases recovering)
    case True
    then show ?thesis using cd assms(9) by simp
  next
    case False
    then show ?thesis using s1(5) assms(6,7) by (simp add: v_defs)
  qed
  obtain j s2 where s2: "bread me ROOTDEV c s1 = Inr (j, s2)" "bio_inv s2" "holds me j c s2" "bframe s1 s2"
    "absc s2 = v_bread me c (absc s1)" "holds me i d s2"
    by (rule bread_ok[OF s1(2) refl lk av, where me = me]) (use s1(3) in blast)
  have b2: "blk s2 = blk s" using s1(5) s2(5) absc_sel[of s2] by (simp add: v_defs)
  have l: "bdata (bufs s2 i) = blk s d" using holds_blk[OF s2(2,6)] b2 by simp
  let ?s3 = "set_data j (\<lambda>_. blk s d) s2"
  note s3 = set_data_v[OF s2(2,3), where f = "\<lambda>_. blk s d"]
  obtain s4 where s4: "bwrite me j ?s3 = Inr s4" "absc s4 = v_bwrite c (absc ?s3)" "bio_inv s4" "bframe ?s3 s4"
    "holds me i d s4" "holds me j c s4"
    using bwrite_v[OF s3(2) s3(4)[OF s2(3)]] s3(4)[OF s2(6)] s3(4)[OF s2(3)] by metis
  have v4: "absc s4 = v_bwrite c (v_set c (\<lambda>_. blk s d) (v_bread me c (v_bread me d (absc s))))"
    using s4(2) s3(1) s2(5) s1(5) by simp
  let ?k = "if recovering then 0 else -1"
  define s5 where "s5 = (if recovering then s4 else bunpin j s4)"
  have u: "\<not> recovering \<Longrightarrow> 1 < vref (absc s4) c" using v4 assms(6,7) by (simp add: v_defs)
  have s5: "bio_inv s5" "absc s5 = v_pin c ?k (absc s4)" "bframe s4 s5" "holds me i d s5" "holds me j c s5"
    using unpin_v[OF s4(3,6) u] s4 by (auto simp: s5_def v_defs)
  have b5: "blk s5 = (blk s)(c := blk s d)" "dsk s5 = (dsk s)(c := blk s d)"
    using s5(2) v4 absc_sel[of s5] by (simp_all add: v_defs)
  obtain s6 where s6: "brelse me i s5 = Inr s6" "bio_inv s6" "absc s6 = v_brelse d (absc s5)" "bframe s5 s6" "holds me j c s6"
    using brelse_v[OF s5(1,4)] s5(5) assms(6,10) b5 by (simp, metis)
  have b6: "blk s6 = blk s5" "dsk s6 = dsk s5" using s6(3) absc_sel[of s6] by (simp_all add: v_defs)
  obtain s7 where s7: "brelse me j s6 = Inr s7" "bio_inv s7" "absc s7 = v_brelse c (absc s6)" "bframe s6 s7"
    using brelse_v[OF s6(2,5)] b5 b6 by (metis fun_upd_same)
  have "install_step me recovering t s = Inr s7"
    using s1 s2 s4 s5_def s6 s7 assms(2,4,5) l logst_frame[OF s1(4)] by (simp add: install_step_def Let_def)
  moreover have "bframe s s7" using s1(4) s2(4) s3(3) s4(4) s5(3) s6(4) s7(4) by (meson bframe_trans)
  moreover have "absc s7 = (absc s)\<lparr>vblk := (blk s)(c := blk s d), vdsk := (dsk s)(c := blk s d), vref := (vref (absc s))(c := 0),
       vtrace := (c, blk s d) # wtrace s\<rparr>"
    using s7(3) s6(3) s5(2) v4 assms(3,6,7) by (intro vcache_eqI) (auto simp: v_defs fun_eq_iff)
  ultimately show thesis using that s7(2) by blast
qed

lemma write_head_v:
  assumes "bio_inv s" "ldev s = ROOTDEV" "vlock (absc s) = (\<lambda>_. None)" "L = lstart s"
    and "vref (absc s) L = 0" "card {b. 0 < vref (absc s) b} < NBUF"
    and "h = put_head (ln s) (lblock s) (blk s L)"
  obtains s' where "write_head me s = Inr s'" "bio_inv s'" "bframe s s'"
    "absc s' = (absc s)\<lparr>vblk := (blk s)(L := h), vdsk := (dsk s)(L := h), vtrace := (L, h) # wtrace s\<rparr>"
proof -
  let ?f = "put_head (ln s) (lblock s)"
  obtain i s1 where s1: "bread me ROOTDEV L s = Inr (i, s1)" "bio_inv s1" "holds me i L s1" "bframe s s1"
    "absc s1 = v_bread me L (absc s)"
    by (rule bread_ok[OF assms(1) refl, where b = L and me = me]) (use assms in auto)
  note s2 = set_data_v[OF s1(2,3), where f = ?f]
  obtain s3 where s3: "bwrite me i (set_data i ?f s1) = Inr s3" "absc s3 = v_bwrite L (absc (set_data i ?f s1))" "bio_inv s3"
    "bframe (set_data i ?f s1) s3" "holds me i L s3"
    using bwrite_v[OF s2(2) s2(4)[OF s1(3)]] s2(4)[OF s1(3)] by metis
  have v3: "absc s3 = v_bwrite L (v_set L ?f (v_bread me L (absc s)))"
    using s3(2) s2(1) s1(5) by simp
  have b3: "blk s3 = (blk s)(L := h)" "dsk s3 = (dsk s)(L := h)"
    using v3 absc_sel[of s3] assms(7) by (simp_all add: v_defs)
  obtain s4 where s4: "brelse me i s3 = Inr s4" "bio_inv s4" "absc s4 = v_brelse L (absc s3)" "bframe s3 s4"
    using brelse_v[OF s3(3,5)] b3 by (metis fun_upd_same)
  have "write_head me s = Inr s4"
    using s1 s3 s4 assms(2,4) logst_frame[OF s1(4)] by (simp add: write_head_def Let_def)
  moreover have "bframe s s4" using s1(4) s2(3) s3(4) s4(4) by (meson bframe_trans)
  moreover have "absc s4 = (absc s)\<lparr>vblk := (blk s)(L := h), vdsk := (dsk s)(L := h), vtrace := (L, h) # wtrace s\<rparr>"
    using s4(3) v3 assms(3,7) by (intro vcache_eqI) (auto simp: v_defs fun_eq_iff)
  ultimately show thesis using that s4(2) by blast
qed

section \<open>Sequences of disk writes\<close>

definition write_blocks :: "(nat \<times> block) list \<Rightarrow> (nat \<Rightarrow> block) \<Rightarrow> nat \<Rightarrow> block" where
  "write_blocks ws D = fold (\<lambda>(b, d) D. D(b := d)) ws D"

lemma write_blocks_Nil [simp]: "write_blocks [] D = D"
  and write_blocks_Cons [simp]: "write_blocks ((b, d) # ws) D = write_blocks ws (D(b := d))"
  and write_blocks_append: "write_blocks (ws @ vs) D = write_blocks vs (write_blocks ws D)"
  by (simp_all add: write_blocks_def)

lemma write_blocks_out: "b \<notin> fst ` set ws \<Longrightarrow> write_blocks ws D b = D b"
  by (induction ws arbitrary: D) auto

lemma write_blocks_in: "(b, d) \<in> set ws \<Longrightarrow> distinct (map fst ws) \<Longrightarrow> write_blocks ws D b = d"
proof (induction ws arbitrary: D)
  case (Cons w ws)
  show ?case
  proof (cases "(b, d) = w")
    case True
    then have "b \<notin> fst ` set ws" using Cons.prems(2) by (cases w) simp
    then show ?thesis using write_blocks_out[of b ws "D(b := d)"] True[symmetric] by simp
  next
    case False
    then show ?thesis using Cons by (cases w) auto
  qed
qed simp

lemma write_blocks_snoc: "write_blocks (ws @ [(b, d)]) D = (write_blocks ws D)(b := d)"
  by (simp add: write_blocks_append)

lemma absc_ext:
  assumes "bufs s' = bufs s" "dsk s' = dsk s" "wtrace s' = wtrace s"
  shows "absc s' = absc s" "bio_inv s' = bio_inv s" "holds me i b s' = holds me i b s"
proof -
  have "blk s' = blk s" by (rule blk_core) (simp_all add: assms)
  then show "absc s' = absc s" using absc_bufs[OF assms(1)] assms by (intro vcache_eqI) simp_all
  have "lru s' xs = lru s xs" for xs by (rule lru_cong) (simp_all add: assms)
  then show "bio_inv s' = bio_inv s" by (simp add: bio_inv_def assms)
  show "holds me i b s' = holds me i b s" by (simp add: holds_def assms)
qed

text \<open>The log occupies the header block \<^term>\<open>L\<close> and the \<^term>\<open>n\<close> blocks after it; the logged blocks lie outside.\<close>

definition log_writes :: "nat \<Rightarrow> (nat \<Rightarrow> block) \<Rightarrow> (nat \<Rightarrow> nat) \<Rightarrow> nat \<Rightarrow> (nat \<times> block) list" where
  "log_writes L V B k = map (\<lambda>t. (L + t + 1, V (B t))) [0..<k]"

definition install_writes :: "nat \<Rightarrow> (nat \<Rightarrow> block) \<Rightarrow> (nat \<Rightarrow> nat) \<Rightarrow> nat \<Rightarrow> (nat \<times> block) list" where
  "install_writes L V B k = map (\<lambda>t. (B t, V (L + t + 1))) [0..<k]"

lemma log_writes_Suc: "log_writes L V B (Suc k) = log_writes L V B k @ [(L + k + 1, V (B k))]"
  by (simp add: log_writes_def)

lemma install_writes_Suc: "install_writes L V B (Suc k) = install_writes L V B k @ [(B k, V (L + k + 1))]"
  by (simp add: install_writes_def)

lemma log_writes_out: "k \<le> n \<Longrightarrow> b \<notin> {L<..L + n} \<Longrightarrow> b \<notin> fst ` set (log_writes L V B k)"
  by (auto simp: log_writes_def)

lemma install_writes_out: "b \<notin> B ` {..<k} \<Longrightarrow> b \<notin> fst ` set (install_writes L V B k)"
  by (auto simp: install_writes_def)

lemma write_log_v:
  assumes "bio_inv s" "ldev s = ROOTDEV" "vlock (absc s) = (\<lambda>_. None)" "n = nat (ln s)"
    and "\<forall>t<n. lblock s t \<notin> {lstart s..lstart s + n} \<and> 0 < vref (absc s) (lblock s t) \<and> vref (absc s) (lstart s + t + 1) = 0"
    and "card {b. 0 < vref (absc s) b} < NBUF"
  shows "\<exists>s'. write_log me s = Inr s' \<and> bio_inv s' \<and> bframe s s' \<and>
    (let ws = log_writes (lstart s) (blk s) (lblock s) n in
     absc s' = (absc s)\<lparr>vblk := write_blocks ws (blk s), vdsk := write_blocks ws (dsk s), vtrace := rev ws @ wtrace s\<rparr>)"
proof -
  let ?ws = "log_writes (lstart s) (blk s) (lblock s)"
  have "\<exists>s'. forR (write_log_step me) [0..<k] s = Inr s' \<and> bio_inv s' \<and> bframe s s' \<and>
     absc s' = (absc s)\<lparr>vblk := write_blocks (?ws k) (blk s), vdsk := write_blocks (?ws k) (dsk s), vtrace := rev (?ws k) @ wtrace s\<rparr>"
    if "k \<le> n" for k
    using that
  proof (induction k)
    case 0
    then show ?case using assms(1) by (auto simp: log_writes_def intro!: vcache_eqI)
  next
    case (Suc k)
    then obtain s' where s': "forR (write_log_step me) [0..<k] s = Inr s'" "bio_inv s'" "bframe s s'"
      "absc s' = (absc s)\<lparr>vblk := write_blocks (?ws k) (blk s), vdsk := write_blocks (?ws k) (dsk s), vtrace := rev (?ws k) @ wtrace s\<rparr>"
      by auto
    note fr = logst_frame[OF s'(3)]
    have b: "blk s' = write_blocks (?ws k) (blk s)" "dsk s' = write_blocks (?ws k) (dsk s)" "wtrace s' = rev (?ws k) @ wtrace s"
      using s'(4) absc_sel[of s'] by simp_all
    have k: "lblock s k \<notin> {lstart s..lstart s + n}" "0 < vref (absc s) (lblock s k)" "vref (absc s) (lstart s + k + 1) = 0"
      using assms(5) Suc.prems by auto
    have c: "blk s' (lblock s k) = blk s (lblock s k)"
      unfolding b by (rule write_blocks_out, rule log_writes_out[of _ n]) (use k(1) Suc.prems in auto)
    obtain t where t: "write_log_step me k s' = Inr t" "bio_inv t" "bframe s' t"
      "absc t = (absc s')\<lparr>vblk := (blk s')(lstart s + k + 1 := blk s' (lblock s k)), vdsk := (dsk s')(lstart s + k + 1 := blk s' (lblock s k)),
         vtrace := (lstart s + k + 1, blk s' (lblock s k)) # wtrace s'\<rparr>"
      by (rule write_log_step_v[OF s'(2), of "lblock s k" k "lstart s + k + 1" me])
        (use assms(2,3,6) s'(4) fr k Suc.prems in auto)
    have "bframe s t" using s'(3) t(3) by (rule bframe_trans)
    moreover have "absc t = (absc s)\<lparr>vblk := write_blocks (?ws (Suc k)) (blk s), vdsk := write_blocks (?ws (Suc k)) (dsk s),
        vtrace := rev (?ws (Suc k)) @ wtrace s\<rparr>"
      unfolding t(4) c log_writes_Suc write_blocks_snoc by (simp add: s'(4) b)
    moreover have "forR (write_log_step me) [0..<Suc k] s = Inr t" using s'(1) t(1) by (simp add: forR_append)
    ultimately show ?case using t(2) by blast
  qed
  from this[of n] show ?thesis using assms(4) by (auto simp: write_log_def Let_def)
qed

lemma install_trans_v:
  assumes "bio_inv s" "ldev s = ROOTDEV" "vlock (absc s) = (\<lambda>_. None)" "n = nat (ln s)"
    and "\<forall>t<n. lblock s t \<notin> {lstart s..lstart s + n} \<and> vref (absc s) (lblock s t) = (if recovering then 0 else 1) \<and>
       vref (absc s) (lstart s + t + 1) = 0 \<and> blk s (lstart s + t + 1) = dsk s (lstart s + t + 1)"
    and "inj_on (lblock s) {..<n}"
    and "card {b. 0 < vref (absc s) b} + (if recovering then 1 else 0) < NBUF"
  shows "\<exists>s'. install_trans me recovering s = Inr s' \<and> bio_inv s' \<and> bframe s s' \<and>
    (let ws = install_writes (lstart s) (blk s) (lblock s) n in
     absc s' = (absc s)\<lparr>vblk := write_blocks ws (blk s), vdsk := write_blocks ws (dsk s),
       vref := (\<lambda>b. if b \<in> lblock s ` {..<n} then 0 else vref (absc s) b), vtrace := rev ws @ wtrace s\<rparr>)"
proof -
  let ?ws = "install_writes (lstart s) (blk s) (lblock s)"
  let ?A = "\<lambda>k. (absc s)\<lparr>vblk := write_blocks (?ws k) (blk s), vdsk := write_blocks (?ws k) (dsk s),
       vref := (\<lambda>b. if b \<in> lblock s ` {..<k} then 0 else vref (absc s) b), vtrace := rev (?ws k) @ wtrace s\<rparr>"
  have "\<exists>s'. forR (install_step me recovering) [0..<k] s = Inr s' \<and> bio_inv s' \<and> bframe s s' \<and> absc s' = ?A k"
    if "k \<le> n" for k
    using that
  proof (induction k)
    case 0
    then show ?case using assms(1) by (auto simp: install_writes_def intro!: vcache_eqI)
  next
    case (Suc k)
    then obtain s' where s': "forR (install_step me recovering) [0..<k] s = Inr s'" "bio_inv s'" "bframe s s'" "absc s' = ?A k"
      by auto
    note fr = logst_frame[OF s'(3)]
    let ?d = "lstart s + k + 1" let ?c = "lblock s k"
    have b: "blk s' = write_blocks (?ws k) (blk s)" "dsk s' = write_blocks (?ws k) (dsk s)" "wtrace s' = rev (?ws k) @ wtrace s"
      using s'(4) absc_sel[of s'] by simp_all
    have k: "?c \<notin> {lstart s..lstart s + n}" "vref (absc s) ?c = (if recovering then 0 else 1)" "vref (absc s) ?d = 0"
      "blk s ?d = dsk s ?d" using assms(5) Suc.prems by auto
    have "lblock s t \<noteq> ?d" if "t < k" for t
    proof -
      have "lblock s t \<notin> {lstart s..lstart s + n}" using assms(5) Suc.prems that by auto
      then show ?thesis using Suc.prems by auto
    qed
    then have "?d \<notin> lblock s ` {..<k}" by (metis imageE lessThan_iff)
    then have o: "?d \<notin> fst ` set (?ws k)" by (rule install_writes_out)
    have d: "blk s' ?d = blk s ?d" "dsk s' ?d = dsk s ?d" unfolding b using write_blocks_out[OF o] by auto
    have "?c \<notin> lblock s ` {..<k}" using inj_on_image_mem_iff[OF assms(6), of k "{..<k}"] Suc.prems by auto
    then have rc: "vref (absc s') ?c = (if recovering then 0 else 1)" "vref (absc s') ?d = 0"
      using s'(4) k(2,3) by auto
    have "{b. 0 < vref (absc s') b} \<subseteq> {b. 0 < vref (absc s) b}" using s'(4) by (auto split: if_splits)
    then have "card {b. 0 < vref (absc s') b} \<le> card {b. 0 < vref (absc s) b}"
      using finite_referenced[OF assms(1)] by (rule card_mono[rotated])
    then have cd: "card {b. 0 < vref (absc s') b} + (if recovering then 1 else 0) < NBUF" using assms(7) by simp
    have lk: "vlock (absc s') = (\<lambda>_. None)" using s'(4) assms(3) by simp
    obtain t where t: "install_step me recovering k s' = Inr t" "bio_inv t" "bframe s' t"
      "absc t = (absc s')\<lparr>vblk := (blk s')(?c := blk s' ?d), vdsk := (dsk s')(?c := blk s' ?d),
         vref := (vref (absc s'))(?c := 0), vtrace := (?c, blk s' ?d) # wtrace s'\<rparr>"
      by (rule install_step_v[OF s'(2) _ lk _ _ _ rc cd, where me = me and t = k])
        (use assms(2) fr k(1,4) d Suc.prems in auto)
    have "bframe s t" using s'(3) t(3) by (rule bframe_trans)
    moreover have "absc t = ?A (Suc k)"
      unfolding t(4) d install_writes_Suc write_blocks_snoc
      by (intro vcache_eqI) (auto simp: s'(4) b lessThan_Suc)
    moreover have "forR (install_step me recovering) [0..<Suc k] s = Inr t" using s'(1) t(1) by (simp add: forR_append)
    ultimately show ?case using t(2) by blast
  qed
  from this[of n] show ?thesis using assms(4) by (auto simp: install_trans_def Let_def)
qed

text \<open>What \<^verbatim>\<open>read_head\<close> leaves in memory.\<close>

definition head_read :: "block \<Rightarrow> 'a logst_scheme \<Rightarrow> 'a logst_scheme" where
  "head_read d s = s\<lparr>ln := hdr_n d, lblock := (\<lambda>i. if i < nat (hdr_n d) then hdr_block d i else lblock s i)\<rparr>"

lemma head_read_loop:
  "fold (\<lambda>i s. s\<lparr>lblock := (lblock s)(i := hdr_block d i)\<rparr>) [0..<k] (s :: 'a logst_scheme)
   = s\<lparr>lblock := (\<lambda>i. if i < k then hdr_block d i else lblock s i)\<rparr>"
proof (induction k)
  case 0
  then show ?case by simp
next
  case (Suc k)
  have "(\<lambda>i. if i < k then hdr_block d i else lblock s i)(k := hdr_block d k)
      = (\<lambda>i. if i < Suc k then hdr_block d i else lblock s i)" by (auto simp: fun_eq_iff)
  then show ?case by (simp add: Suc del: fun_upd_apply)
qed

lemma read_head_v:
  assumes "bio_inv s" "ldev s = ROOTDEV" "vlock (absc s) = (\<lambda>_. None)" "L = lstart s"
    and "vref (absc s) L = 0" "card {b. 0 < vref (absc s) b} < NBUF" "blk s L = dsk s L"
  obtains s' where "read_head me s = Inr s'" "bio_inv s'" "bframe (head_read (blk s L) s) s'" "absc s' = absc s"
proof -
  obtain i s1 where s1: "bread me ROOTDEV L s = Inr (i, s1)" "bio_inv s1" "holds me i L s1" "bframe s s1"
    "absc s1 = v_bread me L (absc s)" "bdata (bufs s1 i) = blk s L"
    by (rule bread_ok[OF assms(1) refl, where b = L and me = me]) (use assms in auto)
  have b1: "blk s1 = blk s" "dsk s1 = dsk s" using s1(5) absc_sel[of s1] by (simp_all add: v_defs)
  let ?s2 = "head_read (blk s L) s1"
  have e: "bufs ?s2 = bufs s1" "dsk ?s2 = dsk s1" "wtrace ?s2 = wtrace s1" by (simp_all add: head_read_def)
  note x = absc_ext[OF e]
  have b2: "blk ?s2 = blk s1" using x(1) absc_sel(1) by metis
  obtain s3 where s3: "brelse me i ?s2 = Inr s3" "bio_inv s3" "absc s3 = v_brelse L (absc ?s2)" "bframe ?s2 s3"
    using brelse_v[of ?s2 me i L] s1(2,3) x b1 b2 e assms(7) by metis
  have fr: "bframe (head_read (blk s L) s) ?s2"
    using s1(4) by (cases s) (auto simp: bframe_def head_read_def cong: if_cong)
  have "read_head me s = Inr s3"
    using s1(1,6) s3(1) assms(2,4) by (simp add: read_head_def Let_def head_read_def head_read_loop cong: if_cong)
  moreover have "absc s3 = absc s" using s3(3) x(1) s1(5) assms(3) by (intro vcache_eqI) (auto simp: v_defs)
  ultimately show thesis using that s3(2) bframe_trans[OF fr s3(4)] by blast
qed

section \<open>What the log leaves alone\<close>

lemma install_step_frame: "install_step me rec t s = Inr s' \<Longrightarrow> bframe s s'"
  unfolding install_step_def Let_def
  by (auto simp: res_simps split: if_splits dest!: bio_frames) (meson bframe_trans)+

lemma forR_bframe:
  "(\<And>i t t'. f i t = Inr t' \<Longrightarrow> bframe t t') \<Longrightarrow> forR f xs s = Inr s' \<Longrightarrow> bframe s s'"
  by (rule forR_partial[where I = "\<lambda>_ t. bframe s t"]) (auto intro: bframe_trans)

lemma install_trans_frame: "install_trans me rec s = Inr s' \<Longrightarrow> bframe s s'"
  unfolding install_trans_def by (rule forR_bframe[OF install_step_frame])

lemma write_head_frame: "write_head me s = Inr s' \<Longrightarrow> bframe s s'"
  unfolding write_head_def Let_def
  by (auto simp: res_simps dest!: bio_frames) (meson bframe_trans)

lemma write_log_step_frame: "write_log_step me t s = Inr s' \<Longrightarrow> bframe s s'"
  unfolding write_log_step_def Let_def
  by (auto simp: res_simps dest!: bio_frames) (meson bframe_trans)

lemma write_log_frame: "write_log me s = Inr s' \<Longrightarrow> bframe s s'"
  unfolding write_log_def
  by (rule forR_bframe[OF write_log_step_frame])

lemma commit_frame:
  assumes "commit me s = Inr s'"
  shows "bframe (if 0 < ln s then s\<lparr>ln := 0\<rparr> else s) s'"
proof (cases "0 < ln s")
  case True
  then obtain s1 s2 s3 where c: "write_log me s = Inr s1" "write_head me s1 = Inr s2" "install_trans me False s2 = Inr s3"
    "write_head me (s3\<lparr>ln := 0\<rparr>) = Inr s'"
    using assms by (auto simp: commit_def res_simps)
  have "bframe s s3" using c write_log_frame write_head_frame install_trans_frame by (metis bframe_trans)
  then have "bframe (s\<lparr>ln := 0\<rparr>) (s3\<lparr>ln := 0\<rparr>)" by (cases s) (auto simp: bframe_def)
  then show ?thesis using True bframe_trans[OF _ write_head_frame[OF c(4)]] by simp
next
  case False
  then show ?thesis using assms by (simp add: commit_def)
qed

end
