(* ===== verification/Xv6_Crash.thy ===== *)
theory Xv6_Crash
  imports Xv6_Log
begin

text \<open>
  Crash safety of the log. A disk has a meaning, the contents every block has once the log is
  recovered; the writes of \<^verbatim>\<open>commit\<close> change it in one step from the old contents to the new, the
  writes of \<^verbatim>\<open>recover_from_log\<close> never change it, and recovery makes the disk equal to its meaning.
\<close>

section \<open>What a disk means\<close>

text \<open>The contents of block \<^term>\<open>b\<close> once the log that starts at \<^term>\<open>L\<close> has been recovered.\<close>

definition recovered :: "nat \<Rightarrow> (nat \<Rightarrow> block) \<Rightarrow> nat \<Rightarrow> block" where
  "recovered L D b =
     (case find (\<lambda>t. hdr_block (D L) t = b) [0..<nat (hdr_n (D L))] of
        Some t \<Rightarrow> D (L + t + 1) | None \<Rightarrow> D b)"

definition log_area :: "nat \<Rightarrow> nat set" where
  "log_area L = {L..<L + LOGSIZE}"

definition log_wf :: "nat \<Rightarrow> (nat \<Rightarrow> block) \<Rightarrow> bool" where
  "log_wf L D \<longleftrightarrow> 0 \<le> hdr_n (D L) \<and> hdr_n (D L) < int LOGSIZE \<and>
     inj_on (hdr_block (D L)) {..<nat (hdr_n (D L))} \<and>
     (\<forall>t<nat (hdr_n (D L)). hdr_block (D L) t \<notin> log_area L)"

lemma LOGSIZE_pos [simp]: "0 < LOGSIZE"
  by (simp add: LOGSIZE_def MAXOPBLOCKS_def)

lemma recovered_none: "hdr_n (D L) = 0 \<Longrightarrow> recovered L D b = D b"
  by (simp add: recovered_def)

lemma recovered_new:
  assumes "hdr_n (D L) = int n" "\<And>t. t < n \<Longrightarrow> hdr_block (D L) t = B t" "\<And>t. t < n \<Longrightarrow> D (L + t + 1) = V (B t)"
    and "b \<notin> B ` {..<n} \<Longrightarrow> D b = V b"
  shows "recovered L D b = V b"
proof (cases "find (\<lambda>t. hdr_block (D L) t = b) [0..<n]")
  case None
  then have "b \<notin> B ` {..<n}" using assms(2) by (auto simp: find_upt_None)
  then show ?thesis using None assms(1,4) by (simp add: recovered_def)
next
  case (Some t)
  then have "t < n" "B t = b" using assms(2) by (auto simp: find_upt_Some)
  then show ?thesis using Some assms(1,3) by (simp add: recovered_def)
qed

lemma put_head_zero: "hdr_n (put_head 0 B d) = 0"
  by (simp add: put_head_def hdr_n_def rd_wr_same)

definition commit_writes :: "nat \<Rightarrow> (nat \<Rightarrow> block) \<Rightarrow> (nat \<Rightarrow> nat) \<Rightarrow> nat \<Rightarrow> (nat \<times> block) list" where
  "commit_writes L V B n =
     log_writes L V B n @ [(L, put_head (int n) B (V L))] @ map (\<lambda>t. (B t, V (B t))) [0..<n] @
     [(L, put_head 0 B (put_head (int n) B (V L)))]"

text \<open>Where the transaction stands after the first \<^term>\<open>k\<close> writes of a commit.\<close>

lemma commit_prefix:
  assumes n: "n < LOGSIZE" and B: "\<And>t. t < n \<Longrightarrow> B t < 2 ^ 32 \<and> B t \<notin> log_area L" "inj_on B {..<n}"
    and D0: "hdr_n (D0 L) = 0" "\<And>b. b \<notin> B ` {..<n} \<Longrightarrow> D0 b = V b"
    and D: "D = write_blocks (take k (commit_writes L V B n)) D0"
  shows "log_wf L D \<and>
    (if k \<le> n then \<forall>b. b \<notin> log_area L \<longrightarrow> recovered L D b = D0 b
     else \<forall>b. b \<notin> log_area L \<longrightarrow> recovered L D b = V b)"
proof -
  let ?H = "put_head (int n) B (V L)"
  let ?ins = "map (\<lambda>t. (B t, V (B t))) [0..<n]"
  have H: "hdr_n ?H = int n" "\<And>t. t < n \<Longrightarrow> hdr_block ?H t = B t"
    using put_head_spec[where n = "int n" and blks = B and d = "V L"] n B(1) by auto
  have ll: "length (log_writes L V B n) = n" by (simp add: log_writes_def)
  have lw: "b \<notin> log_area L \<Longrightarrow> b \<notin> fst ` set (take j (log_writes L V B n))" for b j
    using n by (auto simp: log_writes_def log_area_def dest!: in_set_takeD)
  have L: "L \<notin> fst ` set (take j (log_writes L V B n))" for j
    by (auto simp: log_writes_def dest!: in_set_takeD)
  show ?thesis
  proof (cases "k \<le> n")
    case True
    then have tk: "take k (commit_writes L V B n) = take k (log_writes L V B n)"
      by (simp add: commit_writes_def ll)
    have "D L = D0 L" unfolding D tk by (rule write_blocks_out[OF L])
    then have h: "hdr_n (D L) = 0" using D0(1) by simp
    have "D b = D0 b" if "b \<notin> log_area L" for b unfolding D tk by (rule write_blocks_out[OF lw[OF that]])
    then show ?thesis using True h recovered_none[of D L, OF h] by (auto simp: log_wf_def)
  next
    case False
    define D1 where "D1 = (write_blocks (log_writes L V B n) D0)(L := ?H)"
    define j where "j = k - Suc n"
    have k: "k = Suc n + j" using False by (simp add: j_def)
    have tk: "take k (commit_writes L V B n) = log_writes L V B n @ [(L, ?H)] @ take j (?ins @ [(L, put_head 0 B ?H)])"
      by (simp add: commit_writes_def ll k)
    have DD: "D = write_blocks (take j (?ins @ [(L, put_head 0 B ?H)])) D1"
      unfolding D tk write_blocks_append by (simp add: D1_def write_blocks_append)
    have d1: "D1 L = ?H" "\<And>b. b \<notin> log_area L \<Longrightarrow> D1 b = D0 b"
      using lw[of _ n] ll by (auto simp: D1_def write_blocks_out log_area_def)
    have dlog: "D1 (L + t + 1) = V (B t)" if "t < n" for t
    proof -
      have "(L + t + 1, V (B t)) \<in> set (log_writes L V B n)" using that by (auto simp: log_writes_def)
      moreover have "distinct (map fst (log_writes L V B n))"
        by (auto simp: log_writes_def distinct_map comp_def inj_on_def)
      ultimately show ?thesis unfolding D1_def by (simp add: write_blocks_in)
    qed
    have io: "b \<notin> B ` {..<n} \<Longrightarrow> b \<notin> fst ` set (take i ?ins)" for b i
      by (force dest!: in_set_takeD)
    have nB: "b \<in> log_area L \<Longrightarrow> b \<notin> B ` {..<n}" for b using B(1) by auto
    have La: "L \<in> log_area L" "\<And>t. t < n \<Longrightarrow> L + t + 1 \<in> log_area L" using n by (auto simp: log_area_def)
    show ?thesis
    proof (cases "j \<le> n")
      case True
      then have D': "D = write_blocks (take j ?ins) D1" unfolding DD by simp
      have a: "D b = D1 b" if "b \<in> log_area L" for b unfolding D' by (rule write_blocks_out[OF io[OF nB[OF that]]])
      have h: "D L = ?H" using a[OF La(1)] d1(1) by simp
      have "recovered L D b = V b" if "b \<notin> log_area L" for b
      proof (rule recovered_new[where n = n and B = B])
        show "hdr_n (D L) = int n" "\<And>t. t < n \<Longrightarrow> hdr_block (D L) t = B t" using h H by auto
        show "D (L + t + 1) = V (B t)" if "t < n" for t using a[OF La(2)[OF that]] dlog[OF that] by simp
        assume "b \<notin> B ` {..<n}"
        then show "D b = V b" using d1(2)[OF that] D0(2) write_blocks_out[OF io] unfolding D' by simp
      qed
      moreover have "log_wf L D"
        using n H B h by (auto simp: log_wf_def inj_on_def)
      ultimately show ?thesis using False by simp
    next
      case False
      then have D': "D = (write_blocks ?ins D1)(L := put_head 0 B ?H)" unfolding DD by (simp add: write_blocks_append)
      then have h: "hdr_n (D L) = 0" by (simp add: put_head_zero)
      have "D b = V b" if "b \<notin> log_area L" for b
      proof (cases "b \<in> B ` {..<n}")
        case True
        then obtain t where t: "t < n" "b = B t" by auto
        have "distinct (map fst ?ins)" using B(2) by (simp add: distinct_map comp_def inj_on_def)
        then have "write_blocks ?ins D1 b = V b" using t by (intro write_blocks_in) auto
        then show ?thesis using that La(1) unfolding D' by auto
      next
        case False
        then have "write_blocks ?ins D1 b = D1 b" using io[of b n] by (intro write_blocks_out) simp
        then show ?thesis using that La(1) d1(2)[OF that] D0(2)[OF False] unfolding D' by auto
      qed
      then show ?thesis using \<open>\<not> k \<le> n\<close> h recovered_none[of D L, OF h] by (auto simp: log_wf_def)
    qed
  qed
qed

section \<open>Commit\<close>

text \<open>The state in which \<^verbatim>\<open>end_op\<close> calls \<^verbatim>\<open>commit\<close>: no system call is active, so no buffer is locked,
  exactly the logged blocks are pinned, everything else is clean, and the log on disk is empty.\<close>

definition commit_ready :: "'a logst_scheme \<Rightarrow> bool" where
  "commit_ready s \<longleftrightarrow>
     bio_inv s \<and> ldev s = ROOTDEV \<and> vlock (absc s) = (\<lambda>_. None) \<and> 0 \<le> ln s \<and> ln s < int NBUF \<and>
     inj_on (lblock s) {..<nat (ln s)} \<and>
     (\<forall>t<nat (ln s). lblock s t < 2 ^ 32 \<and> lblock s t \<notin> log_area (lstart s)) \<and>
     vref (absc s) = (\<lambda>b. if b \<in> lblock s ` {..<nat (ln s)} then 1 else 0) \<and>
     (\<forall>b. b \<notin> lblock s ` {..<nat (ln s)} \<longrightarrow> blk s b = dsk s b) \<and> hdr_n (dsk s (lstart s)) = 0"

lemma commit_ready_refs:
  assumes "commit_ready s"
  shows "card {b. 0 < vref (absc s) b} = nat (ln s)" "nat (ln s) < LOGSIZE" "nat (ln s) < NBUF"
proof -
  have "{b. 0 < vref (absc s) b} = lblock s ` {..<nat (ln s)}"
    using assms by (auto simp: commit_ready_def)
  then show "card {b. 0 < vref (absc s) b} = nat (ln s)"
    using assms by (simp add: commit_ready_def card_image)
  show "nat (ln s) < LOGSIZE" "nat (ln s) < NBUF"
    using assms by (auto simp: commit_ready_def NBUF_def LOGSIZE_def)
qed

lemma commit_v:
  assumes "commit_ready s" "0 < ln s"
  defines "L \<equiv> lstart s" and "B \<equiv> lblock s" and "V \<equiv> blk s" and "n \<equiv> nat (ln s)"
  shows "\<exists>s'. commit me s = Inr s' \<and> bio_inv s' \<and> bframe (s\<lparr>ln := 0\<rparr>) s' \<and>
    absc s' = \<lparr>vblk = write_blocks (commit_writes L V B n) V, vdsk = write_blocks (commit_writes L V B n) (dsk s),
      vref = (\<lambda>_. 0), vlock = (\<lambda>_. None), vtrace = rev (commit_writes L V B n) @ wtrace s\<rparr>"
proof -
  let ?H = "put_head (int n) B (V L)"
  let ?W = "log_writes L V B n"
  note cr = assms(1)[unfolded commit_ready_def, folded B_def L_def V_def n_def]
  note rf = commit_ready_refs[OF assms(1), folded n_def]
  have inL: "L + t + 1 \<in> log_area L" if "t < n" for t using that rf(2) by (auto simp: log_area_def)
  have outL: "B t \<notin> log_area L" "B t \<notin> {L..L + n}" if "t < n" for t
    using cr that rf(2) by (auto simp: log_area_def)
  have refL: "b \<in> log_area L \<Longrightarrow> vref (absc s) b = 0" for b using cr by auto
  have La: "L \<in> log_area L" by (simp add: log_area_def)
  obtain s1 where s1: "write_log me s = Inr s1" "bio_inv s1" "bframe s s1"
    "absc s1 = (absc s)\<lparr>vblk := write_blocks ?W V, vdsk := write_blocks ?W (dsk s), vtrace := rev ?W @ wtrace s\<rparr>"
    using write_log_v[of s n me] cr rf outL refL inL
    by (auto simp: Let_def n_def[symmetric] L_def[symmetric] B_def[symmetric] V_def[symmetric])
  note f1 = logst_frame[OF s1(3), folded L_def B_def]
  have b1: "blk s1 = write_blocks ?W V" "dsk s1 = write_blocks ?W (dsk s)" "wtrace s1 = rev ?W @ wtrace s"
    using s1(4) absc_sel[of s1] by simp_all
  have "L \<notin> fst ` set ?W" by (auto simp: log_writes_def)
  then have bL: "blk s1 L = V L" unfolding b1 by (rule write_blocks_out)
  have h: "put_head (ln s1) (lblock s1) (blk s1 L) = ?H" using f1 bL assms(2) by (simp add: n_def)
  obtain s2 where s2: "write_head me s1 = Inr s2" "bio_inv s2" "bframe s1 s2"
    "absc s2 = (absc s1)\<lparr>vblk := (blk s1)(L := ?H), vdsk := (dsk s1)(L := ?H), vtrace := (L, ?H) # wtrace s1\<rparr>"
    by (rule write_head_v[OF s1(2), where L = L and me = me and h = ?H]) (use cr rf s1(4) f1 refL La h in auto)
  have f02: "bframe s s2" using s1(3) s2(3) by (rule bframe_trans)
  note f2 = logst_frame[OF f02, folded L_def B_def]
  have b2: "blk s2 = (write_blocks ?W V)(L := ?H)" "dsk s2 = (write_blocks ?W (dsk s))(L := ?H)" "wtrace s2 = (L, ?H) # rev ?W @ wtrace s"
    using s2(4) b1 absc_sel[of s2] by simp_all
  have dw: "distinct (map fst ?W)" by (auto simp: log_writes_def distinct_map comp_def inj_on_def)
  have lg: "blk s2 (L + t + 1) = V (B t)" "dsk s2 (L + t + 1) = V (B t)" if "t < n" for t
  proof -
    have "(L + t + 1, V (B t)) \<in> set ?W" using that by (auto simp: log_writes_def)
    then show "blk s2 (L + t + 1) = V (B t)" "dsk s2 (L + t + 1) = V (B t)"
      using write_blocks_in[OF _ dw] by (auto simp: b2)
  qed
  let ?I = "map (\<lambda>t. (B t, V (B t))) [0..<n]"
  have I: "install_writes L (blk s2) B n = ?I" using lg by (simp add: install_writes_def)
  have r2: "vref (absc s2) = vref (absc s)" "vlock (absc s2) = vlock (absc s)" using s2(4) s1(4) by simp_all
  have p2: "ldev s2 = ROOTDEV" "vlock (absc s2) = (\<lambda>_. None)" "n = nat (ln s2)"
    "\<forall>t<n. lblock s2 t \<notin> {lstart s2..lstart s2 + n} \<and> vref (absc s2) (lblock s2 t) = (if False then 0 else 1) \<and>
       vref (absc s2) (lstart s2 + t + 1) = 0 \<and> blk s2 (lstart s2 + t + 1) = dsk s2 (lstart s2 + t + 1)"
    "inj_on (lblock s2) {..<n}" "card {b. 0 < vref (absc s2) b} + (if False then 1 else 0) < NBUF"
  proof -
    show "ldev s2 = ROOTDEV" "vlock (absc s2) = (\<lambda>_. None)" "n = nat (ln s2)" "inj_on (lblock s2) {..<n}"
      using f2 cr r2 by (simp_all add: n_def)
    show "card {b. 0 < vref (absc s2) b} + (if False then 1 else 0) < NBUF" unfolding r2(1) using rf by simp
    have "vref (absc s) (B t) = 1" if "t < n" for t using cr that by simp
    then show "\<forall>t<n. lblock s2 t \<notin> {lstart s2..lstart s2 + n} \<and> vref (absc s2) (lblock s2 t) = (if False then 0 else 1) \<and>
       vref (absc s2) (lstart s2 + t + 1) = 0 \<and> blk s2 (lstart s2 + t + 1) = dsk s2 (lstart s2 + t + 1)"
      unfolding f2 r2(1) using lg outL(2) refL[OF inL] by simp
  qed
  obtain s3 where s3: "install_trans me False s2 = Inr s3" "bio_inv s3" "bframe s2 s3"
    "absc s3 = (absc s2)\<lparr>vblk := write_blocks ?I (blk s2), vdsk := write_blocks ?I (dsk s2),
       vref := (\<lambda>b. if b \<in> B ` {..<n} then 0 else vref (absc s2) b), vtrace := rev ?I @ wtrace s2\<rparr>"
    using install_trans_v[OF s2(2) p2, of me, unfolded Let_def f2(1,7) I] by blast
  have f3: "bframe s s3" using f02 s3(3) by (rule bframe_trans)
  let ?s3 = "s3\<lparr>ln := 0\<rparr>"
  have e: "bufs ?s3 = bufs s3" "dsk ?s3 = dsk s3" "wtrace ?s3 = wtrace s3" by simp_all
  note x = absc_ext[OF e]
  have r3: "vref (absc s3) = (\<lambda>_. 0)" "vlock (absc s3) = (\<lambda>_. None)"
    using s3(4) s2(4) s1(4) cr by (auto simp: fun_eq_iff)
  have b3: "blk ?s3 = write_blocks ?I (blk s2)" "dsk ?s3 = write_blocks ?I (dsk s2)" "wtrace ?s3 = rev ?I @ wtrace s2"
    using s3(4) x(1) absc_sel[of ?s3] by simp_all
  have "L \<notin> fst ` set ?I" using outL La by auto
  then have bL3: "blk ?s3 L = ?H" unfolding b3 by (subst write_blocks_out) (simp_all add: b2)
  note f3' = logst_frame[OF f3, folded L_def B_def]
  obtain s4 where s4: "write_head me ?s3 = Inr s4" "bio_inv s4" "bframe ?s3 s4"
    "absc s4 = (absc ?s3)\<lparr>vblk := (blk ?s3)(L := put_head 0 B ?H), vdsk := (dsk ?s3)(L := put_head 0 B ?H),
       vtrace := (L, put_head 0 B ?H) # wtrace ?s3\<rparr>"
    by (rule write_head_v[of ?s3 L "put_head 0 B ?H" me])
      (use s3(2) x r3 cr f3' bL3 in \<open>auto simp: NBUF_def MAXOPBLOCKS_def\<close>)
  have "commit me s = Inr s4" using assms(2) s1(1) s2(1) s3(1) s4(1) by (simp add: commit_def)
  moreover have "bframe (s\<lparr>ln := 0\<rparr>) s4"
    using s4(3) f3 by (cases s) (auto simp: bframe_def)
  moreover have "absc s4 = \<lparr>vblk = write_blocks (commit_writes L V B n) V, vdsk = write_blocks (commit_writes L V B n) (dsk s),
      vref = (\<lambda>_. 0), vlock = (\<lambda>_. None), vtrace = rev (commit_writes L V B n) @ wtrace s\<rparr>"
    unfolding s4(4) x(1) b3 b2
    by (intro vcache_eqI) (simp_all add: r3 commit_writes_def write_blocks_append)
  ultimately show ?thesis using s4(2) by blast
qed

section \<open>Recovery\<close>

definition clean_cache :: "'a bcache_scheme \<Rightarrow> bool" where
  "clean_cache s \<longleftrightarrow> bio_inv s \<and> vlock (absc s) = (\<lambda>_. None) \<and> vref (absc s) = (\<lambda>_. 0) \<and> blk s = dsk s"

definition recovery_writes :: "nat \<Rightarrow> (nat \<Rightarrow> block) \<Rightarrow> (nat \<times> block) list" where
  "recovery_writes L D = install_writes L D (hdr_block (D L)) (nat (hdr_n (D L)))"

lemma recover_v:
  assumes "clean_cache s" "ldev s = ROOTDEV" "log_wf (lstart s) (dsk s)"
  defines "L \<equiv> lstart s" and "D \<equiv> dsk s"
  shows "\<exists>s' h. recover_from_log me s = Inr s' \<and> clean_cache s' \<and> hdr_n h = 0 \<and>
    dsk s' = (write_blocks (recovery_writes L D) D)(L := h) \<and> wtrace s' = (L, h) # rev (recovery_writes L D) @ wtrace s \<and>
    ln s' = 0 \<and> lstart s' = L \<and> ldev s' = ROOTDEV \<and> lsize s' = lsize s \<and> outstanding s' = outstanding s \<and>
    committing s' = committing s"
proof -
  note c = assms(1)[unfolded clean_cache_def]
  have pos: "0 < NBUF" "1 < NBUF" by (simp_all add: NBUF_def MAXOPBLOCKS_def)
  obtain s1 where s1: "read_head me s = Inr s1" "bio_inv s1" "bframe (head_read (D L) s) s1" "absc s1 = absc s"
    by (rule read_head_v[of s L me]) (use c assms(2) pos in \<open>auto simp: L_def D_def\<close>)
  have b1: "blk s1 = D" "dsk s1 = D" "wtrace s1 = wtrace s" using s1(4) c absc_sel[of s1] absc_sel[of s] by (simp_all add: D_def)
  define n where "n = nat (hdr_n (D L))"
  note f1 = logst_frame[OF s1(3)]
  have l1: "ldev s1 = ROOTDEV" "lstart s1 = L" "ln s1 = hdr_n (D L)" "\<And>t. t < n \<Longrightarrow> lblock s1 t = hdr_block (D L) t"
    using f1 assms(2) by (simp_all add: head_read_def L_def n_def)
  have wf: "hdr_n (D L) < int LOGSIZE" "inj_on (hdr_block (D L)) {..<n}" "\<And>t. t < n \<Longrightarrow> hdr_block (D L) t \<notin> log_area L"
    using assms(3) by (auto simp: log_wf_def n_def L_def D_def)
  have "n < LOGSIZE" using wf(1) LOGSIZE_pos unfolding n_def by linarith
  then have out: "t < n \<Longrightarrow> hdr_block (D L) t \<notin> {L..L + n}" for t using wf(3)[of t] by (auto simp: log_area_def)
  have im: "lblock s1 ` {..<n} = hdr_block (D L) ` {..<n}" using l1(4) by auto
  have inj: "inj_on (lblock s1) {..<n}" using wf(2) l1(4) by (simp add: inj_on_def)
  have I: "install_writes L D (lblock s1) n = recovery_writes L D"
    using l1(4) by (simp add: install_writes_def recovery_writes_def n_def)
  have "\<exists>s'. install_trans me True s1 = Inr s' \<and> bio_inv s' \<and> bframe s1 s' \<and>
    (let ws = install_writes (lstart s1) (blk s1) (lblock s1) n in
     absc s' = (absc s1)\<lparr>vblk := write_blocks ws (blk s1), vdsk := write_blocks ws (dsk s1),
       vref := (\<lambda>b. if b \<in> lblock s1 ` {..<n} then 0 else vref (absc s1) b), vtrace := rev ws @ wtrace s1\<rparr>)"
    by (rule install_trans_v[OF s1(2) l1(1)])
      (use c pos inj out in \<open>auto simp: s1(4) l1 b1 n_def[symmetric]\<close>)
  then obtain s2 where s2: "install_trans me True s1 = Inr s2" "bio_inv s2" "bframe s1 s2"
    "absc s2 = (absc s)\<lparr>vblk := write_blocks (recovery_writes L D) D, vdsk := write_blocks (recovery_writes L D) D,
       vref := (\<lambda>b. if b \<in> lblock s1 ` {..<n} then 0 else vref (absc s) b), vtrace := rev (recovery_writes L D) @ wtrace s\<rparr>"
    unfolding Let_def l1(2) b1 I s1(4) by blast
  let ?s2 = "s2\<lparr>ln := 0\<rparr>"
  have e: "bufs ?s2 = bufs s2" "dsk ?s2 = dsk s2" "wtrace ?s2 = wtrace s2" by simp_all
  note x = absc_ext[OF e]
  have r2: "vref (absc s2) = (\<lambda>_. 0)" "vlock (absc s2) = (\<lambda>_. None)" using s2(4) c by (auto simp: fun_eq_iff)
  have b2: "blk ?s2 = write_blocks (recovery_writes L D) D" "dsk ?s2 = write_blocks (recovery_writes L D) D"
    "wtrace ?s2 = rev (recovery_writes L D) @ wtrace s"
    using s2(4) x(1) absc_sel[of ?s2] by simp_all
  note f2 = logst_frame[OF s2(3)]
  define h where "h = put_head 0 (lblock s2) (blk ?s2 L)"
  obtain s3 where s3: "write_head me ?s2 = Inr s3" "bio_inv s3" "bframe ?s2 s3"
    "absc s3 = (absc ?s2)\<lparr>vblk := (blk ?s2)(L := h), vdsk := (dsk ?s2)(L := h), vtrace := (L, h) # wtrace ?s2\<rparr>"
    by (rule write_head_v[of ?s2 L h me]) (use s2(2) x r2 l1 f2 pos in \<open>auto simp: h_def\<close>)
  have "recover_from_log me s = Inr s3" using s1(1) s2(1) s3(1) by (simp add: recover_from_log_def)
  moreover have "blk s3 = (write_blocks (recovery_writes L D) D)(L := h)" "dsk s3 = (write_blocks (recovery_writes L D) D)(L := h)"
    "wtrace s3 = (L, h) # rev (recovery_writes L D) @ wtrace s"
    using s3(4) b2 absc_sel[of s3] by simp_all
  moreover have "vref (absc s3) = (\<lambda>_. 0)" "vlock (absc s3) = (\<lambda>_. None)" using s3(4) x(1) r2 by simp_all
  moreover have "hdr_n h = 0" by (simp add: h_def put_head_zero)
  moreover have "ln s3 = 0" "lstart s3 = L" "ldev s3 = ROOTDEV" "lsize s3 = lsize s" "outstanding s3 = outstanding s"
    "committing s3 = committing s"
    using logst_frame[OF s3(3)] f2 f1 l1 by (simp_all add: head_read_def)
  ultimately show ?thesis using s3(2) by (auto simp: clean_cache_def)
qed

lemma recovery_prefix:
  assumes "log_wf L D0" "D = write_blocks (take k (recovery_writes L D0 @ [(L, h)])) D0" "hdr_n h = 0"
  shows "log_wf L D \<and> (\<forall>b. b \<notin> log_area L \<longrightarrow> recovered L D b = recovered L D0 b)"
proof -
  define n where "n = nat (hdr_n (D0 L))"
  define B where "B = hdr_block (D0 L)"
  have wf: "hdr_n (D0 L) = int n" "n < LOGSIZE" "inj_on B {..<n}" "\<And>t. t < n \<Longrightarrow> B t \<notin> log_area L"
    using assms(1) by (auto simp: log_wf_def n_def B_def)
  let ?R = "recovery_writes L D0"
  have R: "?R = map (\<lambda>t. (B t, D0 (L + t + 1))) [0..<n]" by (simp add: recovery_writes_def install_writes_def n_def B_def)
  have len: "length ?R = n" by (simp add: R)
  have La: "L \<in> log_area L" "\<And>t. t < n \<Longrightarrow> L + t + 1 \<in> log_area L" using wf(2) by (auto simp: log_area_def)
  have o: "b \<in> log_area L \<Longrightarrow> write_blocks (take j ?R) D0 b = D0 b" for b j
    by (rule write_blocks_out) (use wf(4) in \<open>auto simp: R dest!: in_set_takeD\<close>)
  have meaning: "recovered L D0 b = (if b \<in> B ` {..<n} then write_blocks ?R D0 b else D0 b)" for b
  proof (cases "b \<in> B ` {..<n}")
    case True
    then obtain t where t: "t < n" "b = B t" by auto
    have "find (\<lambda>t. B t = b) [0..<n] = Some t"
      using t wf(3) by (auto simp: find_upt_Some inj_on_def)
    moreover have "write_blocks ?R D0 b = D0 (L + t + 1)"
      by (rule write_blocks_in) (use t wf(3) in \<open>auto simp: R distinct_map comp_def inj_on_def\<close>)
    ultimately show ?thesis using True by (simp add: recovered_def B_def n_def)
  next
    case False
    then have "find (\<lambda>t. B t = b) [0..<n] = None" unfolding find_upt_None by blast
    then show ?thesis using False by (simp add: recovered_def B_def n_def)
  qed
  show ?thesis
  proof (cases "k \<le> n")
    case True
    then have D: "D = write_blocks (take k ?R) D0" using assms(2) len by simp
    have DL: "D L = D0 L" using o[OF La(1)] D by simp
    have "recovered L D b = recovered L D0 b" for b
    proof (cases "find (\<lambda>t. B t = b) [0..<n]")
      case None
      then have "b \<notin> B ` {..<n}" unfolding find_upt_None by blast
      then have "b \<notin> fst ` set (take k ?R)" unfolding R by (auto dest!: in_set_takeD)
      then have "D b = D0 b" using D by (simp add: write_blocks_out)
      then show ?thesis using None DL by (simp add: recovered_def B_def n_def)
    next
      case (Some t)
      then have "t < n" by (simp add: find_upt_Some)
      then have "D (L + t + 1) = D0 (L + t + 1)" using o[OF La(2)] D by simp
      then show ?thesis using Some DL by (simp add: recovered_def B_def n_def)
    qed
    moreover have "log_wf L D" using assms(1) DL by (simp add: log_wf_def)
    ultimately show ?thesis by blast
  next
    case False
    then have D: "D = (write_blocks ?R D0)(L := h)" using assms(2) len by (simp add: write_blocks_append)
    then have h: "hdr_n (D L) = 0" using assms(3) by simp
    have "recovered L D b = recovered L D0 b" if "b \<notin> log_area L" for b
    proof -
      have "b \<noteq> L" using that La(1) by auto
      moreover have "b \<notin> B ` {..<n} \<Longrightarrow> write_blocks ?R D0 b = D0 b"
        by (rule write_blocks_out) (auto simp: R)
      ultimately show ?thesis using recovered_none[of D L, OF h] meaning[of b] D by simp
    qed
    then show ?thesis using h by (simp add: log_wf_def)
  qed
qed

section \<open>Reservation of log space\<close>

text \<open>System calls that keep to their share: \<^term>\<open>M i = Some k\<close> says that call \<^term>\<open>i\<close> is between \<^verbatim>\<open>begin_op\<close>
  and \<^verbatim>\<open>end_op\<close> and has made \<^term>\<open>k\<close> calls of \<^verbatim>\<open>log_write\<close>, at most \<^verbatim>\<open>MAXOPBLOCKS\<close>.\<close>

inductive log_run :: "'a logst_scheme \<Rightarrow> (nat \<rightharpoonup> nat) \<Rightarrow> bool" where
  run_start: "ln s = 0 \<Longrightarrow> outstanding s = 0 \<Longrightarrow> \<not> committing s \<Longrightarrow> log_run s Map.empty"
| run_begin: "log_run s M \<Longrightarrow> M i = None \<Longrightarrow> begin_op s = Inr s' \<Longrightarrow> log_run s' (M(i \<mapsto> 0))"
| run_write: "log_run s M \<Longrightarrow> M i = Some k \<Longrightarrow> k < MAXOPBLOCKS \<Longrightarrow> log_write b s = Inr s' \<Longrightarrow> log_run s' (M(i \<mapsto> Suc k))"
| run_end: "log_run s M \<Longrightarrow> M i = Some k \<Longrightarrow> end_op me s = Inr s' \<Longrightarrow> log_run s' (M(i := None))"
| run_other: "log_run s M \<Longrightarrow> bframe s s' \<Longrightarrow> log_run s' M"

definition budget :: "(nat \<rightharpoonup> nat) \<Rightarrow> nat" where
  "budget M = (\<Sum>i\<in>dom M. MAXOPBLOCKS - the (M i))"

definition space_inv :: "'a logst_scheme \<Rightarrow> (nat \<rightharpoonup> nat) \<Rightarrow> bool" where
  "space_inv s M \<longleftrightarrow> \<not> committing s \<and> 0 \<le> ln s \<and> finite (dom M) \<and> outstanding s = int (card (dom M)) \<and>
     ln s + int (budget M) \<le> int LOGSIZE"

lemma budget_None: "finite (dom M) \<Longrightarrow> M i = None \<Longrightarrow> budget (M(i \<mapsto> k)) = (MAXOPBLOCKS - k) + budget M"
  by (simp add: budget_def domIff)
    (rule sum.cong, auto)

lemma budget_Some:
  assumes "finite (dom M)" "M i = Some k"
  shows "budget M = (MAXOPBLOCKS - k) + budget (M(i := None))"
    "budget (M(i \<mapsto> j)) = (MAXOPBLOCKS - j) + budget (M(i := None))"
proof -
  have f: "finite (dom (M(i := None)))" using assms by simp
  have "M = (M(i := None))(i \<mapsto> k)" using assms(2) by auto
  then show "budget M = (MAXOPBLOCKS - k) + budget (M(i := None))"
    using budget_None[OF f, of i k] by simp
  show "budget (M(i \<mapsto> j)) = (MAXOPBLOCKS - j) + budget (M(i := None))"
    using budget_None[OF f, of i j] by simp
qed

lemma budget_bound: "budget M \<le> card (dom M) * MAXOPBLOCKS"
  using sum_bounded_above[of "dom M" "\<lambda>i. MAXOPBLOCKS - the (M i)" MAXOPBLOCKS] by (simp add: budget_def)

lemma end_op_space:
  assumes "end_op me s = Inr s'" "0 \<le> ln s"
  shows "\<not> committing s'" "outstanding s' = outstanding s - 1" "0 \<le> ln s'" "ln s' \<le> ln s"
proof -
  have "\<not> committing s' \<and> outstanding s' = outstanding s - 1 \<and> 0 \<le> ln s' \<and> ln s' \<le> ln s"
  proof (cases "outstanding s = 1")
    case True
    then obtain t where t: "commit me (s\<lparr>outstanding := outstanding s - 1, committing := True\<rparr>) = Inr t"
      "s' = t\<lparr>committing := False, woken := ChLog # woken t\<rparr>"
      using assms(1) by (auto simp: end_op_def Let_def res_simps split: if_splits)
    show ?thesis using logst_frame[OF commit_frame[OF t(1)]] t(2) assms(2) by (auto split: if_splits)
  next
    case False
    then show ?thesis using assms by (auto simp: end_op_def Let_def split: if_splits)
  qed
  then show "\<not> committing s'" "outstanding s' = outstanding s - 1" "0 \<le> ln s'" "ln s' \<le> ln s" by blast+
qed

lemma log_write_space:
  assumes "log_write b s = Inr s'" "0 \<le> ln s"
  shows "committing s' = committing s" "outstanding s' = outstanding s" "0 \<le> ln s'" "ln s' \<le> ln s + 1" "ln s < int LOGSIZE"
  using assms by (auto simp: log_write_def Let_def bpin_def upd_buf_def split: if_splits)

lemma log_run_space: "log_run s M \<Longrightarrow> space_inv s M"
proof (induction rule: log_run.induct)
  case (run_start s)
  then show ?case by (simp add: space_inv_def budget_def)
next
  case (run_begin s M i s')
  have b: "ln s + (outstanding s + 1) * int MAXOPBLOCKS \<le> int LOGSIZE" "s' = s\<lparr>outstanding := outstanding s + 1\<rparr>"
    using run_begin(3) by (auto simp: begin_op_def split: if_splits)
  have "int (budget M) \<le> outstanding s * int MAXOPBLOCKS"
    using budget_bound[of M] run_begin(4) by (simp add: space_inv_def) (metis of_nat_le_iff of_nat_mult)
  moreover have "i \<notin> dom M" using run_begin(2) by auto
  ultimately show ?case
    using run_begin(2,4) b budget_None[of M i 0] by (simp add: space_inv_def algebra_simps del: fun_upd_apply)
next
  case (run_write s M i k b s')
  note w = log_write_space[OF run_write(4)]
  have f: "finite (dom M)" and n: "0 \<le> ln s" using run_write(5) by (auto simp: space_inv_def)
  have "dom (M(i \<mapsto> Suc k)) = dom M" using run_write(2) by auto
  then show ?case
    using run_write(3,5) w[OF n] budget_Some(1)[OF f run_write(2)] budget_Some(2)[OF f run_write(2), of "Suc k"]
    by (simp add: space_inv_def del: fun_upd_apply)
next
  case (run_end s M i k me s')
  have f: "finite (dom M)" and n: "0 \<le> ln s" using run_end(4) by (auto simp: space_inv_def)
  have "card (dom M) > 0" using f run_end(2) by (auto simp: card_gt_0_iff)
  then show ?case
    using run_end(2,4) end_op_space[OF run_end(3) n] budget_Some(1)[OF f run_end(2)] f
    by (simp add: space_inv_def domI of_nat_diff del: fun_upd_apply)
next
  case (run_other s M s')
  then show ?case using logst_frame[OF run_other(2)] by (simp add: space_inv_def)
qed

section \<open>Properties\<close>

text \<open>A state with an empty cache and log, for witnesses.\<close>

definition logst0 :: "(nat \<Rightarrow> block) \<Rightarrow> logst" where
  "logst0 D = bcache.extend (bcache0\<lparr>dsk := D\<rparr>)
     \<lparr>lstart = 2, lsize = 30, outstanding = 0, committing = False, ldev = ROOTDEV, ln = 0, lblock = (\<lambda>_. 0)\<rparr>"

lemma logst0_sel [simp]:
  "bufs (logst0 D) = (\<lambda>_. zero_buf)" "dsk (logst0 D) = D" "lstart (logst0 D) = 2" "ldev (logst0 D) = ROOTDEV"
  "ln (logst0 D) = 0" "outstanding (logst0 D) = 0" "\<not> committing (logst0 D)" "lsize (logst0 D) = 30"
  by (simp_all add: logst0_def bcache.defs bcache0_def phys.defs phys0_def)

lemma clean_binit:
  assumes "bufs s = (\<lambda>_. zero_buf)"
  shows "clean_cache (binit s)"
proof -
  note b = binit_inv[OF assms]
  have "\<forall>i<NBUF. \<not> is_blk ROOTDEV c (bufs (binit s) i)" for c using b(4) by (simp add: ROOTDEV_def)
  then have "vref (absc (binit s)) c = 0 \<and> vlock (absc (binit s)) c = None" for c using vref_none[of "binit s" c] by blast
  then show ?thesis using b by (simp add: clean_cache_def fun_eq_iff)
qed

lemma binit_frame: "bframe s (binit s)"
proof -
  have "bframe t (fold binit_step xs t)" for xs and t :: "'a bcache_scheme"
  proof (induction xs arbitrary: t)
    case (Cons x xs)
    have "bframe t (binit_step x t)"
      unfolding binit_step_def Let_def by (intro bframe_upd_bufI bframe_refl)
    then show ?case using Cons bframe_trans by fastforce
  qed simp
  moreover have "bframe s (set_next NBUF NBUF (set_prev NBUF NBUF s))" by (intro bframe_upd_bufI bframe_refl)
  ultimately show ?thesis unfolding binit_def Let_def using bframe_trans by blast
qed

lemma write_blocks_over: "c \<in> fst ` set ws \<Longrightarrow> write_blocks ws D c = write_blocks ws E c"
proof (induction ws arbitrary: D E)
  case (Cons w ws)
  obtain b d where w: "w = (b, d)" by fastforce
  show ?case
  proof (cases "c \<in> fst ` set ws")
    case True
    then show ?thesis using Cons.IH w by simp
  next
    case False
    then show ?thesis using Cons.prems w write_blocks_out[OF False] by simp
  qed
qed simp

text \<open>C1. A transaction is atomic under crashes. In the state in which end_op commits (no active system call, the
  logged blocks pinned), commit returns, every block outside the log area is on disk with its cached
  contents, and if the machine stops after any number of the disk writes commit makes, the disk
  recovers either to the old contents of all blocks or to the new contents of all blocks.\<close>

theorem commit_crash_atomic:
  assumes "commit_ready s"
  shows "\<exists>s' ws. commit me s = Inr s' \<and> wtrace s' = rev ws @ wtrace s \<and> commit_ready s' \<and> ln s' = 0 \<and>
    (\<forall>b. b \<notin> log_area (lstart s) \<longrightarrow> dsk s' b = blk s b \<and> blk s' b = blk s b) \<and>
    (\<forall>k D. D = write_blocks (take k ws) (dsk s) \<longrightarrow> log_wf (lstart s) D \<and>
       ((\<forall>b. b \<notin> log_area (lstart s) \<longrightarrow> recovered (lstart s) D b = dsk s b) \<or>
        (\<forall>b. b \<notin> log_area (lstart s) \<longrightarrow> recovered (lstart s) D b = blk s b)))"
proof (cases "0 < ln s")
  case False
  then have n: "ln s = 0" "commit me s = Inr s" using assms by (auto simp: commit_ready_def commit_def)
  then have "blk s = dsk s" "hdr_n (dsk s (lstart s)) = 0" using assms by (auto simp: commit_ready_def)
  then show ?thesis
    using n assms by (intro exI[of _ s] exI[of _ "[]"]) (auto simp: log_wf_def recovered_none)
next
  case True
  let ?L = "lstart s" let ?B = "lblock s" let ?n = "nat (ln s)"
  let ?ws = "commit_writes ?L (blk s) ?B ?n"
  note cr = assms[unfolded commit_ready_def]
  note rf = commit_ready_refs[OF assms]
  obtain s' where s': "commit me s = Inr s'" "bio_inv s'" "bframe (s\<lparr>ln := 0\<rparr>) s'"
    "absc s' = \<lparr>vblk = write_blocks ?ws (blk s), vdsk = write_blocks ?ws (dsk s),
      vref = (\<lambda>_. 0), vlock = (\<lambda>_. None), vtrace = rev ?ws @ wtrace s\<rparr>"
    using commit_v[OF assms True, of me] by blast
  have b: "blk s' = write_blocks ?ws (blk s)" "dsk s' = write_blocks ?ws (dsk s)" "wtrace s' = rev ?ws @ wtrace s"
    using s'(4) absc_sel[of s'] by simp_all
  note pre = commit_prefix[OF rf(2), of ?B ?L "dsk s" "blk s"]
  have pre: "log_wf ?L D \<and> (if k \<le> ?n then \<forall>b. b \<notin> log_area ?L \<longrightarrow> recovered ?L D b = dsk s b
     else \<forall>b. b \<notin> log_area ?L \<longrightarrow> recovered ?L D b = blk s b)" if "D = write_blocks (take k ?ws) (dsk s)" for k D
    by (rule pre) (use cr that in auto)
  have last: "hdr_n (dsk s' ?L) = 0"
    unfolding b commit_writes_def write_blocks_append by (simp add: put_head_zero)
  have eq: "blk s' = dsk s'"
  proof
    fix c
    have "c \<in> fst ` set ?ws" if "c \<in> ?B ` {..<?n}" using that by (force simp: commit_writes_def)
    moreover have "c \<notin> ?B ` {..<?n} \<Longrightarrow> blk s c = dsk s c" using cr by blast
    ultimately show "blk s' c = dsk s' c"
      unfolding b by (metis write_blocks_out write_blocks_over)
  qed
  have "length ?ws = 2 * ?n + 2" by (simp add: commit_writes_def log_writes_def)
  then have "log_wf ?L (dsk s') \<and> (\<forall>b. b \<notin> log_area ?L \<longrightarrow> recovered ?L (dsk s') b = blk s b)"
    using pre[of "dsk s'" "length ?ws"] b by simp
  then have fin: "\<forall>c. c \<notin> log_area ?L \<longrightarrow> dsk s' c = blk s c" using recovered_none[of "dsk s'" ?L, OF last] by simp
  have f: "ln s' = 0" "lstart s' = ?L" "ldev s' = ROOTDEV" using logst_frame[OF s'(3)] cr by simp_all
  have "commit_ready s'"
    using s'(2,4) f eq last by (simp add: commit_ready_def NBUF_def MAXOPBLOCKS_def)
  moreover have "log_wf ?L D \<and> ((\<forall>b. b \<notin> log_area ?L \<longrightarrow> recovered ?L D b = dsk s b) \<or>
       (\<forall>b. b \<notin> log_area ?L \<longrightarrow> recovered ?L D b = blk s b))" if "D = write_blocks (take k ?ws) (dsk s)" for k D
    using pre[OF that] by (cases "k \<le> ?n") simp_all
  ultimately show ?thesis
    using s'(1) b(3) f(1) fin eq by (intro exI[of _ s'] exI[of _ ?ws]) simp
qed

text \<open>C10. Recovery works and may itself be interrupted: booting (binit, then initlog) on any disk with a
  well-formed log returns, leaves an empty log and a clean cache, and gives every block outside the
  log area the contents the disk means; and a crash after any number of the writes of recovery leaves
  a disk with a well-formed log and the same meaning.\<close>

theorem initlog_recovers:
  assumes "bufs s = (\<lambda>_. zero_buf)" "log_wf L (dsk s)"
  shows "\<exists>s' ws. initlog me ROOTDEV L nlog (binit s) = Inr s' \<and> wtrace s' = rev ws @ wtrace (binit s) \<and>
    clean_cache s' \<and> ln s' = 0 \<and> hdr_n (dsk s' L) = 0 \<and> lstart s' = L \<and> lsize s' = int nlog \<and>
    (\<forall>b. b \<notin> log_area L \<longrightarrow> dsk s' b = recovered L (dsk s) b) \<and>
    (\<forall>k D. D = write_blocks (take k ws) (dsk s) \<longrightarrow> log_wf L D \<and>
       (\<forall>b. b \<notin> log_area L \<longrightarrow> recovered L D b = recovered L (dsk s) b))"
proof -
  let ?t = "(binit s)\<lparr>lstart := L, lsize := int nlog, ldev := ROOTDEV\<rparr>"
  have e: "bufs ?t = bufs (binit s)" "dsk ?t = dsk (binit s)" "wtrace ?t = wtrace (binit s)" by simp_all
  have d: "dsk (binit s) = dsk s" by (rule binit_inv(3)[OF assms(1)])
  have c: "clean_cache ?t"
    using clean_binit[OF assms(1)] absc_ext(1,2)[OF e] absc_sel(1)[of ?t] absc_sel(1)[of "binit s"]
    by (simp add: clean_cache_def)
  obtain s' h where s': "recover_from_log me ?t = Inr s'" "clean_cache s'" "hdr_n h = 0"
    "dsk s' = (write_blocks (recovery_writes L (dsk s)) (dsk s))(L := h)"
    "wtrace s' = (L, h) # rev (recovery_writes L (dsk s)) @ wtrace (binit s)" "ln s' = 0" "lstart s' = L" "lsize s' = int nlog"
    using recover_v[OF c, of me] assms(2) d by auto
  let ?ws = "recovery_writes L (dsk s) @ [(L, h)]"
  note p = recovery_prefix[OF assms(2) _ s'(3)]
  have "dsk s' = write_blocks (take (length ?ws) ?ws) (dsk s)" using s'(4) by (simp add: write_blocks_append)
  note q = p[OF this]
  have h: "hdr_n (dsk s' L) = 0" using s'(3,4) by simp
  have "\<forall>b. b \<notin> log_area L \<longrightarrow> dsk s' b = recovered L (dsk s) b" using q recovered_none[of "dsk s'" L, OF h] by simp
  moreover have "initlog me ROOTDEV L nlog (binit s) = Inr s'"
    using s'(1) by (simp add: initlog_def sizeof_logheader_def LOGSIZE_def MAXOPBLOCKS_def BSIZE_def)
  ultimately show ?thesis
    using s' h p by (intro exI[of _ s'] exI[of _ ?ws]) simp
qed

theorem initlog_recovers_witness:
  "\<exists>s'. initlog 1 ROOTDEV 2 30 (binit (logst0 (\<lambda>_ _. 0))) = Inr s' \<and> ln s' = 0"
proof -
  have "hdr_n (\<lambda>_. 0) = 0" by (simp add: hdr_n_def rd32_def rdbytes_def upt_rec)
  then have "log_wf 2 (dsk (logst0 (\<lambda>_ _. 0)))" by (simp add: log_wf_def)
  with initlog_recovers[of "logst0 (\<lambda>_ _. 0)" 2 1 30] show ?thesis by auto
qed

lemma log_index_iff:
  assumes "0 \<le> ln s"
  shows "int (log_index s b) = ln s \<longleftrightarrow> b \<notin> lblock s ` {..<nat (ln s)}"
proof (cases "find (\<lambda>i. lblock s i = b) [0..<nat (ln s)]")
  case None
  then have "b \<notin> lblock s ` {..<nat (ln s)}" by (auto simp: find_upt_None)
  then show ?thesis using None assms by (simp add: log_index_def)
next
  case (Some j)
  then have j: "j < nat (ln s)" "lblock s j = b" by (simp_all add: find_upt_Some)
  then have "b \<in> lblock s ` {..<nat (ln s)}" by auto
  then show ?thesis using Some j(1) assms by (simp add: log_index_def)
qed

text \<open>C23. begin_op reserves enough log space: while system calls keep to MAXOPBLOCKS log writes each, however
  they interleave, the log never holds more than LOGSIZE blocks, and a call that has writes left
  never panics when the on-disk log has more than LOGSIZE blocks.\<close>

theorem log_space_reserved:
  assumes "log_run s M" "M i = Some k" "k < MAXOPBLOCKS"
  shows "0 \<le> ln s \<and> ln s < int LOGSIZE \<and> (int LOGSIZE < lsize s \<longrightarrow> (\<exists>s'. log_write b s = Inr s' \<and>
    ln s' = (if blockno (bufs s b) \<in> lblock s ` {..<nat (ln s)} then ln s else ln s + 1)))"
proof -
  note inv = log_run_space[OF assms(1), unfolded space_inv_def]
  have f: "finite (dom M)" using inv by simp
  have "0 < budget M" using budget_Some(1)[OF f assms(2)] assms(3) by simp
  then have l: "ln s < int LOGSIZE" "0 \<le> ln s" using inv by auto
  have "0 < card (dom M)" using f assms(2) by (auto simp: card_gt_0_iff)
  then have o: "1 \<le> outstanding s" using inv by simp
  show ?thesis using l o log_index_iff[OF l(2)] by (auto simp: log_write_def Let_def bpin_def)
qed

theorem log_space_reserved_witness:
  "0 \<le> ln ((logst0 (\<lambda>_ _. 0))\<lparr>outstanding := 1\<rparr>) \<and> ln ((logst0 (\<lambda>_ _. 0))\<lparr>outstanding := 1\<rparr>) < int LOGSIZE"
proof -
  have "log_run (logst0 (\<lambda>_ _. 0)) Map.empty" by (rule run_start) simp_all
  moreover have "begin_op (logst0 (\<lambda>_ _. 0)) = Inr ((logst0 (\<lambda>_ _. 0))\<lparr>outstanding := 1\<rparr>)"
    by (simp add: begin_op_def MAXOPBLOCKS_def LOGSIZE_def)
  ultimately have "log_run ((logst0 (\<lambda>_ _. 0))\<lparr>outstanding := 1\<rparr>) [0 \<mapsto> 0]" by (intro run_begin) auto
  from log_space_reserved[OF this, of 0 0] show ?thesis by (simp add: MAXOPBLOCKS_def)
qed

definition fill_map :: "nat \<Rightarrow> (nat \<rightharpoonup> nat)" where
  "fill_map k = (\<lambda>i. if i < 3 then Some (min 10 (k - 10 * i)) else None)"

lemma fill_map_Suc:
  assumes "k = 10 * q + r" "r < 10" "q < 3"
  shows "fill_map k q = Some r" "fill_map (Suc k) = (fill_map k)(q \<mapsto> Suc r)"
proof -
  show "fill_map k q = Some r" using assms by (simp add: fill_map_def)
  have "min 10 (Suc k - 10 * i) = min 10 (k - 10 * i)" if "i \<noteq> q" for i
  proof (cases "i < q")
    case True
    then have "10 * i + 10 \<le> 10 * q" by simp
    then show ?thesis using assms(1) by simp
  next
    case False
    then have "10 * q + 10 \<le> 10 * i" using that by simp
    then show ?thesis using assms(1,2) by simp
  qed
  then show "fill_map (Suc k) = (fill_map k)(q \<mapsto> Suc r)"
    using assms by (auto simp: fill_map_def fun_eq_iff)
qed

lemma log_fill:
  "k \<le> 29 \<Longrightarrow> \<exists>s :: logst. log_run s (fill_map k) \<and> ln s = int k \<and> (\<forall>i<k. lblock s i = i) \<and>
     (\<forall>i. blockno (bufs s i) = i) \<and> lsize s = int LOGSIZE \<and> outstanding s = 3"
proof (induction k)
  case 0
  let ?s = "(logst0 (\<lambda>_ _. 0))\<lparr>bufs := (\<lambda>i. zero_buf\<lparr>blockno := i\<rparr>)\<rparr>"
  have r: "log_run (?s\<lparr>outstanding := 0\<rparr>) Map.empty" by (rule run_start) simp_all
  have b: "\<And>n. 0 \<le> n \<Longrightarrow> n \<le> 2 \<Longrightarrow> begin_op (?s\<lparr>outstanding := n\<rparr>) = Inr (?s\<lparr>outstanding := n + 1\<rparr>)"
    by (simp add: begin_op_def MAXOPBLOCKS_def LOGSIZE_def)
  have r1: "log_run (?s\<lparr>outstanding := 1\<rparr>) (Map.empty(0 \<mapsto> 0))"
    using run_begin[OF r, where i = 0] b[of 0] by simp
  have r2: "log_run (?s\<lparr>outstanding := 2\<rparr>) (Map.empty(0 \<mapsto> 0, 1 \<mapsto> 0))"
    using run_begin[OF r1, where i = 1] b[of 1] by simp
  have r3: "log_run (?s\<lparr>outstanding := 3\<rparr>) (Map.empty(0 \<mapsto> 0, 1 \<mapsto> 0, 2 \<mapsto> 0))"
    using run_begin[OF r2, where i = 2] b[of 2] by simp
  have "fill_map 0 = Map.empty(0 \<mapsto> 0, 1 \<mapsto> 0, 2 \<mapsto> 0)" by (auto simp: fill_map_def fun_eq_iff)
  with r3 have "log_run (?s\<lparr>outstanding := 3\<rparr>) (fill_map 0)" by metis
  then show ?case
    by (intro exI[of _ "?s\<lparr>outstanding := 3\<rparr>"]) (simp add: LOGSIZE_def MAXOPBLOCKS_def)
next
  case (Suc k)
  then obtain s :: logst where s: "log_run s (fill_map k)" "ln s = int k" "\<forall>i<k. lblock s i = i" "\<forall>i. blockno (bufs s i) = i"
    "lsize s = int LOGSIZE" "outstanding s = 3" by auto
  have "k \<notin> lblock s ` {..<k}" using s(3) by auto
  then have ix: "log_index s k = k" using log_index_iff[of s k] s(2) by simp
  let ?s = "(bpin k (s\<lparr>lblock := (lblock s)(k := k)\<rparr>))\<lparr>ln := ln s + 1\<rparr>"
  have w: "log_write k s = Inr ?s"
    using s Suc.prems ix by (simp add: log_write_def Let_def LOGSIZE_def MAXOPBLOCKS_def)
  have q: "k = 10 * (k div 10) + k mod 10" "k mod 10 < 10" "k div 10 < 3" using Suc.prems by simp_all
  have "log_run ?s (fill_map (Suc k))"
    unfolding fill_map_Suc(2)[OF q]
    by (rule run_write[OF s(1) fill_map_Suc(1)[OF q] _ w]) (simp add: MAXOPBLOCKS_def)
  then show ?case using s by (intro exI[of _ ?s]) (auto simp: bpin_def upd_buf_def less_Suc_eq)
qed

text \<open>C24. With the log size that mkfs writes (LOGSIZE blocks, one of them the header) the reservation is one
  block short: there is a run in which begin_op admits three system calls, all of them stay within
  MAXOPBLOCKS log writes, and log_write still panics.\<close>

theorem log_admits_then_panics:
  "\<exists>(s :: logst) M i k. log_run s M \<and> lsize s = int LOGSIZE \<and> M i = Some k \<and> k < MAXOPBLOCKS \<and>
     log_write 29 s = Inl (Panic ''too big a transaction'')"
proof -
  obtain s :: logst where s: "log_run s (fill_map 29)" "ln s = int 29" "lsize s = int LOGSIZE" using log_fill[of 29] by auto
  then have "log_write 29 s = Inl (Panic ''too big a transaction'')"
    by (simp add: log_write_def LOGSIZE_def MAXOPBLOCKS_def)
  then show ?thesis
    using s by (intro exI[of _ s] exI[of _ "fill_map 29"] exI[of _ 2] exI[of _ 9])
      (simp add: fill_map_def MAXOPBLOCKS_def)
qed

end
