(* ===== verification/Xv6_Txn.thy ===== *)
theory Xv6_Txn
  imports Xv6_Crash
begin

text \<open>
  Inside a transaction. The invariant that holds between \<^verbatim>\<open>begin_op\<close> and \<^verbatim>\<open>end_op\<close>, and the effect of
  the pattern the file system uses for every change of a block, bread, store, log_write, brelse:
  the cached contents of that one block change, the block is in the log, and nothing else moves.
\<close>

section \<open>The invariant of an open transaction\<close>

definition logged :: "'a logst_scheme \<Rightarrow> nat set" where
  "logged s = lblock s ` {..<nat (ln s)}"

definition txn_inv :: "'a logst_scheme \<Rightarrow> bool" where
  "txn_inv s \<longleftrightarrow>
     bio_inv s \<and> ldev s = ROOTDEV \<and> 0 \<le> ln s \<and> ln s < int NBUF \<and> inj_on (lblock s) {..<nat (ln s)} \<and>
     (\<forall>b\<in>logged s. b < 2 ^ 32 \<and> b \<notin> log_area (lstart s)) \<and>
     (\<forall>b. vref (absc s) b = of_bool (b \<in> logged s) + of_bool (vlock (absc s) b \<noteq> None)) \<and>
     (\<forall>b. b \<notin> logged s \<longrightarrow> vlock (absc s) b = None \<longrightarrow> blk s b = dsk s b) \<and> hdr_n (dsk s (lstart s)) = 0"

definition locked_blocks :: "'a bcache_scheme \<Rightarrow> nat set" where
  "locked_blocks s = {b. vlock (absc s) b \<noteq> None}"

lemma txn_inv_commit_ready: "commit_ready s \<longleftrightarrow> txn_inv s \<and> locked_blocks s = {}"
  by (auto simp: commit_ready_def txn_inv_def logged_def locked_blocks_def fun_eq_iff)

lemma txn_referenced:
  assumes "txn_inv s"
  shows "{c. 0 < vref (absc s) c} = logged s \<union> locked_blocks s"
  using assms by (auto simp: txn_inv_def locked_blocks_def)

text \<open>There is a buffer for one more block.\<close>

definition buffer_room :: "'a logst_scheme \<Rightarrow> bool" where
  "buffer_room s \<longleftrightarrow> card (logged s \<union> locked_blocks s) < NBUF"

lemma finite_txn_blocks: "txn_inv s \<Longrightarrow> finite (logged s \<union> locked_blocks s)"
  using finite_referenced[of s] txn_referenced[of s] by (simp add: txn_inv_def)

lemma absc_vdsk: "absc s = v \<Longrightarrow> dsk s = vdsk v" "absc s = v \<Longrightarrow> blk s = vblk v" "absc s = v \<Longrightarrow> wtrace s = vtrace v"
  using absc_sel[of s] by auto

lemma txn_bread:
  assumes "txn_inv s" "vlock (absc s) b = None" "b \<in> logged s \<or> buffer_room s"
  obtains i s' where "bread me ROOTDEV b s = Inr (i, s')" "txn_inv s'" "holds me i b s'" "bframe s s'"
    "absc s' = v_bread me b (absc s)" "bdata (bufs s' i) = blk s b" "logged s' = logged s"
    "\<And>me' j c. holds me' j c s \<Longrightarrow> holds me' j c s'"
proof -
  have inv: "bio_inv s" and r: "vref (absc s) b = of_bool (b \<in> logged s)"
    using assms(1,2) by (auto simp: txn_inv_def)
  have av: "0 < vref (absc s) b \<or> card {c. 0 < vref (absc s) c} < NBUF"
    using assms(3) r by (auto simp: buffer_room_def txn_referenced[OF assms(1)])
  obtain i s' where s': "bread me ROOTDEV b s = Inr (i, s')" "bio_inv s'" "holds me i b s'" "bframe s s'"
    "absc s' = v_bread me b (absc s)" "bdata (bufs s' i) = blk s b" "\<And>me' j c. holds me' j c s \<Longrightarrow> holds me' j c s'"
    by (rule bread_ok[OF inv refl assms(2) av, where me = me]) blast
  note f = logst_frame[OF s'(4)]
  have l: "logged s' = logged s" using f by (simp add: logged_def)
  have "txn_inv s'"
    using assms(1,2) s'(2) f l absc_vdsk[OF s'(5)] s'(5) by (auto simp: txn_inv_def v_defs)
  then show thesis using that s' l by blast
qed

lemma txn_set:
  assumes "txn_inv s" "holds me i b s"
  shows "txn_inv (set_data i f s)" "logged (set_data i f s) = logged s"
proof -
  have inv: "bio_inv s" using assms(1) by (simp add: txn_inv_def)
  note v = set_data_v[OF inv assms(2), where f = f]
  note fr = logst_frame[OF v(3)]
  show l: "logged (set_data i f s) = logged s" using fr by (simp add: logged_def)
  show "txn_inv (set_data i f s)"
    using assms(1) v(2) fr l absc_vdsk[OF v(1)] v(1) holds_v(1)[OF inv assms(2)] by (auto simp: txn_inv_def v_defs)
qed

lemma txn_brelse:
  assumes "txn_inv s" "holds me i b s" "b \<in> logged s \<or> blk s b = dsk s b"
  obtains s' where "brelse me i s = Inr s'" "txn_inv s'" "absc s' = v_brelse b (absc s)" "bframe s s'" "logged s' = logged s"
    "\<And>me' j c. c \<noteq> b \<Longrightarrow> holds me' j c s \<Longrightarrow> holds me' j c s'"
proof -
  have inv: "bio_inv s" using assms(1) by (simp add: txn_inv_def)
  note h = holds_v[OF inv assms(2)]
  have "vref (absc s) b = 1 \<Longrightarrow> blk s b = dsk s b" using assms(1,3) h by (auto simp: txn_inv_def)
  then obtain s' where s': "brelse me i s = Inr s'" "bio_inv s'" "absc s' = v_brelse b (absc s)" "bframe s s'"
    "\<And>me' j c. c \<noteq> b \<Longrightarrow> holds me' j c s \<Longrightarrow> holds me' j c s'"
    using brelse_v[OF inv assms(2)] by metis
  note f = logst_frame[OF s'(4)]
  have l: "logged s' = logged s" using f by (simp add: logged_def)
  have r: "vref (absc s) b = of_bool (b \<in> logged s) + 1" using assms(1) h by (auto simp: txn_inv_def)
  have "txn_inv s'"
    using assms(1,3) s'(2) f l absc_vdsk[OF s'(3)] s'(3) r by (auto simp: txn_inv_def v_defs)
  then show thesis using that s' l by blast
qed

section \<open>log\_write\<close>

definition log_room :: "'a logst_scheme \<Rightarrow> bool" where
  "log_room s \<longleftrightarrow> 0 < outstanding s \<and> ln s < lsize s - 1 \<and> lsize s \<le> int LOGSIZE"

text \<open>Only the cache, the disk and the list of logged blocks changed.\<close>

definition lframe :: "'a logst_scheme \<Rightarrow> 'a logst_scheme \<Rightarrow> bool" where
  "lframe s s' \<longleftrightarrow> (\<exists>B D W K n bs. s' = s\<lparr>bufs := B, dsk := D, wtrace := W, woken := K, ln := n, lblock := bs\<rparr>)"

lemma lframe_trans: "lframe s t \<Longrightarrow> lframe t u \<Longrightarrow> lframe s u"
  unfolding lframe_def by (elim exE) (simp, metis)

lemma bframe_lframe: "bframe s t \<Longrightarrow> lframe s t"
  unfolding bframe_def lframe_def
  by (elim exE, rule exI, rule exI, rule exI, rule exI, rule exI[of _ "ln s"], rule exI[of _ "lblock s"]) (cases s, simp)

lemma lframe_sel:
  "lframe s s' \<Longrightarrow> lstart s' = lstart s" "lframe s s' \<Longrightarrow> lsize s' = lsize s"
  "lframe s s' \<Longrightarrow> outstanding s' = outstanding s" "lframe s s' \<Longrightarrow> committing s' = committing s"
  "lframe s s' \<Longrightarrow> ldev s' = ldev s" "lframe s s' \<Longrightarrow> logst.more s' = logst.more s"
  "lframe s s' \<Longrightarrow> pmem s' = pmem s" "lframe s s' \<Longrightarrow> freelist s' = freelist s"
  by (auto simp: lframe_def)

lemma log_write_frame: "log_write i s = Inr s' \<Longrightarrow> lframe s s'"
proof -
  have a: "lframe s (s\<lparr>bufs := B, lblock := l, ln := n\<rparr>)" for B l n
    unfolding lframe_def
    by (rule exI[of _ B], rule exI[of _ "dsk s"], rule exI[of _ "wtrace s"], rule exI[of _ "woken s"], rule exI[of _ n], rule exI[of _ l])
      (cases s, simp)
  from a[where B = "bufs s" and n = "ln s"] a show "log_write i s = Inr s' \<Longrightarrow> lframe s s'"
    by (cases s) (auto simp: log_write_def Let_def bpin_def upd_buf_def split: if_splits)
qed

lemma logged_absorb:
  assumes "0 \<le> ln s" "b \<in> logged s"
  shows "log_index s b < nat (ln s)" "(lblock s)(log_index s b := b) = lblock s"
proof -
  from assms(2) have "find (\<lambda>i. lblock s i = b) [0..<nat (ln s)] \<noteq> None" by (auto simp: find_upt_None logged_def)
  then obtain j where j: "find (\<lambda>i. lblock s i = b) [0..<nat (ln s)] = Some j" by blast
  then have "j < nat (ln s)" "lblock s j = b" by (simp_all add: find_upt_Some)
  then show "log_index s b < nat (ln s)" "(lblock s)(log_index s b := b) = lblock s"
    by (auto simp: log_index_def j)
qed

lemma txn_log_write:
  assumes "txn_inv s" "holds me i b s" "b < 2 ^ 32" "b \<notin> log_area (lstart s)" "log_room s"
  obtains s' where "log_write i s = Inr s'" "txn_inv s'" "logged s' = insert b (logged s)" "holds me i b s'" "lframe s s'"
    "blk s' = blk s" "dsk s' = dsk s" "vlock (absc s') = vlock (absc s)" "ln s' = ln s + of_bool (b \<notin> logged s)"
    "\<And>me' j c. holds me' j c s \<Longrightarrow> holds me' j c s'"
proof -
  have inv: "bio_inv s" and n: "0 \<le> ln s" "ln s < int NBUF" using assms(1) by (auto simp: txn_inv_def)
  have bn: "blockno (bufs s i) = b" using assms(2) by (auto simp: holds_def caches_def)
  have ok: "\<not> (ln s \<ge> int LOGSIZE \<or> ln s \<ge> lsize s - 1)" "\<not> outstanding s < 1" using assms(5) by (auto simp: log_room_def)
  show thesis
  proof (cases "b \<in> logged s")
    case True
    note a = logged_absorb[OF n(1) True]
    have w: "log_write i s = Inr s"
      using ok a bn n(1) by (simp add: log_write_def Let_def)
    show thesis by (rule that[OF w assms(1)]) (use True assms(2) in \<open>auto intro: bframe_lframe\<close>)
  next
    case False
    then have ix: "log_index s b = nat (ln s)" using log_index_iff[OF n(1), of b] n(1) by (simp add: logged_def)
    let ?s1 = "s\<lparr>lblock := (lblock s)(nat (ln s) := b)\<rparr>"
    let ?s2 = "bpin i ?s1"
    let ?s3 = "?s2\<lparr>ln := ln s + 1\<rparr>"
    have w: "log_write i s = Inr ?s3" using ok bn ix n(1) by (simp add: log_write_def Let_def)
    note x1 = absc_ext[of ?s1 s, simplified]
    have h1: "holds me i b ?s1" using assms(2) x1 by simp
    note p = pin_v[OF _ h1] x1(2)
    have inv1: "bio_inv ?s1" using inv x1(2) by simp
    note p = pin_v[OF inv1 h1]
    note x3 = absc_ext[of ?s3 ?s2, simplified]
    have v3: "absc ?s3 = v_pin b 1 (absc s)" using x3(1) p(1) x1(1) by simp
    have lg: "logged ?s3 = insert b (logged s)"
    proof -
      have "lblock ?s3 = (lblock s)(nat (ln s) := b)" using logst_frame(7)[OF p(3)] by simp
      moreover have "nat (ln ?s3) = Suc (nat (ln s))" using n(1) by simp
      ultimately show ?thesis by (auto simp: logged_def lessThan_Suc)
    qed
    have fr: "lframe s ?s3" by (rule log_write_frame[OF w])
    have hv: "vlock (absc s) b = Some me" "vref (absc s) b = 1"
      using holds_v(1)[OF inv assms(2)] assms(1) False by (auto simp: txn_inv_def)
    have lb: "lblock ?s3 = (lblock s)(nat (ln s) := b)" "ln ?s3 = ln s + 1" using logst_frame(7)[OF p(3)] by simp_all
    have fi: "bio_inv ?s3" using x3(2) p(2) by simp
    have inj: "inj_on (lblock ?s3) {..<nat (ln ?s3)}"
    proof -
      have "nat (ln ?s3) = Suc (nat (ln s))" using n(1) by simp
      then show ?thesis
        unfolding lb(1) lessThan_Suc using assms(1) False
        by (auto simp: txn_inv_def logged_def inj_on_def)
    qed
    have "ln ?s3 < int NBUF" using assms(5) by (simp add: log_room_def LOGSIZE_def NBUF_def)
    moreover have "\<forall>c\<in>logged ?s3. c < 2 ^ 32 \<and> c \<notin> log_area (lstart ?s3)"
      unfolding lg using assms(1,3,4) lframe_sel(1)[OF fr] by (auto simp: txn_inv_def)
    moreover have "\<forall>c. vref (absc ?s3) c = of_bool (c \<in> logged ?s3) + of_bool (vlock (absc ?s3) c \<noteq> None)"
      unfolding lg v3 using assms(1) hv False by (auto simp: txn_inv_def v_defs)
    moreover have "\<forall>c. c \<notin> logged ?s3 \<longrightarrow> vlock (absc ?s3) c = None \<longrightarrow> blk ?s3 c = dsk ?s3 c"
      unfolding lg absc_vdsk[OF v3] v3 using assms(1) by (auto simp: txn_inv_def v_defs)
    moreover have "hdr_n (dsk ?s3 (lstart ?s3)) = 0" "ldev ?s3 = ROOTDEV" "0 \<le> ln ?s3"
      using assms(1) absc_vdsk[OF v3] lframe_sel[OF fr] n(1) by (auto simp: txn_inv_def v_defs)
    ultimately have "txn_inv ?s3" using fi inj unfolding txn_inv_def by blast
    then show thesis
      using that[OF w] lg fr x3(3) p(4) h1 x1(3) absc_vdsk[OF v3] v3 False lb(2) by (simp add: v_defs)
  qed
qed

section \<open>Changing one block\<close>

text \<open>The pattern of \<^verbatim>\<open>balloc\<close>, \<^verbatim>\<open>bfree\<close>, \<^verbatim>\<open>bzero\<close>, \<^verbatim>\<open>iupdate\<close>, \<^verbatim>\<open>ialloc\<close> and \<^verbatim>\<open>writei\<close>: read a block, store into it, log
  it, release it.\<close>

definition txn_step :: "nat set \<Rightarrow> 'a logst_scheme \<Rightarrow> 'a logst_scheme \<Rightarrow> bool" where
  "txn_step bs s s' \<longleftrightarrow> txn_inv s' \<and> lframe s s' \<and> vlock (absc s') = vlock (absc s) \<and> logged s' = logged s \<union> bs \<and>
     (\<forall>b. b \<notin> bs \<longrightarrow> blk s' b = blk s b)"

lemma txn_read:
  assumes "txn_inv s" "vlock (absc s) b = None" "b \<in> logged s \<or> buffer_room s"
  obtains i s1 s2 where "bread me ROOTDEV b s = Inr (i, s1)" "bdata (bufs s1 i) = blk s b" "brelse me i s1 = Inr s2"
    "txn_inv s2" "absc s2 = absc s" "bframe s s2" "logged s2 = logged s"
proof -
  obtain i s1 where s1: "bread me ROOTDEV b s = Inr (i, s1)" "txn_inv s1" "holds me i b s1" "bframe s s1"
    "absc s1 = v_bread me b (absc s)" "bdata (bufs s1 i) = blk s b" "logged s1 = logged s"
    by (rule txn_bread[OF assms, where me = me])
  have "b \<in> logged s1 \<or> blk s1 b = dsk s1 b"
    using assms(1,2) s1(7) absc_vdsk[OF s1(5)] by (auto simp: txn_inv_def v_defs)
  then obtain s2 where s2: "brelse me i s1 = Inr s2" "txn_inv s2" "absc s2 = v_brelse b (absc s1)" "bframe s1 s2" "logged s2 = logged s1"
    using txn_brelse[OF s1(2,3)] by metis
  have "absc s2 = absc s" using s2(3) s1(5) assms(2) by (intro vcache_eqI) (auto simp: v_defs)
  then show thesis using that s1(1,6) s2 bframe_trans[OF s1(4) s2(4)] s1(7) by metis
qed

lemma txn_write:
  assumes "txn_inv s" "vlock (absc s) b = None" "b \<in> logged s \<or> buffer_room s"
    and "b < 2 ^ 32" "b \<notin> log_area (lstart s)" "log_room s"
  obtains i s1 s2 s3 where "bread me ROOTDEV b s = Inr (i, s1)" "bdata (bufs s1 i) = blk s b"
    "log_write i (set_data i f s1) = Inr s2" "brelse me i s2 = Inr s3" "txn_step {b} s s3"
    "blk s3 b = f (blk s b)" "dsk s3 = dsk s"
proof -
  obtain i s1 where s1: "bread me ROOTDEV b s = Inr (i, s1)" "txn_inv s1" "holds me i b s1" "bframe s s1"
    "absc s1 = v_bread me b (absc s)" "bdata (bufs s1 i) = blk s b" "logged s1 = logged s"
    by (rule txn_bread[OF assms(1-3), where me = me])
  have inv1: "bio_inv s1" using s1(2) by (simp add: txn_inv_def)
  let ?t = "set_data i f s1"
  note v = set_data_v[OF inv1 s1(3), where f = f]
  note t = txn_set[OF s1(2,3), where f = f] v(4)[OF s1(3)]
  have ft: "bframe s ?t" using s1(4) v(3) by (rule bframe_trans)
  have rm: "log_room ?t" using assms(6) logst_frame[OF ft] by (simp add: log_room_def)
  have la: "b \<notin> log_area (lstart ?t)" using assms(5) logst_frame(1)[OF ft] by simp
  obtain s2 where s2: "log_write i ?t = Inr s2" "txn_inv s2" "logged s2 = insert b (logged ?t)" "holds me i b s2" "lframe ?t s2"
    "blk s2 = blk ?t" "dsk s2 = dsk ?t" "vlock (absc s2) = vlock (absc ?t)"
    by (rule txn_log_write[OF t(1,3) assms(4) la rm])
  obtain s3 where s3: "brelse me i s2 = Inr s3" "txn_inv s3" "absc s3 = v_brelse b (absc s2)" "bframe s2 s3" "logged s3 = logged s2"
    using txn_brelse[OF s2(2,4)] s2(3) by (metis insertI1)
  have fr: "lframe s s3" using bframe_lframe[OF ft] s2(5) bframe_lframe[OF s3(4)] by (meson lframe_trans)
  have b: "blk s3 = (blk s)(b := f (blk s b))" "dsk s3 = dsk s"
    using absc_vdsk[OF s3(3)] s2(6,7) absc_vdsk[OF v(1)] s1(5) absc_vdsk[OF s1(5)] by (simp_all add: v_defs)
  have vl: "vlock (absc s3) = vlock (absc s)"
    using s3(3) s2(8) v(1) s1(5) assms(2) by (simp add: v_defs fun_eq_iff)
  have "txn_step {b} s s3"
    using s3(2) fr vl b(1) s3(5) s2(3) t(2) s1(7) by (auto simp: txn_step_def)
  then show thesis using that[OF s1(1,6) s2(1) s3(1)] b by simp
qed

section \<open>A transaction of one block\<close>

definition txn0 :: logst where
  "txn0 = (binit (logst0 (\<lambda>_ _. 0)))\<lparr>outstanding := 1\<rparr>"

lemma txn0_inv: "txn_inv txn0" "vlock (absc txn0) = (\<lambda>_. None)" "logged txn0 = {}" "blk txn0 = (\<lambda>_ _. 0)"
  "dsk txn0 = (\<lambda>_ _. 0)" "log_room txn0" "lstart txn0 = 2"
proof -
  let ?s = "binit (logst0 (\<lambda>_ _. 0))"
  have c: "clean_cache ?s" by (rule clean_binit) simp
  have e: "bufs txn0 = bufs ?s" "dsk txn0 = dsk ?s" "wtrace txn0 = wtrace ?s" by (simp_all add: txn0_def)
  note x = absc_ext[OF e]
  have d: "dsk ?s = (\<lambda>_ _. 0)" using binit_inv(3)[of "logst0 (\<lambda>_ _. 0)"] by simp
  note f = logst_frame[OF binit_frame[of "logst0 (\<lambda>_ _. 0)"]]
  have l: "ln txn0 = 0" "lstart txn0 = 2" "ldev txn0 = ROOTDEV" "lsize txn0 = 30" "outstanding txn0 = 1"
    using f by (simp_all add: txn0_def)
  show "vlock (absc txn0) = (\<lambda>_. None)" using c x(1) by (simp add: clean_cache_def)
  show lg: "logged txn0 = {}" using l by (simp add: logged_def)
  have b: "blk txn0 = blk ?s" using absc_sel(1) x(1) by metis
  then show "blk txn0 = (\<lambda>_ _. 0)" using c d by (simp add: clean_cache_def)
  show "dsk txn0 = (\<lambda>_ _. 0)" using e d by simp
  have "hdr_n (\<lambda>_. 0) = 0" by (simp add: hdr_n_def rd32_def rdbytes_def upt_rec)
  then show "txn_inv txn0"
    using c x lg l b e d by (simp add: txn_inv_def clean_cache_def NBUF_def MAXOPBLOCKS_def)
  show "log_room txn0" using l by (simp add: log_room_def LOGSIZE_def MAXOPBLOCKS_def)
  show "lstart txn0 = 2" by (rule l)
qed

theorem commit_crash_atomic_witness:
  "\<exists>(s :: logst) s'. commit_ready s \<and> dsk s 100 \<noteq> blk s 100 \<and> commit 1 s = Inr s' \<and> dsk s' 100 = blk s 100"
proof -
  have "logged txn0 \<union> locked_blocks txn0 = {}" using txn0_inv by (simp add: locked_blocks_def)
  then have r: "buffer_room txn0" by (simp add: buffer_room_def NBUF_def MAXOPBLOCKS_def)
  have a: "vlock (absc txn0) 100 = None" "(100 :: nat) < 2 ^ 32" "100 \<notin> log_area (lstart txn0)"
    using txn0_inv by (auto simp: log_area_def LOGSIZE_def MAXOPBLOCKS_def)
  obtain s3 where s3: "txn_step {100} txn0 s3" "blk s3 100 = (\<lambda>_. 7)" "dsk s3 = dsk txn0"
    using txn_write[OF txn0_inv(1) a(1) disjI2[OF r] a(2,3) txn0_inv(6), where me = 1 and f = "\<lambda>_ _. 7"] by metis
  have cr: "commit_ready s3"
    using s3(1) txn0_inv(2) by (simp add: txn_inv_commit_ready txn_step_def locked_blocks_def)
  have "100 \<notin> log_area (lstart s3)" using s3(1) a(3) lframe_sel(1)[of txn0 s3] by (simp add: txn_step_def)
  then obtain s' where "commit 1 s3 = Inr s'" "dsk s' 100 = blk s3 100" using commit_crash_atomic[OF cr, of 1] by blast
  moreover have "dsk s3 100 \<noteq> blk s3 100"
    using s3(2,3) txn0_inv(5) by (simp add: fun_eq_iff)
  ultimately show ?thesis using cr by blast
qed

end
