(* ===== verification/Xv6_Uart.thy ===== *)
theory Xv6_Uart
  imports Xv6_Ring
begin

text \<open>
  The serial port driver, \<^verbatim>\<open>kernel/uart.c\<close>. The device is seen through its registers: the state
  records every register write, and what a read of the line status register answers is an argument,
  one answer for each read. The transmit buffer is an instance of the queue interface; shown is what
  \<^verbatim>\<open>uartstart\<close> and \<^verbatim>\<open>uartputc\<close> do to it. Whole histories of the driver, with everybody that
  writes to the device, are in \<open>Xv6_Serial\<close>.
\<close>

section \<open>State and operations\<close>

definition UART_TX_BUF_SIZE :: nat where "UART_TX_BUF_SIZE = 32"

definition THR :: nat where "THR = 0"
definition IER :: nat where "IER = 1"
definition FCR :: nat where "FCR = 2"
definition LCR :: nat where "LCR = 3"
definition IER_RX_ENABLE :: byte where "IER_RX_ENABLE = push_bit 0 1"
definition IER_TX_ENABLE :: byte where "IER_TX_ENABLE = push_bit 1 1"
definition FCR_FIFO_ENABLE :: byte where "FCR_FIFO_ENABLE = push_bit 0 1"
definition FCR_FIFO_CLEAR :: byte where "FCR_FIFO_CLEAR = push_bit 1 3"
definition LCR_EIGHT_BITS :: byte where "LCR_EIGHT_BITS = push_bit 0 3"
definition LCR_BAUD_LATCH :: byte where "LCR_BAUD_LATCH = push_bit 7 1"

unbundle bit_operations_syntax

record uart =
  uart_tx_buf :: "nat \<Rightarrow> byte"
  uart_tx_w :: uint64
  uart_tx_r :: uint64
  regwrites :: "(nat \<times> byte) list"       \<comment> \<open>register writes, in order\<close>

definition WriteReg :: "nat \<Rightarrow> byte \<Rightarrow> 'a uart_scheme \<Rightarrow> 'a uart_scheme" where
  "WriteReg reg v u = u\<lparr>regwrites := regwrites u @ [(reg, v)]\<rparr>"

definition uartinit :: "'a uart_scheme \<Rightarrow> 'a uart_scheme" where
  "uartinit u =
     (let u = WriteReg IER 0 u;
          u = WriteReg LCR LCR_BAUD_LATCH u;
          u = WriteReg 0 3 u;
          u = WriteReg 1 0 u;
          u = WriteReg LCR LCR_EIGHT_BITS u;
          u = WriteReg FCR (FCR_FIFO_ENABLE OR FCR_FIFO_CLEAR) u
      in WriteReg IER (IER_TX_ENABLE OR IER_RX_ENABLE) u)"

definition tx_put :: "byte \<Rightarrow> 'a uart_scheme \<Rightarrow> 'a uart_scheme" where
  "tx_put c u = u\<lparr>uart_tx_buf := (uart_tx_buf u)(unat (uart_tx_w u) mod UART_TX_BUF_SIZE := c), uart_tx_w := uart_tx_w u + 1\<rparr>"

definition tx_get :: "'a uart_scheme \<Rightarrow> byte \<times> 'a uart_scheme" where
  "tx_get u = (uart_tx_buf u (unat (uart_tx_r u) mod UART_TX_BUF_SIZE), u\<lparr>uart_tx_r := uart_tx_r u + 1\<rparr>)"

text \<open>The list says for each read of LSR whether the transmitter is idle; after it the device is busy.
  The channels woken are returned.\<close>

fun uartstart :: "bool list \<Rightarrow> 'a uart_scheme \<Rightarrow> 'a uart_scheme \<times> chan list" where
  "uartstart [] u = (u, [])"
| "uartstart (idle # lsr) u =
     (if uart_tx_w u = uart_tx_r u then (u, [])
      else if \<not> idle then (u, [])
      else let (c, u) = tx_get u;
               (u, wk) = uartstart lsr (WriteReg THR c u)
           in (u, ChUart # wk))"

definition uartputc :: "bool \<Rightarrow> bool list \<Rightarrow> byte \<Rightarrow> 'a uart_scheme \<Rightarrow> ('a uart_scheme \<times> chan list) res" where
  "uartputc panicked lsr c u =
     (if panicked then Inl Diverges
      else if uart_tx_w u = uart_tx_r u + of_nat UART_TX_BUF_SIZE then Inl (Sleeps ChUart)
      else Inr (uartstart lsr (tx_put c u)))"

text \<open>Spins until the transmitter is idle, which the device is assumed to become.\<close>

definition uartputc_sync :: "bool \<Rightarrow> byte \<Rightarrow> 'a uart_scheme \<Rightarrow> 'a uart_scheme res" where
  "uartputc_sync panicked c u = (if panicked then Inl Diverges else Inr (WriteReg THR c u))"

text \<open>What the receiver holds is an argument: the byte in RHR, or nothing.\<close>

definition uartgetc :: "byte option \<Rightarrow> int" where
  "uartgetc rhr = (case rhr of Some c \<Rightarrow> int (unat c) | None \<Rightarrow> -1)"

text \<open>\<open>rx\<close> are the bytes the successive calls of \<^verbatim>\<open>uartgetc\<close> return before one returns -1, and
  \<open>intr\<close> is \<^verbatim>\<open>consoleintr\<close>.\<close>

fun uartintr_rx :: "(byte \<Rightarrow> 's \<Rightarrow> ('s \<times> chan list) res) \<Rightarrow> byte list \<Rightarrow> 's \<Rightarrow> ('s \<times> chan list) res" where
  "uartintr_rx intr [] s = Inr (s, [])"
| "uartintr_rx intr (c # rx) s =
     bindR (intr c s) (\<lambda>(s, wk). bindR (uartintr_rx intr rx s) (\<lambda>(s, wk'). Inr (s, wk @ wk')))"

definition uartintr :: "(byte \<Rightarrow> 'a uart_scheme \<Rightarrow> ('a uart_scheme \<times> chan list) res) \<Rightarrow> byte list \<Rightarrow> bool list \<Rightarrow>
    'a uart_scheme \<Rightarrow> ('a uart_scheme \<times> chan list) res" where
  "uartintr intr rx lsr u =
     bindR (uartintr_rx intr rx u) (\<lambda>(u, wk).
       let (u, wk') = uartstart lsr u in Inr (u, wk @ wk'))"

section \<open>The transmit buffer is a bounded queue\<close>

definition tx_list :: "'a uart_scheme \<Rightarrow> byte list" where
  "tx_list u = ring_list UART_TX_BUF_SIZE (uart_tx_buf u) (uart_tx_r u) (uart_tx_w u)"

definition tx_inv :: "'a uart_scheme \<Rightarrow> bool" where
  "tx_inv u \<longleftrightarrow> unat (uart_tx_w u - uart_tx_r u) \<le> UART_TX_BUF_SIZE"

lemma TX_range: "UART_TX_BUF_SIZE dvd 2 ^ LENGTH(64)" "UART_TX_BUF_SIZE < 2 ^ LENGTH(64)"
  by (simp_all add: UART_TX_BUF_SIZE_def)

lemma length_tx_list: "length (tx_list u) = unat (uart_tx_w u - uart_tx_r u)"
  by (simp add: tx_list_def)

lemma tx_list_empty: "tx_list u = [] \<longleftrightarrow> uart_tx_r u = uart_tx_w u"
  by (simp add: tx_list_def ring_list_empty_iff)

lemma tx_full_iff: "uart_tx_w u = uart_tx_r u + of_nat UART_TX_BUF_SIZE \<longleftrightarrow> length (tx_list u) = UART_TX_BUF_SIZE"
proof
  assume "uart_tx_w u = uart_tx_r u + of_nat UART_TX_BUF_SIZE"
  then have "uart_tx_w u - uart_tx_r u = of_nat UART_TX_BUF_SIZE" by simp
  then show "length (tx_list u) = UART_TX_BUF_SIZE"
    using TX_range(2) by (simp only: length_tx_list unat_of_nat mod_less)
next
  assume "length (tx_list u) = UART_TX_BUF_SIZE"
  then have "uart_tx_w u - uart_tx_r u = of_nat UART_TX_BUF_SIZE" by (metis length_tx_list of_nat_unat_id)
  then show "uart_tx_w u = uart_tx_r u + of_nat UART_TX_BUF_SIZE" by (simp add: algebra_simps)
qed

interpretation txq: fifo UART_TX_BUF_SIZE tx_inv tx_list tx_put tx_get
proof
  fix u :: "'a uart_scheme" and x :: byte
  assume inv: "tx_inv u"
  show "length (tx_list u) \<le> UART_TX_BUF_SIZE" using inv by (simp add: length_tx_list tx_inv_def)
  show "tx_inv (tx_put x u)" if "length (tx_list u) < UART_TX_BUF_SIZE"
    using unat_minus_Suc[OF that[unfolded length_tx_list] TX_range(2)] that
    by (simp add: tx_inv_def tx_put_def length_tx_list)
  show "tx_list (tx_put x u) = tx_list u @ [x]" if "length (tx_list u) < UART_TX_BUF_SIZE"
    using ring_put[OF TX_range that[unfolded length_tx_list]] by (simp add: tx_list_def tx_put_def)
  assume "tx_list u \<noteq> []"
  then have ne: "uart_tx_r u \<noteq> uart_tx_w u" by (simp add: tx_list_empty)
  show "tx_inv (snd (tx_get u))"
    using inv unat_minus_pred[OF ne] by (simp add: tx_inv_def tx_get_def)
  show "tx_list u = fst (tx_get u) # tx_list (snd (tx_get u))"
    using ring_get[OF TX_range(1) ne] by (simp add: tx_list_def tx_get_def)
qed

text \<open>Bytes written to the transmit holding register.\<close>

definition sent :: "'a uart_scheme \<Rightarrow> byte list" where
  "sent u = map snd (filter (\<lambda>(r, _). r = THR) (regwrites u))"

lemma sent_simps [simp]:
  "sent (tx_put c u) = sent u" "sent (snd (tx_get u)) = sent u" "sent (WriteReg THR c u) = sent u @ [c]"
  "tx_list (WriteReg r c u) = tx_list u" "tx_inv (WriteReg r c u) = tx_inv u"
  by (simp_all add: sent_def tx_put_def tx_get_def WriteReg_def tx_list_def tx_inv_def)

lemma uartstart_spec:
  "tx_inv u \<Longrightarrow> uartstart lsr u = (u', wk) \<Longrightarrow>
   tx_inv u' \<and> sent u' @ tx_list u' = sent u @ tx_list u \<and> length wk + length (tx_list u') = length (tx_list u) \<and>
   (tx_list u' = [] \<or> length (takeWhile id lsr) < length (tx_list u))"
proof (induction lsr u arbitrary: u' wk rule: uartstart.induct)
  case (1 u)
  then show ?case by auto
next
  case (2 idle lsr u)
  show ?case
  proof (cases "tx_list u = [] \<or> \<not> idle")
    case True
    then have "u' = u" "wk = []" using 2(3) tx_list_empty[of u] by (auto split: if_splits)
    then show ?thesis using True 2(2) by auto
  next
    case False
    then have ne: "uart_tx_w u \<noteq> uart_tx_r u" "idle" "tx_list u \<noteq> []" using tx_list_empty[of u] by auto
    obtain c v where g: "tx_get u = (c, v)" by fastforce
    obtain w1 k where r: "uartstart lsr (WriteReg THR c v) = (w1, k)" by fastforce
    have u': "u' = w1" "wk = ChUart # k" using 2(3) ne g r by auto
    note q = txq.inv_get[OF 2(2) ne(3)] txq.items_get[OF 2(2) ne(3)] sent_simps(2)[of u]
    have inv: "tx_inv (WriteReg THR c v)" using q g by simp
    note ih = 2(1)[OF ne(1) _ g[symmetric] refl inv r]
    show ?thesis using ih u' q g ne(2) by auto
  qed
qed

lemma uartstart_sends:
  assumes "tx_inv u" "uartstart lsr u = (u', wk)"
  shows "\<exists>d. sent u' = sent u @ d \<and> tx_list u = d @ tx_list u'"
proof -
  have len: "length (tx_list u') \<le> length (tx_list u)" and eq: "sent u' @ tx_list u' = sent u @ tx_list u"
    using uartstart_spec[OF assms] by auto
  from eq len obtain d where "sent u' = sent u @ d" by (auto simp: append_eq_append_conv2)
  with eq show ?thesis by (intro exI[of _ d]) simp
qed

lemma uartputc_spec:
  assumes "tx_inv u" "uartputc False lsr c u = Inr (u', wk)"
  shows "tx_inv u'" "\<exists>d. sent u' = sent u @ d \<and> tx_list u @ [c] = d @ tx_list u'"
proof -
  have nf: "length (tx_list u) \<noteq> UART_TX_BUF_SIZE" and st: "uartstart lsr (tx_put c u) = (u', wk)"
    using assms(2) tx_full_iff[of u] by (auto simp: uartputc_def split: if_splits)
  then have room: "length (tx_list u) < UART_TX_BUF_SIZE" using txq.items_cap[OF assms(1)] by simp
  note p = txq.inv_put[OF assms(1) room, of c] txq.items_put[OF assms(1) room, of c]
  show "tx_inv u'" using uartstart_spec[OF p(1) st] by simp
  show "\<exists>d. sent u' = sent u @ d \<and> tx_list u @ [c] = d @ tx_list u'" using uartstart_sends[OF p(1) st] p(2) by simp
qed

lemma uartputc_accepts:
  "length (tx_list u) < UART_TX_BUF_SIZE \<Longrightarrow> \<exists>u' wk. uartputc False lsr c u = Inr (u', wk)"
  "length (tx_list u) = UART_TX_BUF_SIZE \<Longrightarrow> uartputc False lsr c u = Inl (Sleeps ChUart)"
  using tx_full_iff[of u] by (cases "uartstart lsr (tx_put c u)", simp_all add: uartputc_def)

lemma uartstart_drains:
  assumes "tx_inv u"
  shows "sent (fst (uartstart (replicate UART_TX_BUF_SIZE True) u)) = sent u @ tx_list u"
proof -
  obtain u' wk where st: "uartstart (replicate UART_TX_BUF_SIZE True) u = (u', wk)" by fastforce
  have "tx_list u' = []"
    using uartstart_spec[OF assms st] txq.items_cap[OF assms] by (auto simp: takeWhile_replicate)
  then show ?thesis using uartstart_spec[OF assms st] st by simp
qed

end
