(* ===== verification/Xv6_Console.thy ===== *)
theory Xv6_Console
  imports Xv6_Uart Xv6_Pipe
begin

text \<open>
  The console, \<^verbatim>\<open>kernel/console.c\<close>: line editing on interrupt, reads a line at a time, writes through
  the UART buffer. The state extends the UART's with the input buffer, its three counters and the flag
  \<^verbatim>\<open>panicked\<close>. A read that must wait gives the number of bytes it has delivered, from which it is
  resumed; copying to and from the caller is an argument, as for pipes. The buffer is shown to behave
  as two lists, the finished input and the line being edited.
\<close>

section \<open>State and operations\<close>

definition BACKSPACE :: int where "BACKSPACE = 0x100"
definition INPUT_BUF_SIZE :: nat where "INPUT_BUF_SIZE = 128"

text \<open>\<^verbatim>\<open>C(x)\<close>, control characters.\<close>

definition ctrl :: "byte \<Rightarrow> byte" where "ctrl x = x - 64"

record console = uart +
  cbuf :: "nat \<Rightarrow> byte"
  cr :: uint32
  cw :: uint32
  ce :: uint32
  panicked :: bool

definition consputc :: "int \<Rightarrow> 'a console_scheme \<Rightarrow> 'a console_scheme res" where
  "consputc c s =
     (if c = BACKSPACE
      then bindR (uartputc_sync (panicked s) 8 s) (\<lambda>s.
           bindR (uartputc_sync (panicked s) 32 s) (\<lambda>s.
           uartputc_sync (panicked s) 8 s))
      else uartputc_sync (panicked s) (of_int c) s)"

definition cons_put :: "byte \<Rightarrow> 'a console_scheme \<Rightarrow> 'a console_scheme" where
  "cons_put c s = s\<lparr>cbuf := (cbuf s)(unat (ce s) mod INPUT_BUF_SIZE := c), ce := ce s + 1\<rparr>"

definition cons_get :: "'a console_scheme \<Rightarrow> byte \<times> 'a console_scheme" where
  "cons_get s = (cbuf s (unat (cr s) mod INPUT_BUF_SIZE), s\<lparr>cr := cr s + 1\<rparr>)"

text \<open>\<open>lsr i\<close> answers the status reads of the \<open>i\<close>-th byte; the channels woken are returned.\<close>

function consolewrite_loop :: "(int \<Rightarrow> bool list) \<Rightarrow> (uint64 \<Rightarrow> 'u \<Rightarrow> byte option \<times> 'u) \<Rightarrow> uint64 \<Rightarrow> int \<Rightarrow> int \<Rightarrow>
    'a console_scheme \<Rightarrow> 'u \<Rightarrow> (pipe_out \<times> 'a console_scheme \<times> 'u \<times> chan list) res" where
  "consolewrite_loop lsr copyin src n i s u =
     (if i < n
      then case copyin (src + of_int i) u of
             (None, u) \<Rightarrow> Inr (PRet i, s, u, [])
           | (Some c, u) \<Rightarrow>
               (case uartputc (panicked s) (lsr i) c s of
                  Inl (Sleeps ch) \<Rightarrow> Inr (PSleep i, s, u, [])
                | Inl e \<Rightarrow> Inl e
                | Inr (s, wk) \<Rightarrow>
                    bindR (consolewrite_loop lsr copyin src n (i + 1) s u) (\<lambda>(r, s, u, wk'). Inr (r, s, u, wk @ wk')))
      else Inr (PRet i, s, u, []))"
  by pat_completeness auto
termination
  by (relation "measure (\<lambda>(lsr, copyin, src, n, i, s, u). nat (n - i))") auto

declare consolewrite_loop.simps [simp del]

definition consolewrite :: "(int \<Rightarrow> bool list) \<Rightarrow> (uint64 \<Rightarrow> 'u \<Rightarrow> byte option \<times> 'u) \<Rightarrow> uint64 \<Rightarrow> int \<Rightarrow>
    'a console_scheme \<Rightarrow> 'u \<Rightarrow> (pipe_out \<times> 'a console_scheme \<times> 'u \<times> chan list) res" where
  "consolewrite lsr copyin src n s u = consolewrite_loop lsr copyin src n 0 s u"

text \<open>\<open>n\<close> counts down from \<open>target\<close> as in the code; a sleep reports how many bytes were delivered.\<close>

function consoleread_loop :: "bool \<Rightarrow> (uint64 \<Rightarrow> byte \<Rightarrow> 'u \<Rightarrow> bool \<times> 'u) \<Rightarrow> int \<Rightarrow> uint64 \<Rightarrow> int \<Rightarrow>
    'a console_scheme \<Rightarrow> 'u \<Rightarrow> pipe_out \<times> 'a console_scheme \<times> 'u" where
  "consoleread_loop killed copyout target dst n s u =
     (if n > 0
      then if cr s = cw s
        then (if killed then (PRet (-1), s, u) else (PSleep (target - n), s, u))
        else let (c, s) = cons_get s in
          if c = ctrl 68
          then (PRet (target - n), if n < target then s\<lparr>cr := cr s - 1\<rparr> else s, u)
          else case copyout dst c u of
                 (False, u) \<Rightarrow> (PRet (target - n), s, u)
               | (True, u) \<Rightarrow>
                   if c = 10 then (PRet (target - (n - 1)), s, u)
                   else consoleread_loop killed copyout target (dst + 1) (n - 1) s u
      else (PRet (target - n), s, u))"
  by pat_completeness auto
termination
  by (relation "measure (\<lambda>(killed, copyout, target, dst, n, s, u). nat n)") auto

declare consoleread_loop.simps [simp del]

definition consoleread :: "bool \<Rightarrow> (uint64 \<Rightarrow> byte \<Rightarrow> 'u \<Rightarrow> bool \<times> 'u) \<Rightarrow> uint64 \<Rightarrow> int \<Rightarrow>
    'a console_scheme \<Rightarrow> 'u \<Rightarrow> pipe_out \<times> 'a console_scheme \<times> 'u" where
  "consoleread killed copyout dst n s u = consoleread_loop killed copyout n dst n s u"

lemma consputc_cons:
  assumes "consputc c s = Inr s'"
  shows "cbuf s' = cbuf s" "cr s' = cr s" "cw s' = cw s" "ce s' = ce s" "panicked s' = panicked s"
  using assms by (auto simp: consputc_def uartputc_sync_def WriteReg_def res_simps split: if_splits)

lemma unat_dec: "e \<noteq> w \<Longrightarrow> unat (e - 1 - w) < unat (e - w :: uint32)"
proof -
  assume "e \<noteq> w"
  then have ne: "e - w \<noteq> 0" by simp
  have eq: "e - 1 - w = (e - w) - 1" by (simp add: algebra_simps)
  have "unat (e - 1 - w) = unat (e - w) - 1" unfolding eq by (rule unat_minus_one[OF ne])
  moreover have "0 < unat (e - w)" using ne by (simp add: unat_gt_0)
  ultimately show ?thesis by simp
qed

function kill_line :: "'a console_scheme \<Rightarrow> 'a console_scheme res" where
  "kill_line s =
     (if ce s \<noteq> cw s \<and> cbuf s (unat (ce s - 1) mod INPUT_BUF_SIZE) \<noteq> 10
      then bindR (consputc BACKSPACE (s\<lparr>ce := ce s - 1\<rparr>)) kill_line
      else Inr s)"
  by pat_completeness auto
termination
  by (relation "measure (\<lambda>s. unat (ce s - cw s))") (auto simp: consputc_cons unat_dec)

declare kill_line.simps [simp del]

text \<open>\<open>dump\<close> is \<^verbatim>\<open>procdump\<close>.\<close>

definition consoleintr :: "('a console_scheme \<Rightarrow> 'a console_scheme res) \<Rightarrow> byte \<Rightarrow> 'a console_scheme \<Rightarrow>
    ('a console_scheme \<times> chan list) res" where
  "consoleintr dump c s =
     (if c = ctrl 80 then bindR (dump s) (\<lambda>s. Inr (s, []))
      else if c = ctrl 85 then bindR (kill_line s) (\<lambda>s. Inr (s, []))
      else if c = ctrl 72 \<or> c = 127
      then (if ce s \<noteq> cw s then bindR (consputc BACKSPACE (s\<lparr>ce := ce s - 1\<rparr>)) (\<lambda>s. Inr (s, [])) else Inr (s, []))
      else if c \<noteq> 0 \<and> unat (ce s - cr s) < INPUT_BUF_SIZE
      then let c = (if c = 13 then 10 else c) in
           bindR (consputc (int (unat c)) s) (\<lambda>s.
           let s = cons_put c s in
           Inr (if c = 10 \<or> c = ctrl 68 \<or> unat (ce s - cr s) = INPUT_BUF_SIZE
                then (s\<lparr>cw := ce s\<rparr>, [ChCons]) else (s, [])))
      else Inr (s, []))"

definition consoleinit :: "'a console_scheme \<Rightarrow> 'a console_scheme" where
  "consoleinit s = uartinit s"

section \<open>Two lists\<close>

definition finished :: "'a console_scheme \<Rightarrow> byte list" where
  "finished s = ring_list INPUT_BUF_SIZE (cbuf s) (cr s) (cw s)"

definition editing :: "'a console_scheme \<Rightarrow> byte list" where
  "editing s = ring_list INPUT_BUF_SIZE (cbuf s) (cw s) (ce s)"

definition cons_inv :: "'a console_scheme \<Rightarrow> bool" where
  "cons_inv s \<longleftrightarrow> unat (cw s - cr s) + unat (ce s - cw s) \<le> INPUT_BUF_SIZE \<and> 10 \<notin> set (editing s)"

text \<open>What the handler means on the two lists, and whether it wakes readers.\<close>

definition edit :: "byte \<Rightarrow> byte list \<times> byte list \<Rightarrow> (byte list \<times> byte list) \<times> bool" where
  "edit c ls =
     (case ls of (fin, line) \<Rightarrow>
       if c = 16 then (ls, False)
       else if c = 21 then ((fin, []), False)
       else if c = 8 \<or> c = 127 then ((fin, butlast line), False)
       else if c \<noteq> 0 \<and> length fin + length line < INPUT_BUF_SIZE
       then let c = (if c = 13 then 10 else c); line = line @ [c] in
            if c = 10 \<or> c = 4 \<or> length fin + length line = INPUT_BUF_SIZE then ((fin @ line, []), True)
            else ((fin, line), False)
       else (ls, False))"

lemma ctrl_vals [simp]: "ctrl 80 = 16" "ctrl 85 = 21" "ctrl 72 = 8" "ctrl 68 = 4"
  by (simp_all add: ctrl_def)

lemma INPUT_range: "INPUT_BUF_SIZE dvd 2 ^ LENGTH(32)" "INPUT_BUF_SIZE < 2 ^ LENGTH(32)"
  by (simp_all add: INPUT_BUF_SIZE_def)

lemma ring_list_append:
  fixes r w e :: "'w::len word"
  assumes "N dvd 2 ^ LENGTH('w)" "unat (w - r) + unat (e - w) < 2 ^ LENGTH('w)"
  shows "ring_list N d r w @ ring_list N d w e = ring_list N d r e" "unat (e - r) = unat (w - r) + unat (e - w)"
proof -
  let ?a = "unat (w - r)" and ?b = "unat (e - w)"
  have "e - r = (w - r) + (e - w)" by simp
  then show u: "unat (e - r) = ?a + ?b" using assms(2) by (simp only: unat_word_ariths mod_less)
  have w: "unat w mod N = (unat r + ?a) mod N" using ring_slot[OF assms(1), of r ?a] by simp
  have "(unat w + i) mod N = (unat r + (?a + i)) mod N" for i
    by (metis add.assoc mod_add_left_eq w)
  then have "map (\<lambda>i. d ((unat w + i) mod N)) [0..<?b] = map (\<lambda>i. d ((unat r + i) mod N)) [?a..<?a + ?b]"
    by (intro nth_equalityI) auto
  moreover have "[0..<?a + ?b] = [0..<?a] @ [?a..<?a + ?b]" by (rule upt_add_eq_append) simp
  ultimately show "ring_list N d r w @ ring_list N d w e = ring_list N d r e"
    by (simp add: ring_list_def ring_slot[OF assms(1)] u)
qed

lemma cons_lengths: "length (finished s) = unat (cw s - cr s)" "length (editing s) = unat (ce s - cw s)"
  by (simp_all add: finished_def editing_def)

lemma editing_empty: "editing s = [] \<longleftrightarrow> ce s = cw s"
  by (auto simp: editing_def ring_list_empty_iff)

lemma consputc_ok: "\<not> panicked s \<Longrightarrow> \<exists>s'. consputc c s = Inr s'"
  by (auto simp: consputc_def uartputc_sync_def WriteReg_def)

lemma consputc_lists:
  "consputc c s = Inr s' \<Longrightarrow> finished s' = finished s \<and> editing s' = editing s \<and> cons_inv s' = cons_inv s"
  using consputc_cons[of c s s'] by (simp add: finished_def editing_def cons_inv_def)

lemma last_editing:
  assumes "ce s \<noteq> cw s"
  shows "last (editing s) = cbuf s (unat (ce s - 1) mod INPUT_BUF_SIZE)"
proof -
  have p: "0 < unat (ce s - cw s)" using assms by (metis right_minus_eq unat_gt_0)
  have "ce s - 1 = cw s + of_nat (unat (ce s - cw s) - 1)"
    using p by (simp add: of_nat_diff Suc_leI)
  then show ?thesis using p by (simp add: editing_def ring_list_def last_map)
qed

lemma unput_lists:
  assumes "cons_inv s" "ce s \<noteq> cw s"
  shows "finished (s\<lparr>ce := ce s - 1\<rparr>) = finished s" "editing (s\<lparr>ce := ce s - 1\<rparr>) = butlast (editing s)"
    "cons_inv (s\<lparr>ce := ce s - 1\<rparr>)"
proof -
  show "finished (s\<lparr>ce := ce s - 1\<rparr>) = finished s" by (simp add: finished_def)
  show e: "editing (s\<lparr>ce := ce s - 1\<rparr>) = butlast (editing s)"
    using ring_unput[of "cw s" "ce s"] assms(2) by (simp add: editing_def)
  show "cons_inv (s\<lparr>ce := ce s - 1\<rparr>)"
    using assms unat_dec[OF assms(2)] e in_set_butlastD[of 10 "editing s"] by (auto simp: cons_inv_def)
qed

lemma kill_line_lists:
  "cons_inv s \<Longrightarrow> \<not> panicked s \<Longrightarrow>
   \<exists>s'. kill_line s = Inr s' \<and> cons_inv s' \<and> finished s' = finished s \<and> editing s' = []"
proof (induction s rule: kill_line.induct)
  case (1 s)
  show ?case
  proof (cases "ce s = cw s")
    case True
    then show ?thesis using 1(2) editing_empty[of s] by (simp add: kill_line.simps[of s])
  next
    case False
    have "editing s \<noteq> []" using False editing_empty by blast
    then have "last (editing s) \<noteq> 10" using 1(2) last_in_set[of "editing s"] by (metis cons_inv_def)
    then have c: "ce s \<noteq> cw s \<and> cbuf s (unat (ce s - 1) mod INPUT_BUF_SIZE) \<noteq> 10"
      using False last_editing[OF False] by simp
    let ?t = "s\<lparr>ce := ce s - 1\<rparr>"
    note u = unput_lists[OF 1(2) False]
    obtain t' where t: "consputc BACKSPACE ?t = Inr t'" using consputc_ok[of ?t] 1(3) by auto
    note l = consputc_lists[OF t] consputc_cons(5)[OF t]
    have i: "cons_inv t'" "\<not> panicked t'" using l u(3) 1(3) by simp_all
    show ?thesis using 1(1)[OF c t i] l u c t by (simp add: kill_line.simps[of s])
  qed
qed

lemma cons_put_lists:
  assumes "cons_inv s" "length (finished s) + length (editing s) < INPUT_BUF_SIZE"
  shows "finished (cons_put c s) = finished s" "editing (cons_put c s) = editing s @ [c]"
    "unat (ce (cons_put c s) - cr (cons_put c s)) = length (finished s) + length (editing s) + 1"
proof -
  have a: "unat (cw s - cr s) + unat (ce s - cw s) < INPUT_BUF_SIZE" using assms(2) by (simp add: cons_lengths)
  then have b: "unat (cw s - cr s) + unat (ce s - cw s) < 2 ^ LENGTH(32)" using INPUT_range(2) by linarith
  note ap = ring_list_append[OF INPUT_range(1) b]
  have f: "unat (ce s - cr s) < INPUT_BUF_SIZE" using ap(2) a by simp
  have fe: "unat (ce s - cw s) < INPUT_BUF_SIZE" using a by simp
  let ?d = "(cbuf s)(unat (ce s) mod INPUT_BUF_SIZE := c)"
  have r: "ring_list INPUT_BUF_SIZE ?d (cr s) (ce s + 1) = ring_list INPUT_BUF_SIZE (cbuf s) (cr s) (ce s) @ [c]"
    by (rule ring_put[OF INPUT_range f])
  show e: "editing (cons_put c s) = editing s @ [c]"
    using ring_put[OF INPUT_range fe] by (simp add: editing_def cons_put_def)
  have su: "unat (ce s + 1 - cw s) = Suc (unat (ce s - cw s))" "unat (ce s + 1 - cr s) = Suc (unat (ce s - cr s))"
    using unat_minus_Suc[OF fe INPUT_range(2)] unat_minus_Suc[OF f INPUT_range(2)] by simp_all
  have b': "unat (cw s - cr s) + unat (ce s + 1 - cw s) < 2 ^ LENGTH(32)" using su a INPUT_range(2) by linarith
  have "ring_list INPUT_BUF_SIZE ?d (cr s) (cw s) @ ring_list INPUT_BUF_SIZE ?d (cw s) (ce s + 1)
      = (ring_list INPUT_BUF_SIZE (cbuf s) (cr s) (cw s) @ ring_list INPUT_BUF_SIZE (cbuf s) (cw s) (ce s)) @ [c]"
    unfolding ring_list_append(1)[OF INPUT_range(1) b'] ap(1) by (rule r)
  moreover have "ring_list INPUT_BUF_SIZE ?d (cw s) (ce s + 1) = editing s @ [c]"
    using e by (simp add: editing_def cons_put_def)
  ultimately show "finished (cons_put c s) = finished s"
    by (simp add: finished_def cons_put_def editing_def)
  show "unat (ce (cons_put c s) - cr (cons_put c s)) = length (finished s) + length (editing s) + 1"
    using su(2) ap(2) by (simp add: cons_put_def cons_lengths)
qed

lemma finish_line:
  assumes "length (finished s) + length (editing s) \<le> INPUT_BUF_SIZE"
  shows "finished (s\<lparr>cw := ce s\<rparr>) = finished s @ editing s" "editing (s\<lparr>cw := ce s\<rparr>) = []" "cons_inv (s\<lparr>cw := ce s\<rparr>)"
proof -
  have b: "unat (cw s - cr s) + unat (ce s - cw s) < 2 ^ LENGTH(32)"
    using assms INPUT_range(2) by (simp add: cons_lengths)
  show e: "editing (s\<lparr>cw := ce s\<rparr>) = []" by (simp add: editing_def)
  show "finished (s\<lparr>cw := ce s\<rparr>) = finished s @ editing s"
    using ring_list_append(1)[OF INPUT_range(1) b, of "cbuf s", symmetric] by (simp add: finished_def editing_def)
  show "cons_inv (s\<lparr>cw := ce s\<rparr>)"
    using ring_list_append(2)[OF INPUT_range(1) b] assms e by (simp add: cons_inv_def cons_lengths)
qed

section \<open>Properties\<close>

text \<open>C27. Line editing: on every byte the console interrupt handler acts on the finished input and the line being
  edited exactly as the two-list specification says (append, erase, kill line, finish on newline,
  control-D or a full buffer, drop when full), keeps the buffer invariant, and wakes readers exactly
  when a line is finished. What control-P runs may print but leaves the input alone, as \<^verbatim>\<open>procdump\<close> does
  (\<open>put_all_input\<close> in \<open>Xv6_Serial\<close>).\<close>

theorem consoleintr_refines_edit:
  assumes "cons_inv s" "\<not> panicked s"
    "\<exists>t. dump s = Inr t \<and> cons_inv t \<and> finished t = finished s \<and> editing t = editing s"
  shows "\<exists>s' wk. consoleintr dump c s = Inr (s', wk) \<and> cons_inv s' \<and>
    edit c (finished s, editing s) = ((finished s', editing s'), wk = [ChCons]) \<and> (wk = [] \<or> wk = [ChCons])"
proof -
  have len: "unat (ce s - cr s) = length (finished s) + length (editing s)"
    using ring_list_append(2)[OF INPUT_range(1), of "cw s" "cr s" "ce s"] assms(1) INPUT_range(2)
    by (simp add: cons_lengths cons_inv_def)
  consider "c = 16" | "c = 21" | "c = 8 \<or> c = 127" "ce s = cw s" | "c = 8 \<or> c = 127" "ce s \<noteq> cw s"
    | "c \<notin> {16, 21, 8, 127}" "c = 0 \<or> \<not> length (finished s) + length (editing s) < INPUT_BUF_SIZE"
    | "c \<notin> {16, 21, 8, 127}" "c \<noteq> 0" "length (finished s) + length (editing s) < INPUT_BUF_SIZE"
    by auto
  then show ?thesis
  proof cases
    case 1
    then show ?thesis using assms by (auto simp: consoleintr_def edit_def)
  next
    case 2
    then show ?thesis using kill_line_lists[OF assms(1,2)] by (auto simp: consoleintr_def edit_def)
  next
    case 3
    then show ?thesis using assms(1) editing_empty[of s] by (auto simp: consoleintr_def edit_def)
  next
    case 4
    let ?t = "s\<lparr>ce := ce s - 1\<rparr>"
    obtain t' where t: "consputc BACKSPACE ?t = Inr t'" using consputc_ok[of ?t] assms(2) by auto
    show ?thesis using 4 t consputc_lists[OF t] unput_lists[OF assms(1) 4(2)]
      by (auto simp: consoleintr_def edit_def)
  next
    case 5
    then show ?thesis using assms(1) len by (auto simp: consoleintr_def edit_def)
  next
    case 6
    define d where "d = (if c = 13 then 10 else c)"
    obtain t where t: "consputc (int (unat d)) s = Inr t" using consputc_ok assms(2) by blast
    note l = consputc_lists[OF t]
    have room: "length (finished t) + length (editing t) < INPUT_BUF_SIZE" using l 6(3) by simp
    have inv: "cons_inv t" using l assms(1) by simp
    note p = cons_put_lists[OF inv room, of d]
    let ?t = "cons_put d t"
    have le: "length (finished ?t) + length (editing ?t) \<le> INPUT_BUF_SIZE" using room p by simp
    have intr: "consoleintr dump c s =
        Inr (if d = 10 \<or> d = 4 \<or> unat (ce ?t - cr ?t) = INPUT_BUF_SIZE then (?t\<lparr>cw := ce ?t\<rparr>, [ChCons]) else (?t, []))"
      using 6 t len by (simp add: consoleintr_def d_def Let_def)
    have ed: "edit c (finished s, editing s) =
        (if d = 10 \<or> d = 4 \<or> unat (ce ?t - cr ?t) = INPUT_BUF_SIZE
         then ((finished s @ editing s @ [d], []), True) else ((finished s, editing s @ [d]), False))"
      using 6 p(3) l by (simp add: edit_def d_def Let_def)
    show ?thesis
    proof (cases "d = 10 \<or> d = 4 \<or> unat (ce ?t - cr ?t) = INPUT_BUF_SIZE")
      case True
      then show ?thesis using intr ed finish_line[OF le] p l by simp
    next
      case False
      have "cons_inv ?t"
        using le p inv False by (simp add: cons_inv_def cons_lengths[symmetric])
      then show ?thesis using intr ed p l False by simp
    qed
  qed
qed

theorem consoleintr_refines_edit_witness:
  "\<exists>s wk. consoleintr (consputc 80) 13 (\<lparr>uart_tx_buf = (\<lambda>_. 0), uart_tx_w = 0, uart_tx_r = 0, regwrites = [],
      cbuf = (\<lambda>_. 0), cr = 0, cw = 0, ce = 0, panicked = False\<rparr> :: console) = Inr (s, wk) \<and> finished s = [10]"
proof -
  let ?s = "\<lparr>uart_tx_buf = (\<lambda>_. 0), uart_tx_w = 0, uart_tx_r = 0, regwrites = [],
      cbuf = (\<lambda>_. 0), cr = 0, cw = 0, ce = 0, panicked = False\<rparr> :: console"
  have s: "cons_inv ?s" "finished ?s = []" "editing ?s = []" by (simp_all add: cons_inv_def finished_def editing_def)
  obtain t where "consputc 80 ?s = Inr t" using consputc_ok[of ?s 80] by auto
  with consputc_lists[OF this] s(1) have
    "\<exists>t. consputc 80 ?s = Inr t \<and> cons_inv t \<and> finished t = finished ?s \<and> editing t = editing ?s" by blast
  with s show ?thesis
    using consoleintr_refines_edit[of ?s "consputc 80" 13] by (auto simp: edit_def INPUT_BUF_SIZE_def)
qed

end
