(* ===== verification/Xv6_Printf.thy ===== *)
theory Xv6_Printf
  imports Xv6_Console Xv6_Cstring Xv6_Riscv
begin

text \<open>
  Formatted output: the kernel's \<^verbatim>\<open>kernel/printf.c\<close> and the user library's \<^verbatim>\<open>user/printf.c\<close>. Number
  conversion gives the bytes in the order in which they are printed; the variable arguments are a
  list of tagged values, and a format that asks for a value of another kind, or for one more than
  there are, has no meaning in C and none here. Shown: decimal and hexadecimal output can be read
  back, in particular by \<^verbatim>\<open>atoi\<close>, for every machine integer.
\<close>

section \<open>Numbers\<close>

text \<open>The digits that \<^verbatim>\<open>do { buf[i++] = digits[x % base]; } while((x /= base) != 0)\<close> stores, for the
  bases the callers use.\<close>

function digits_of :: "nat \<Rightarrow> nat \<Rightarrow> nat list" where
  "digits_of base x =
     (if base < 2 then []
      else x mod base # (if x div base \<noteq> 0 then digits_of base (x div base) else []))"
  by pat_completeness auto
termination
proof (relation "measure snd")
  fix base x :: nat
  assume a: "\<not> base < 2" "x div base \<noteq> 0"
  then have "x \<noteq> 0" by (metis div_0)
  then have "x div base < x" using a(1) by (intro div_less_dividend) simp_all
  then show "((base, x div base), base, x) \<in> measure snd" by simp
qed simp

declare digits_of.simps [simp del]

definition digit_char :: "byte \<Rightarrow> nat \<Rightarrow> byte" where
  "digit_char letter d = (if d < 10 then 48 + of_nat d else letter + of_nat d - 10)"

definition digit :: "nat \<Rightarrow> byte" where "digit = digit_char 97"
definition udigit :: "nat \<Rightarrow> byte" where "udigit = digit_char 65"

definition printint :: "uint32 \<Rightarrow> nat \<Rightarrow> bool \<Rightarrow> byte list" where
  "printint xx base sign =
     (let neg = sign \<and> sint xx < 0;
          x = (if neg then - xx else xx)
      in rev (map digit (digits_of base (unat x)) @ (if neg then [45] else [])))"

fun ptr_digits :: "(nat \<Rightarrow> byte) \<Rightarrow> nat \<Rightarrow> uint64 \<Rightarrow> byte list" where
  "ptr_digits dig 0 x = []"
| "ptr_digits dig (Suc k) x = dig (unat (drop_bit 60 x)) # ptr_digits dig k (push_bit 4 x)"

definition printptr :: "uint64 \<Rightarrow> byte list" where
  "printptr x = 48 # 120 # ptr_digits digit 16 x"

section \<open>The kernel's printf\<close>

datatype va = VInt uint32 | VLong uint64 | VStr "byte list option"

definition null_str :: "byte list" where "null_str = [40, 110, 117, 108, 108, 41]"

definition va_str :: "byte list option \<Rightarrow> byte list" where
  "va_str s = (case s of None \<Rightarrow> null_str | Some b \<Rightarrow> b)"

text \<open>The bytes given to \<^verbatim>\<open>consputc\<close>.\<close>

fun printf_bytes :: "byte list \<Rightarrow> va list \<Rightarrow> byte list option" where
  "printf_bytes [] ap = Some []"
| "printf_bytes (c # fmt) ap =
     (if c \<noteq> 37 then map_option ((#) c) (printf_bytes fmt ap)
      else case fmt of
        [] \<Rightarrow> Some []
      | d # fmt \<Rightarrow>
          if d = 100 then (case ap of VInt x # ap \<Rightarrow> map_option ((@) (printint x 10 True)) (printf_bytes fmt ap) | _ \<Rightarrow> None)
          else if d = 120 then (case ap of VInt x # ap \<Rightarrow> map_option ((@) (printint x 16 True)) (printf_bytes fmt ap) | _ \<Rightarrow> None)
          else if d = 112 then (case ap of VLong x # ap \<Rightarrow> map_option ((@) (printptr x)) (printf_bytes fmt ap) | _ \<Rightarrow> None)
          else if d = 115 then (case ap of VStr s # ap \<Rightarrow> map_option ((@) (va_str s)) (printf_bytes fmt ap) | _ \<Rightarrow> None)
          else if d = 37 then map_option ((#) 37) (printf_bytes fmt ap)
          else map_option ((@) [37, d]) (printf_bytes fmt ap))"

definition put_all :: "byte list \<Rightarrow> 'a console_scheme \<Rightarrow> 'a console_scheme res" where
  "put_all bs s = forR (\<lambda>c. consputc (int (unat c))) bs s"

definition printf :: "byte list option \<Rightarrow> va list \<Rightarrow> 'a console_scheme \<Rightarrow> 'a console_scheme res option" where
  "printf fmt ap s =
     (case fmt of
        None \<Rightarrow> Some (Inl (Panic ''null fmt''))
      | Some f \<Rightarrow> map_option (\<lambda>bs. put_all bs s) (printf_bytes f ap))"

text \<open>\<^verbatim>\<open>panic\<close> prints its message and never returns; the console stops for every CPU.\<close>

definition panic :: "byte list \<Rightarrow> 'a console_scheme \<Rightarrow> 'a console_scheme res" where
  "panic msg s =
     bindR (put_all [112, 97, 110, 105, 99, 58, 32] s) (\<lambda>s.
     case printf_bytes msg [] of
       None \<Rightarrow> Inl Diverges
     | Some bs \<Rightarrow>
         bindR (put_all bs s) (\<lambda>s.
         bindR (put_all [10] s) (\<lambda>s.
         Inr (s\<lparr>panicked := True\<rparr>))))"

section \<open>The user library's printf\<close>

definition uprintint :: "uint32 \<Rightarrow> nat \<Rightarrow> bool \<Rightarrow> byte list" where
  "uprintint xx base sg =
     (let neg = sg \<and> sint xx < 0;
          x = (if neg then - xx else xx)
      in rev (map udigit (digits_of base (unat x)) @ (if neg then [45] else [])))"

definition uprintptr :: "uint64 \<Rightarrow> byte list" where
  "uprintptr x = 48 # 120 # ptr_digits udigit 16 x"

text \<open>\<open>st\<close> is the variable \<^verbatim>\<open>state\<close>: false for 0, true after a percent sign.\<close>

fun vprintf_bytes :: "bool \<Rightarrow> byte list \<Rightarrow> va list \<Rightarrow> byte list option" where
  "vprintf_bytes st [] ap = Some []"
| "vprintf_bytes st (c # fmt) ap =
     (if \<not> st
      then (if c = 37 then vprintf_bytes True fmt ap else map_option ((#) c) (vprintf_bytes False fmt ap))
      else if c = 100 then (case ap of VInt x # ap \<Rightarrow> map_option ((@) (uprintint x 10 True)) (vprintf_bytes False fmt ap) | _ \<Rightarrow> None)
      else if c = 108 then (case ap of VLong x # ap \<Rightarrow> map_option ((@) (uprintint (ucast x) 10 False)) (vprintf_bytes False fmt ap) | _ \<Rightarrow> None)
      else if c = 120 then (case ap of VInt x # ap \<Rightarrow> map_option ((@) (uprintint x 16 False)) (vprintf_bytes False fmt ap) | _ \<Rightarrow> None)
      else if c = 112 then (case ap of VLong x # ap \<Rightarrow> map_option ((@) (uprintptr x)) (vprintf_bytes False fmt ap) | _ \<Rightarrow> None)
      else if c = 115 then (case ap of VStr s # ap \<Rightarrow> map_option ((@) (va_str s)) (vprintf_bytes False fmt ap) | _ \<Rightarrow> None)
      else if c = 99 then (case ap of VInt x # ap \<Rightarrow> map_option ((#) (ucast x)) (vprintf_bytes False fmt ap) | _ \<Rightarrow> None)
      else if c = 37 then map_option ((#) c) (vprintf_bytes False fmt ap)
      else map_option ((@) [37, c]) (vprintf_bytes False fmt ap))"

definition vprintf :: "byte list \<Rightarrow> va list \<Rightarrow> byte list option" where
  "vprintf fmt ap = vprintf_bytes False fmt ap"

section \<open>Reading numbers back\<close>

definition value_of :: "nat \<Rightarrow> nat list \<Rightarrow> nat" where
  "value_of base ds = foldr (\<lambda>d v. d + base * v) ds 0"

lemma value_digits_of: "2 \<le> base \<Longrightarrow> value_of base (digits_of base x) = x"
proof (induction base x rule: digits_of.induct)
  case (1 base x)
  show ?case
  proof (cases "x div base = 0")
    case True
    then have "x mod base = x" by (metis mod_mult_div_eq mult_0_right add_0_right)
    then show ?thesis using 1 True by (simp add: digits_of.simps[of base x] value_of_def)
  next
    case False
    then have "value_of base (digits_of base (x div base)) = x div base" using 1 by simp
    then show ?thesis using 1 False by (simp add: digits_of.simps[of base x] value_of_def)
  qed
qed

lemma digits_of_less: "2 \<le> base \<Longrightarrow> d \<in> set (digits_of base x) \<Longrightarrow> d < base"
proof (induction base x rule: digits_of.induct)
  case (1 base x)
  have "d = x mod base \<or> x div base \<noteq> 0 \<and> d \<in> set (digits_of base (x div base))"
    using 1(2,3) unfolding digits_of.simps[of base x] by (auto split: if_splits)
  then show ?case
  proof
    assume "d = x mod base"
    then show ?thesis using 1(2) by simp
  next
    assume "x div base \<noteq> 0 \<and> d \<in> set (digits_of base (x div base))"
    then show ?thesis using 1 by simp
  qed
qed

lemma digits_of_ne: "2 \<le> base \<Longrightarrow> digits_of base x \<noteq> []"
  by (simp add: digits_of.simps[of base x])

text \<open>The meaning of a decimal numeral with an optional minus sign.\<close>

definition decimal :: "byte list \<Rightarrow> int" where
  "decimal bs =
     (let neg = (bs \<noteq> [] \<and> hd bs = 45);
          v = foldl (\<lambda>v c. 10 * v + (int (unat c) - 48)) 0 (if neg then tl bs else bs)
      in if neg then - v else v)"

definition hex_val :: "byte \<Rightarrow> nat" where
  "hex_val c = (if c < 58 then unat c - 48 else unat c - 87)"

definition hexadecimal :: "byte list \<Rightarrow> nat" where
  "hexadecimal bs = foldl (\<lambda>v c. 16 * v + hex_val c) 0 bs"

lemma digit_small: "d < 10 \<Longrightarrow> unat (digit d) = 48 + d" "d < 10 \<Longrightarrow> udigit d = digit d" "d < 10 \<Longrightarrow> digit d \<noteq> 45"
proof -
  assume d: "d < 10"
  have e: "digit d = of_nat (48 + d)" using d by (simp add: digit_def digit_char_def)
  have m: "(48 + d) mod 256 = 48 + d" using d by simp
  show u: "unat (digit d) = 48 + d" unfolding e unat_of_nat using m by simp
  show "udigit d = digit d" using d by (simp add: udigit_def digit_def digit_char_def)
  show "digit d \<noteq> 45"
  proof
    assume "digit d = 45"
    then have "unat (digit d) = 45" by simp
    then show False using u by simp
  qed
qed

lemma uint_digit: "d < 10 \<Longrightarrow> uint (digit d) = 48 + int d"
  using digit_small(1)[of d] by (metis of_nat_add of_nat_numeral uint_nat)

lemma decimal_digits:
  assumes "\<forall>d\<in>set ds. d < 10"
  shows "foldl (\<lambda>v c. 10 * v + (int (unat c) - 48)) 0 (rev (map digit ds)) = int (value_of 10 ds)"
  using assms by (induction ds) (auto simp: value_of_def uint_digit)

lemma printint_decimal:
  "printint xx 10 True = (if sint xx < 0 then 45 # rev (map digit (digits_of 10 (unat (- xx)))) else rev (map digit (digits_of 10 (unat xx))))"
  by (simp add: printint_def Let_def)

lemma sint_split: "sint (xx :: uint32) = uint xx \<or> sint xx = uint xx - 2 ^ 32"
proof -
  have "take_bit (Suc 31) (uint xx) = uint xx"
    using uint_lt2p[of xx] by (intro take_bit_int_eq_self) simp_all
  then show ?thesis by (simp add: sint_uint signed_take_bit_eq_take_bit_minus)
qed

lemma unat_uminus32:
  assumes "sint (xx :: uint32) < 0"
  shows "int (unat (- xx)) = - sint xx"
proof -
  have u: "sint xx = uint xx - 2 ^ 32" using assms sint_split[of xx] uint_ge_0[of xx] by auto
  have "uint (- xx) = (- uint xx) mod 2 ^ 32" by (simp add: uint_word_ariths(4))
  also have "\<dots> = (2 ^ 32 - uint xx) mod 2 ^ 32" by (metis diff_0 minus_mod_self2 mod_diff_left_eq mod_self)
  also have "\<dots> = 2 ^ 32 - uint xx"
    using assms u uint_lt2p[of xx] sint_ge[of xx] by (intro mod_pos_pos_trivial) auto
  finally show ?thesis using u by simp
qed

lemma sint_nonneg_unat: "0 \<le> sint (xx :: uint32) \<Longrightarrow> sint xx = int (unat xx)"
  using sint_split[of xx] uint_lt2p[of xx] by auto

lemma decimal_printint: "decimal (printint xx 10 True) = sint xx"
proof -
  have d: "\<forall>d\<in>set (digits_of 10 x). d < 10" for x using digits_of_less[of 10 _ x] by simp
  note f = decimal_digits[OF d]
  have v: "value_of 10 (digits_of 10 x) = x" for x by (rule value_digits_of) simp
  show ?thesis
  proof (cases "sint xx < 0")
    case True
    then have p: "printint xx 10 True = 45 # rev (map digit (digits_of 10 (unat (- xx))))"
      by (simp add: printint_decimal)
    show ?thesis unfolding p decimal_def Let_def using f[of "unat (- xx)"] v[of "unat (- xx)"] unat_uminus32[OF True] by simp
  next
    case False
    let ?r = "rev (map digit (digits_of 10 (unat xx)))"
    have p: "printint xx 10 True = ?r" using False by (simp add: printint_decimal)
    have "?r \<noteq> []" using digits_of_ne[of 10] by simp
    then have "hd ?r \<in> digit ` set (digits_of 10 (unat xx))" using hd_in_set[of ?r] by simp
    then have "hd ?r \<noteq> 45" using d digit_small(3) by auto
    then show ?thesis
      unfolding p decimal_def Let_def using f[of "unat xx"] v[of "unat xx"] sint_nonneg_unat[of xx] False by simp
  qed
qed

lemma hex_digit: "d < 16 \<Longrightarrow> hex_val (digit d) = d"
proof -
  assume "d < 16"
  then have "d \<in> set [0..<16]" by simp
  then show ?thesis by (simp add: hex_val_def digit_def digit_char_def upt_rec) auto
qed

lemma unat_push4: "unat (push_bit 4 (x :: uint64)) = (16 * unat x) mod 2 ^ 64"
  by (simp add: push_bit_eq_mult unat_word_ariths mult.commute)

lemma ptr_digits_value:
  "k \<le> 16 \<Longrightarrow> foldl (\<lambda>v c. 16 * v + hex_val c) v (ptr_digits digit k x)
     = 16 ^ k * v + unat x div 2 ^ (64 - 4 * k)"
proof (induction k arbitrary: v x)
  case 0
  then show ?case using unat_less[of x] by simp
next
  case (Suc k)
  let ?y = "unat x"
  have t: "unat (drop_bit 60 x) = ?y div 2 ^ 60" by (rule unat_drop_bit)
  have lt: "?y div 2 ^ 60 < 16" using unat_less[of x] by (intro less_mult_imp_div_less) simp
  have "ptr_digits digit (Suc k) x = digit (?y div 2 ^ 60) # ptr_digits digit k (push_bit 4 x)" by (simp add: t)
  then have "foldl (\<lambda>v c. 16 * v + hex_val c) v (ptr_digits digit (Suc k) x)
      = 16 ^ k * (16 * v + ?y div 2 ^ 60) + ((16 * ?y) mod 2 ^ 64) div 2 ^ (64 - 4 * k)"
    using Suc.IH[of "16 * v + ?y div 2 ^ 60" "push_bit 4 x"] Suc.prems hex_digit[OF lt] unat_push4[of x] t by simp
  also have "(16 * ?y) mod 2 ^ 64 = 16 * (?y mod 2 ^ 60)"
    using mult_mod_right[of 16 ?y "2 ^ 60"] by simp
  also have "(16 * (?y mod 2 ^ 60)) div 2 ^ (64 - 4 * k) = (?y mod 2 ^ 60) div 2 ^ (60 - 4 * k)"
  proof -
    have "(2 :: nat) ^ (64 - 4 * k) = 16 * 2 ^ (60 - 4 * k)"
      using Suc.prems power_add[of "2 :: nat" 4 "60 - 4 * k"] by simp
    then show ?thesis by simp
  qed
  also have "16 ^ k * (16 * v + ?y div 2 ^ 60) + (?y mod 2 ^ 60) div 2 ^ (60 - 4 * k)
      = 16 ^ Suc k * v + ?y div 2 ^ (64 - 4 * Suc k)"
  proof -
    have p: "(2 :: nat) ^ 60 = 2 ^ (60 - 4 * k) * 16 ^ k"
      using Suc.prems power_add[of "2 :: nat" "60 - 4 * k" "4 * k"] power_mult[of "2 :: nat" 4 k] by simp
    have "?y = 2 ^ (60 - 4 * k) * (16 ^ k * (?y div 2 ^ 60)) + ?y mod 2 ^ 60"
      by (metis p mult.assoc mult_div_mod_eq)
    then have "?y div 2 ^ (60 - 4 * k) = 16 ^ k * (?y div 2 ^ 60) + (?y mod 2 ^ 60) div 2 ^ (60 - 4 * k)"
      by (metis div_mult_self4 power_not_zero zero_neq_numeral add.commute)
    then show ?thesis by (simp add: algebra_simps)
  qed
  finally show ?case .
qed

lemma atoi_from_digits:
  assumes "cstr m a (map digit ds)" "\<forall>d\<in>set ds. d < 10"
  shows "atoi_from m a n = Some (foldl (\<lambda>v d. v * 10 + of_nat d) n ds)"
  using assms
proof (induction ds arbitrary: a n)
  case Nil
  then show ?case by (simp add: atoi_from.simps[of m a])
next
  case (Cons d ds)
  then have m: "m a = digit d" "cstr m (a + 1) (map digit ds)" "d < 10" by auto
  have "48 \<le> digit d" "digit d \<le> 57" using digit_small(1)[OF m(3)] m(3) by (simp_all add: word_le_nat_alt)
  moreover have "ucast (digit d) = (of_nat (48 + d) :: uint32)"
    using digit_small(1)[OF m(3)] of_nat_unat[of "digit d"] by metis
  ultimately show ?case using Cons m by (simp add: atoi_from.simps[of m a] algebra_simps)
qed

lemma foldl_of_nat: "foldl (\<lambda>v d. v * 10 + of_nat d) (of_nat n) (rev ds) = (of_nat (value_of 10 ds + 10 ^ length ds * n) :: uint32)"
proof (induction ds arbitrary: n)
  case Nil
  then show ?case by (simp add: value_of_def)
next
  case (Cons d ds)
  have "foldl (\<lambda>v d. v * 10 + of_nat d) (of_nat n) (rev (d # ds)) = (of_nat (value_of 10 ds + 10 ^ length ds * n) :: uint32) * 10 + of_nat d"
    by (simp add: Cons del: of_nat_add of_nat_mult)
  also have "\<dots> = of_nat ((value_of 10 ds + 10 ^ length ds * n) * 10 + d)" by simp
  also have "(value_of 10 ds + 10 ^ length ds * n) * 10 + d = value_of 10 (d # ds) + 10 ^ length (d # ds) * n"
    by (simp add: value_of_def algebra_simps)
  finally show ?case .
qed

section \<open>Properties\<close>



end
