(* ===== verification/Xv6_Serial.thy ===== *)
theory Xv6_Serial
  imports Xv6_Printf
begin

text \<open>
  Everything that writes to the serial port, together: \<^verbatim>\<open>uartputc\<close> for the writes of processes, which goes
  through the transmit buffer, and \<^verbatim>\<open>uartputc_sync\<close> for \<^verbatim>\<open>printf\<close> and the echo of \<^verbatim>\<open>consoleintr\<close>, which does
  not. A history interleaves them in any order with reads of the console and with interrupts, both
  halves of \<^verbatim>\<open>uartintr\<close> included.

  Shown: no byte is lost or doubled, and each of the two streams keeps its order.
\<close>

section \<open>Interleavings\<close>

lemma shuffles_append: "x \<in> shuffles a b \<Longrightarrow> y \<in> shuffles c d \<Longrightarrow> x @ y \<in> shuffles (a @ c) (b @ d)"
proof (induction x arbitrary: a b)
  case (Cons z x)
  from Cons.prems(1) consider a' where "a = z # a'" "x \<in> shuffles a' b" | b' where "b = z # b'" "x \<in> shuffles a b'"
    by (auto simp: Cons_in_shuffles_iff neq_Nil_conv)
  then show ?case
    using Cons.IH Cons.prems(2) by cases (auto intro!: Cons_in_shuffles_leftI Cons_in_shuffles_rightI)
qed simp

section \<open>Printing\<close>

text \<open>From \<open>s\<close> to \<open>t\<close> bytes are written to the device past the transmit buffer, or none.\<close>

definition prints :: "'a uart_scheme \<Rightarrow> 'a uart_scheme \<Rightarrow> bool" where
  "prints s t \<longleftrightarrow> uart_tx_buf t = uart_tx_buf s \<and> uart_tx_r t = uart_tx_r s \<and> uart_tx_w t = uart_tx_w s \<and>
     (\<exists>es. sent t = sent s @ es)"

lemma prints_refl [simp]: "prints s s"
  by (simp add: prints_def)

lemma prints_trans: "prints s t \<Longrightarrow> prints t v \<Longrightarrow> prints s v"
  by (auto simp: prints_def)

lemma prints_tx: "prints s t \<Longrightarrow> tx_list t = tx_list s \<and> tx_inv t = tx_inv s"
  by (simp add: prints_def tx_list_def tx_inv_def)

lemma prints_cons [simp]:
  "prints s (t\<lparr>ce := x\<rparr>) = prints s t" "prints s (t\<lparr>cr := y\<rparr>) = prints s t" "prints s (t\<lparr>cw := z\<rparr>) = prints s t"
  "prints (s\<lparr>ce := x\<rparr>) t = prints s t" "prints s (cons_put c t) = prints s t"
  by (simp_all add: prints_def sent_def cons_put_def)

lemma consputc_prints: "consputc c s = Inr t \<Longrightarrow> prints s t"
  by (auto simp: consputc_def uartputc_sync_def prints_def WriteReg_def sent_def res_simps split: if_splits)

lemma put_all_prints: "put_all bs s = Inr t \<Longrightarrow> prints s t"
  unfolding put_all_def by (induction bs arbitrary: s) (auto simp: res_simps dest!: consputc_prints intro: prints_trans)

lemma kill_line_prints: "kill_line s = Inr t \<Longrightarrow> prints s t"
proof (induction s rule: kill_line.induct)
  case (1 s)
  then show ?case
    by (subst (asm) (2) kill_line.simps) (fastforce simp: res_simps split: if_splits dest: consputc_prints intro: prints_trans)
qed

lemma consoleintr_prints: "consoleintr (put_all bs) c s = Inr (t, wk) \<Longrightarrow> prints s t"
  by (auto simp: consoleintr_def Let_def res_simps split: if_splits dest!: put_all_prints kill_line_prints consputc_prints)

lemma uartintr_rx_prints: "uartintr_rx (consoleintr (put_all bs)) rx s = Inr (t, wk) \<Longrightarrow> prints s t"
  by (induction rx arbitrary: s wk) (auto simp: res_simps dest!: consoleintr_prints intro: prints_trans)

lemma consoleread_quiet:
  "consoleread killed copyout dst n s u = (r, t, v) \<Longrightarrow> prints s t \<and> sent t = sent s"
proof -
  have "consoleread_loop killed copyout tg dst n s u = (r, t, v) \<Longrightarrow> prints s t \<and> sent t = sent s" for tg
  proof (induction killed copyout tg dst n s u rule: consoleread_loop.induct)
    case (1 killed copyout tg dst n s u)
    let ?s = "s\<lparr>cr := cr s + 1\<rparr>"
    have eq: "sent (s\<lparr>cr := x\<rparr>) = sent s" for x by (simp add: sent_def)
    note step = "1.prems"[unfolded consoleread_loop.simps[of killed copyout tg dst n s u]]
    define c where "c = cbuf s (unat (cr s) mod INPUT_BUF_SIZE)"
    have get: "cons_get s = (c, ?s)" by (simp add: cons_get_def c_def)
    have rec: "prints s t \<and> sent t = sent s"
      if "0 < n" "cr s \<noteq> cw s" "c \<noteq> ctrl 68" "copyout dst c u = (True, w)" "c \<noteq> 10"
        "consoleread_loop killed copyout tg (dst + 1) (n - 1) ?s w = (r, t, v)" for w
      using "1.IH"[OF that(1,2) refl get[symmetric] that(3) that(4)[symmetric] _ that(5,6)] eq by (simp add: prints_def)
    from step get rec show ?case
      by (auto simp: Let_def eq split: if_splits prod.splits bool.splits)
  qed
  then show "consoleread killed copyout dst n s u = (r, t, v) \<Longrightarrow> prints s t \<and> sent t = sent s"
    by (simp add: consoleread_def)
qed

text \<open>Printing leaves the input alone.\<close>

lemma put_all_input:
  "\<not> panicked s \<Longrightarrow> cons_inv s \<Longrightarrow>
   \<exists>t. put_all bs s = Inr t \<and> cons_inv t \<and> finished t = finished s \<and> editing t = editing s"
proof (induction bs arbitrary: s)
  case (Cons b bs)
  obtain t where t: "consputc (int (unat b)) s = Inr t" using consputc_ok[OF Cons.prems(1)] by blast
  then show ?case
    using Cons.IH[of t] Cons.prems consputc_lists[OF t] consputc_cons(5)[OF t] by (simp add: put_all_def)
qed (simp add: put_all_def)

section \<open>Histories\<close>

text \<open>\<open>before\<close> is what the initialisation wrote to the register with the number of THR; \<open>puts\<close> are the bytes that
  \<^verbatim>\<open>uartputc\<close> has accepted, and \<open>syncs\<close> those written past the buffer, by \<^verbatim>\<open>uartputc_sync\<close> and in the receive
  half of an interrupt, \<open>dumped\<close> being what \<^verbatim>\<open>procdump\<close> prints.\<close>

inductive serial_history :: "console \<Rightarrow> byte list \<Rightarrow> byte list \<Rightarrow> byte list \<Rightarrow> bool" where
  sh_init: "uart_tx_r s = uart_tx_w s \<Longrightarrow> serial_history (consoleinit s) (sent (consoleinit s)) [] []"
| sh_put: "serial_history s before puts syncs \<Longrightarrow> uartputc (panicked s) lsr c s = Inr (t, wk) \<Longrightarrow>
    serial_history t before (puts @ [c]) syncs"
| sh_sync: "serial_history s before puts syncs \<Longrightarrow> uartputc_sync (panicked s) c s = Inr t \<Longrightarrow>
    serial_history t before puts (syncs @ [c])"
| sh_intr: "serial_history s before puts syncs \<Longrightarrow> uartintr_rx (consoleintr (put_all dumped)) rx s = Inr (m, wk) \<Longrightarrow>
    uartintr (consoleintr (put_all dumped)) rx lsr s = Inr (t, wk') \<Longrightarrow>
    serial_history t before puts (syncs @ drop (length (sent s)) (sent m))"
| sh_read: "serial_history s before puts syncs \<Longrightarrow> consoleread killed copyout dst n s (u :: memory) = (r, t, v) \<Longrightarrow>
    serial_history t before puts syncs"

definition in_order :: "'a uart_scheme \<Rightarrow> byte list \<Rightarrow> byte list \<Rightarrow> byte list \<Rightarrow> bool" where
  "in_order s before puts syncs \<longleftrightarrow>
     (\<exists>done out. puts = done @ tx_list s \<and> sent s = before @ out \<and> out \<in> shuffles done syncs)"

lemma in_order_send:
  assumes "in_order s before puts syncs" "sent t = sent s @ d" "tx_list s @ new = d @ tx_list t"
  shows "in_order t before (puts @ new) syncs"
proof -
  from assms(1) obtain dn out where o: "puts = dn @ tx_list s" "sent s = before @ out" "out \<in> shuffles dn syncs"
    by (auto simp: in_order_def)
  have "out @ d \<in> shuffles (dn @ d) syncs" using shuffles_append[OF o(3), of d d "[]"] by simp
  with o assms(2,3) show ?thesis
    unfolding in_order_def by (intro exI[of _ "dn @ d"] exI[of _ "out @ d"]) simp
qed

lemma in_order_print:
  assumes "in_order s before puts syncs" "prints s t"
  shows "in_order t before puts (syncs @ drop (length (sent s)) (sent t))"
proof -
  from assms(2) obtain es where es: "sent t = sent s @ es" by (auto simp: prints_def)
  from assms(1) obtain dn out where o: "puts = dn @ tx_list s" "sent s = before @ out" "out \<in> shuffles dn syncs"
    by (auto simp: in_order_def)
  have "out @ es \<in> shuffles dn (syncs @ es)" using shuffles_append[OF o(3), of es "[]" es] by simp
  with o es prints_tx[OF assms(2)] show ?thesis
    unfolding in_order_def by (intro exI[of _ dn] exI[of _ "out @ es"]) simp
qed

lemma serial_history_inv: "serial_history s before puts syncs \<Longrightarrow> tx_inv s \<and> in_order s before puts syncs"
proof (induction rule: serial_history.induct)
  case (sh_init s)
  then show ?case
    using tx_list_empty[of "consoleinit s"]
    by (simp add: in_order_def tx_inv_def consoleinit_def uartinit_def WriteReg_def)
next
  case (sh_put s before puts syncs lsr c t wk)
  then have "uartputc False lsr c s = Inr (t, wk)" by (auto simp: uartputc_def split: if_splits)
  from uartputc_spec[OF _ this] sh_put show ?case by (auto intro: in_order_send)
next
  case (sh_sync s before puts syncs c t)
  then have t: "t = WriteReg THR c s" by (auto simp: uartputc_sync_def split: if_splits)
  then have "prints s t" by (auto simp: prints_def WriteReg_def sent_def)
  from in_order_print[OF _ this] prints_tx[OF this] sh_sync t show ?case by auto
next
  case (sh_intr s before puts syncs dumped rx m wk lsr t wk')
  from uartintr_rx_prints[OF sh_intr(2)] have m: "prints s m" .
  from sh_intr(2,3) obtain k where st: "uartstart lsr m = (t, k)" by (auto simp: uartintr_def res_simps split: prod.splits)
  have inv: "tx_inv m" "in_order m before puts (syncs @ drop (length (sent s)) (sent m))"
    using prints_tx[OF m] in_order_print[OF _ m] sh_intr(4) by auto
  show ?case
    using uartstart_spec[OF inv(1) st] uartstart_sends[OF inv(1) st] in_order_send[OF inv(2), of t _ "[]"] by auto
next
  case (sh_read s before puts syncs killed copyout dst n u r t v)
  from consoleread_quiet[OF sh_read(2)] have p: "prints s t" "sent t = sent s" by simp_all
  then show ?case using in_order_print[OF _ p(1)] prints_tx[OF p(1)] sh_read(3) by auto
qed

section \<open>Property\<close>

text \<open>C26. The serial port loses and reorders nothing, in every interleaving of processes that write through
  \<^verbatim>\<open>uartputc\<close>, of \<^verbatim>\<open>printf\<close> and echo through \<^verbatim>\<open>uartputc_sync\<close>, of reads and of interrupts with both halves, and
  whatever the device answers. Since the initialisation, the bytes written to the transmit register are
  an interleaving of two streams, each in its order: the bytes written past the buffer, and those bytes
  accepted by \<^verbatim>\<open>uartputc\<close> that are not among the at most 32 still in the buffer, which are the last ones
  accepted. A put on a buffer that is not full succeeds, one on a full buffer sleeps, and a transmitter
  that stays idle drains the buffer.\<close>

theorem uart_output_in_order:
  assumes "serial_history s before puts syncs"
  shows "(\<exists>done out. puts = done @ tx_list s \<and> sent s = before @ out \<and> out \<in> shuffles done syncs) \<and>
    length (tx_list s) \<le> UART_TX_BUF_SIZE \<and>
    (length (tx_list s) < UART_TX_BUF_SIZE \<longrightarrow> (\<exists>t wk. uartputc False lsr c s = Inr (t, wk))) \<and>
    (length (tx_list s) = UART_TX_BUF_SIZE \<longrightarrow> uartputc False lsr c s = Inl (Sleeps ChUart)) \<and>
    sent (fst (uartstart (replicate UART_TX_BUF_SIZE True) s)) = sent s @ tx_list s"
proof -
  from serial_history_inv[OF assms] have "tx_inv s" "in_order s before puts syncs" by simp_all
  then show ?thesis
    using txq.items_cap uartputc_accepts uartstart_drains unfolding in_order_def by blast
qed

text \<open>A process writes \<open>7\<close> to a busy device, \<open>8\<close> is printed, and an interrupt echoes \<open>9\<close> and sends the \<open>7\<close>.\<close>

definition port0 :: console where
  "port0 = \<lparr>uart_tx_buf = (\<lambda>_. 0), uart_tx_w = 0, uart_tx_r = 0, regwrites = [],
      cbuf = (\<lambda>_. 0), cr = 0, cw = 0, ce = 0, panicked = False\<rparr>"

definition port1 :: console where
  "port1 = WriteReg THR 8 (tx_put 7 (consoleinit port0))"

definition port2 :: console where
  "port2 = cons_put 9 (WriteReg THR 9 port1)"

lemmas port_defs = port0_def port1_def port2_def consoleinit_def uartinit_def tx_put_def tx_get_def cons_put_def
  WriteReg_def sent_def THR_def IER_def LCR_def FCR_def UART_TX_BUF_SIZE_def INPUT_BUF_SIZE_def

lemma port_history: "serial_history (WriteReg THR 7 (snd (tx_get port2))) [3] [7] [8, 9]"
proof -
  have "serial_history (consoleinit port0) [3] [] []"
    using sh_init[of port0] by (simp add: port_defs)
  moreover have "uartputc (panicked (consoleinit port0)) [] 7 (consoleinit port0) = Inr (tx_put 7 (consoleinit port0), [])"
    by (simp add: uartputc_def port_defs)
  moreover have "uartputc_sync (panicked (tx_put 7 (consoleinit port0))) 8 (tx_put 7 (consoleinit port0)) = Inr port1"
    by (simp add: uartputc_sync_def port_defs)
  ultimately have h: "serial_history port1 [3] ([] @ [7]) ([] @ [8])" by (blast intro: sh_put sh_sync)
  have rx: "uartintr_rx (consoleintr (put_all [])) [9] port1 = Inr (port2, [])"
    by (simp add: consoleintr_def consputc_def uartputc_sync_def ctrl_def BACKSPACE_def port_defs)
  moreover have "uartstart [True, True] port2 = (WriteReg THR 7 (snd (tx_get port2)), [ChUart])"
    by (simp add: port_defs)
  ultimately have "uartintr (consoleintr (put_all [])) [9] [True, True] port1 = Inr (WriteReg THR 7 (snd (tx_get port2)), [ChUart])"
    unfolding uartintr_def by simp
  from sh_intr[OF h rx this] show ?thesis by (simp add: port_defs)
qed

theorem uart_output_in_order_witness:
  "serial_history (WriteReg THR 7 (snd (tx_get port2))) [3] [7] [8, 9] \<and>
   (\<exists>done out. [7] = done @ tx_list (WriteReg THR 7 (snd (tx_get port2))) \<and>
     sent (WriteReg THR 7 (snd (tx_get port2))) = [3] @ out \<and> out \<in> shuffles done [8, 9])"
  using uart_output_in_order[OF port_history] port_history by blast

end
