(* ===== verification/Xv6_Fs.thy ===== *)
theory Xv6_Fs
  imports Xv6_Txn
begin

text \<open>
  Blocks, inodes, directories and path names, \<^verbatim>\<open>kernel/fs.c\<close>. The state extends the log with the super
  block and the inode table; a \<^verbatim>\<open>struct inode *\<close> is the index of the table entry plus one, so that 0
  is the null pointer. On-disk structures are read and written as bytes of a block. The routines that
  copy to or from a caller's buffer take the copying routine as an argument: \<^verbatim>\<open>either_copyout\<close> and
  \<^verbatim>\<open>either_copyin\<close> for system calls, \<open>local_sink\<close> and \<open>local_source\<close> for a buffer on the kernel stack.
\<close>

section \<open>Data\<close>

type_synonym short = "16 word"

definition ROOTINO :: nat where "ROOTINO = 1"
definition FSMAGIC :: uint32 where "FSMAGIC = 0x10203040"
definition NDIRECT :: nat where "NDIRECT = 12"
definition NINDIRECT :: nat where "NINDIRECT = BSIZE div 4"
definition MAXFILE :: nat where "MAXFILE = NDIRECT + NINDIRECT"
definition DIRSIZ :: nat where "DIRSIZ = 14"
definition NINODE :: nat where "NINODE = 50"
definition T_DIR :: short where "T_DIR = 1"
definition T_FILE :: short where "T_FILE = 2"
definition T_DEVICE :: short where "T_DEVICE = 3"

record superblock =
  sb_magic :: uint32
  sb_size :: uint32
  sb_nblocks :: uint32
  sb_ninodes :: uint32
  sb_nlog :: uint32
  sb_logstart :: uint32
  sb_inodestart :: uint32
  sb_bmapstart :: uint32

definition sizeof_dinode :: nat where "sizeof_dinode = 2 + 2 + 2 + 2 + 4 + 4 * (NDIRECT + 1)"
definition sizeof_dirent :: nat where "sizeof_dirent = 2 + DIRSIZ"

definition IPB :: nat where "IPB = BSIZE div sizeof_dinode"

definition IBLOCK :: "nat \<Rightarrow> superblock \<Rightarrow> nat" where
  "IBLOCK i b = unat (of_nat (i div IPB) + sb_inodestart b)"

definition BPB :: nat where "BPB = BSIZE * 8"

definition BBLOCK :: "nat \<Rightarrow> superblock \<Rightarrow> nat" where
  "BBLOCK b sb = unat (of_nat (b div BPB) + sb_bmapstart sb)"

record inode =
  idev :: nat
  inum :: nat
  iref :: int
  ilk :: sleeplock
  ivalid :: bool
  itype :: short
  imajor :: short
  iminor :: short
  nlink :: short
  isize :: uint32
  addrs :: "nat \<Rightarrow> uint32"

record fstate = logst +
  sb :: superblock
  inodes :: "nat \<Rightarrow> inode"           \<comment> \<open>\<^verbatim>\<open>itable.inode\<close>, entry \<open>i\<close> at \<open>i + 1\<close>\<close>

record stat =
  st_dev :: nat
  st_ino :: nat
  st_type :: short
  st_nlink :: short
  st_size :: uint64

definition upd_inode :: "nat \<Rightarrow> (inode \<Rightarrow> inode) \<Rightarrow> 'a fstate_scheme \<Rightarrow> 'a fstate_scheme" where
  "upd_inode ip f s = s\<lparr>inodes := (inodes s)(ip := f (inodes s ip))\<rparr>"

section \<open>Super block and free bitmap\<close>

definition get_sb :: "block \<Rightarrow> superblock" where
  "get_sb d =
     \<lparr>sb_magic = rd32 d 0, sb_size = rd32 d 4, sb_nblocks = rd32 d 8, sb_ninodes = rd32 d 12,
      sb_nlog = rd32 d 16, sb_logstart = rd32 d 20, sb_inodestart = rd32 d 24, sb_bmapstart = rd32 d 28\<rparr>"

definition readsb :: "int \<Rightarrow> nat \<Rightarrow> 'a fstate_scheme \<Rightarrow> 'a fstate_scheme res" where
  "readsb me dev s =
     bindR (bread me dev 1 s) (\<lambda>(bp, s).
     brelse me bp (s\<lparr>sb := get_sb (bdata (bufs s bp))\<rparr>))"

definition fsinit :: "int \<Rightarrow> nat \<Rightarrow> 'a fstate_scheme \<Rightarrow> 'a fstate_scheme res" where
  "fsinit me dev s =
     bindR (readsb me dev s) (\<lambda>s.
     if sb_magic (sb s) \<noteq> FSMAGIC then Inl (Panic ''invalid file system'')
     else initlog me dev (unat (sb_logstart (sb s))) (unat (sb_nlog (sb s))) s)"

definition bzero :: "int \<Rightarrow> nat \<Rightarrow> nat \<Rightarrow> 'a fstate_scheme \<Rightarrow> 'a fstate_scheme res" where
  "bzero me dev bno s =
     bindR (bread me dev bno s) (\<lambda>(bp, s).
     bindR (log_write bp (set_data bp (\<lambda>d. memset d 0 0 BSIZE) s)) (brelse me bp))"

definition bmask :: "nat \<Rightarrow> byte" where
  "bmask bi = push_bit (bi mod 8) 1"

definition bit_free :: "block \<Rightarrow> nat \<Rightarrow> bool" where
  "bit_free d bi \<longleftrightarrow> d (bi div 8) AND bmask bi = 0"

fun balloc_scan :: "int \<Rightarrow> nat \<Rightarrow> nat list \<Rightarrow> 'a fstate_scheme \<Rightarrow> (nat \<times> 'a fstate_scheme) res" where
  "balloc_scan me dev [] s = Inr (0, s)"
| "balloc_scan me dev (b # bs) s =
     bindR (bread me dev (BBLOCK b (sb s)) s) (\<lambda>(bp, s).
       case find (\<lambda>bi. b + bi < unat (sb_size (sb s)) \<and> bit_free (bdata (bufs s bp)) bi) [0..<BPB] of
         Some bi \<Rightarrow>
           bindR (log_write bp (set_data bp (\<lambda>d. d(bi div 8 := d (bi div 8) OR bmask bi)) s)) (\<lambda>s.
           bindR (brelse me bp s) (\<lambda>s.
           bindR (bzero me dev (b + bi) s) (\<lambda>s. Inr (b + bi, s))))
       | None \<Rightarrow> bindR (brelse me bp s) (balloc_scan me dev bs))"

text \<open>The values of \<^verbatim>\<open>b\<close> in \<^verbatim>\<open>for(b = 0; b < sb.size; b += BPB)\<close>.\<close>

definition bitmap_bases :: "nat \<Rightarrow> nat list" where
  "bitmap_bases sz = map (\<lambda>k. k * BPB) [0..<(sz + BPB - 1) div BPB]"

definition balloc :: "int \<Rightarrow> nat \<Rightarrow> 'a fstate_scheme \<Rightarrow> (nat \<times> 'a fstate_scheme) res" where
  "balloc me dev s = balloc_scan me dev (bitmap_bases (unat (sb_size (sb s)))) s"

definition bfree :: "int \<Rightarrow> nat \<Rightarrow> nat \<Rightarrow> 'a fstate_scheme \<Rightarrow> 'a fstate_scheme res" where
  "bfree me dev b s =
     bindR (bread me dev (BBLOCK b (sb s)) s) (\<lambda>(bp, s).
     let bi = b mod BPB in
     if bit_free (bdata (bufs s bp)) bi then Inl (Panic ''freeing free block'')
     else bindR (log_write bp (set_data bp (\<lambda>d. d(bi div 8 := d (bi div 8) AND NOT (bmask bi))) s)) (brelse me bp))"

section \<open>Inodes\<close>

definition iinit :: "'a fstate_scheme \<Rightarrow> 'a fstate_scheme" where
  "iinit s = fold (\<lambda>i. upd_inode (i + 1) (\<lambda>x. x\<lparr>ilk := initsleeplock\<rparr>)) [0..<NINODE] s"

definition dinode_off :: "nat \<Rightarrow> nat" where
  "dinode_off i = sizeof_dinode * (i mod IPB)"

definition put_dinode :: "inode \<Rightarrow> nat \<Rightarrow> block \<Rightarrow> block" where
  "put_dinode x p d =
     (let d = wr16 d p (itype x);
          d = wr16 d (p + 2) (imajor x);
          d = wr16 d (p + 4) (iminor x);
          d = wr16 d (p + 6) (nlink x);
          d = wr32 d (p + 8) (isize x)
      in fold (\<lambda>i d. wr32 d (p + 12 + 4 * i) (addrs x i)) [0..<NDIRECT + 1] d)"

definition get_dinode :: "block \<Rightarrow> nat \<Rightarrow> inode \<Rightarrow> inode" where
  "get_dinode d p x =
     x\<lparr>itype := rd16 d p, imajor := rd16 d (p + 2), iminor := rd16 d (p + 4), nlink := rd16 d (p + 6),
       isize := rd32 d (p + 8),
       addrs := (\<lambda>i. if i < NDIRECT + 1 then rd32 d (p + 12 + 4 * i) else addrs x i)\<rparr>"

definition iget :: "nat \<Rightarrow> nat \<Rightarrow> 'a fstate_scheme \<Rightarrow> (nat \<times> 'a fstate_scheme) res" where
  "iget dev i s =
     (case find (\<lambda>ip. 0 < iref (inodes s ip) \<and> idev (inodes s ip) = dev \<and> inum (inodes s ip) = i) [1..<NINODE + 1] of
        Some ip \<Rightarrow> Inr (ip, upd_inode ip (\<lambda>x. x\<lparr>iref := iref x + 1\<rparr>) s)
      | None \<Rightarrow>
          (case find (\<lambda>ip. iref (inodes s ip) = 0) [1..<NINODE + 1] of
             None \<Rightarrow> Inl (Panic ''iget: no inodes'')
           | Some ip \<Rightarrow> Inr (ip, upd_inode ip (\<lambda>x. x\<lparr>idev := dev, inum := i, iref := 1, ivalid := False\<rparr>) s)))"

fun ialloc_scan :: "int \<Rightarrow> nat \<Rightarrow> short \<Rightarrow> nat list \<Rightarrow> 'a fstate_scheme \<Rightarrow> (nat \<times> 'a fstate_scheme) res" where
  "ialloc_scan me dev type [] s = Inr (0, s)"
| "ialloc_scan me dev type (i # is) s =
     bindR (bread me dev (IBLOCK i (sb s)) s) (\<lambda>(bp, s).
       let p = dinode_off i in
       if rd16 (bdata (bufs s bp)) p = 0
       then bindR (log_write bp (set_data bp (\<lambda>d. wr16 (memset d p 0 sizeof_dinode) p type) s)) (\<lambda>s.
            bindR (brelse me bp s) (iget dev i))
       else bindR (brelse me bp s) (ialloc_scan me dev type is))"

definition ialloc :: "int \<Rightarrow> nat \<Rightarrow> short \<Rightarrow> 'a fstate_scheme \<Rightarrow> (nat \<times> 'a fstate_scheme) res" where
  "ialloc me dev type s = ialloc_scan me dev type [1..<unat (sb_ninodes (sb s))] s"

definition iupdate :: "int \<Rightarrow> nat \<Rightarrow> 'a fstate_scheme \<Rightarrow> 'a fstate_scheme res" where
  "iupdate me ip s =
     bindR (bread me (idev (inodes s ip)) (IBLOCK (inum (inodes s ip)) (sb s)) s) (\<lambda>(bp, s).
     let x = inodes s ip in
     bindR (log_write bp (set_data bp (put_dinode x (dinode_off (inum x))) s)) (brelse me bp))"

definition idup :: "nat \<Rightarrow> 'a fstate_scheme \<Rightarrow> nat \<times> 'a fstate_scheme" where
  "idup ip s = (ip, upd_inode ip (\<lambda>x. x\<lparr>iref := iref x + 1\<rparr>) s)"

definition ilock :: "int \<Rightarrow> nat \<Rightarrow> 'a fstate_scheme \<Rightarrow> 'a fstate_scheme res" where
  "ilock me ip s =
     (if ip = 0 \<or> iref (inodes s ip) < 1 then Inl (Panic ''ilock'')
      else bindR (acquiresleep (ChInode ip) me (ilk (inodes s ip))) (\<lambda>lk.
        let s = upd_inode ip (\<lambda>x. x\<lparr>ilk := lk\<rparr>) s in
        if \<not> ivalid (inodes s ip)
        then bindR (bread me (idev (inodes s ip)) (IBLOCK (inum (inodes s ip)) (sb s)) s) (\<lambda>(bp, s).
               let s = upd_inode ip (\<lambda>x. get_dinode (bdata (bufs s bp)) (dinode_off (inum x)) x) s in
               bindR (brelse me bp s) (\<lambda>s.
               let s = upd_inode ip (\<lambda>x. x\<lparr>ivalid := True\<rparr>) s in
               if itype (inodes s ip) = 0 then Inl (Panic ''ilock: no type'') else Inr s))
        else Inr s))"

definition releaseilk :: "nat \<Rightarrow> 'a fstate_scheme \<Rightarrow> 'a fstate_scheme" where
  "releaseilk ip s =
     (let (lk, w) = releasesleep (ChInode ip) (ilk (inodes s ip))
      in upd_inode ip (\<lambda>x. x\<lparr>ilk := lk\<rparr>) (s\<lparr>woken := w @ woken s\<rparr>))"

definition iunlock :: "int \<Rightarrow> nat \<Rightarrow> 'a fstate_scheme \<Rightarrow> 'a fstate_scheme res" where
  "iunlock me ip s =
     (if ip = 0 \<or> \<not> holdingsleep me (ilk (inodes s ip)) \<or> iref (inodes s ip) < 1 then Inl (Panic ''iunlock'')
      else Inr (releaseilk ip s))"

definition bmap_direct :: "int \<Rightarrow> nat \<Rightarrow> nat \<Rightarrow> 'a fstate_scheme \<Rightarrow> (nat \<times> 'a fstate_scheme) res" where
  "bmap_direct me ip k s =
     (if addrs (inodes s ip) k = 0
      then bindR (balloc me (idev (inodes s ip)) s) (\<lambda>(addr, s).
             if addr = 0 then Inr (0, s)
             else Inr (addr, upd_inode ip (\<lambda>x. x\<lparr>addrs := (addrs x)(k := of_nat addr)\<rparr>) s))
      else Inr (unat (addrs (inodes s ip) k), s))"

definition bmap :: "int \<Rightarrow> nat \<Rightarrow> nat \<Rightarrow> 'a fstate_scheme \<Rightarrow> (nat \<times> 'a fstate_scheme) res" where
  "bmap me ip bn s =
     (if bn < NDIRECT then bmap_direct me ip bn s
      else let bn = bn - NDIRECT in
        if bn < NINDIRECT
        then bindR (bmap_direct me ip NDIRECT s) (\<lambda>(ind, s).
          if ind = 0 then Inr (0, s)
          else bindR (bread me (idev (inodes s ip)) ind s) (\<lambda>(bp, s).
            let addr = unat (rd32 (bdata (bufs s bp)) (4 * bn)) in
            if addr = 0
            then bindR (balloc me (idev (inodes s ip)) s) (\<lambda>(addr, s).
                   if addr \<noteq> 0
                   then bindR (log_write bp (set_data bp (\<lambda>d. wr32 d (4 * bn) (of_nat addr)) s)) (\<lambda>s.
                        bindR (brelse me bp s) (\<lambda>s. Inr (addr, s)))
                   else bindR (brelse me bp s) (\<lambda>s. Inr (0, s)))
            else bindR (brelse me bp s) (\<lambda>s. Inr (addr, s))))
        else Inl (Panic ''bmap: out of range''))"

definition trunc_direct :: "int \<Rightarrow> nat \<Rightarrow> nat \<Rightarrow> 'a fstate_scheme \<Rightarrow> 'a fstate_scheme res" where
  "trunc_direct me ip i s =
     (if addrs (inodes s ip) i \<noteq> 0
      then bindR (bfree me (idev (inodes s ip)) (unat (addrs (inodes s ip) i)) s) (\<lambda>s.
             Inr (upd_inode ip (\<lambda>x. x\<lparr>addrs := (addrs x)(i := 0)\<rparr>) s))
      else Inr s)"

definition trunc_indirect :: "int \<Rightarrow> nat \<Rightarrow> nat \<Rightarrow> nat \<Rightarrow> 'a fstate_scheme \<Rightarrow> 'a fstate_scheme res" where
  "trunc_indirect me ip bp j s =
     (let a = rd32 (bdata (bufs s bp)) (4 * j) in
      if a \<noteq> 0 then bfree me (idev (inodes s ip)) (unat a) s else Inr s)"

definition itrunc :: "int \<Rightarrow> nat \<Rightarrow> 'a fstate_scheme \<Rightarrow> 'a fstate_scheme res" where
  "itrunc me ip s =
     bindR (forR (trunc_direct me ip) [0..<NDIRECT] s) (\<lambda>s.
     bindR (if addrs (inodes s ip) NDIRECT \<noteq> 0
            then bindR (bread me (idev (inodes s ip)) (unat (addrs (inodes s ip) NDIRECT)) s) (\<lambda>(bp, s).
                 bindR (forR (trunc_indirect me ip bp) [0..<NINDIRECT] s) (\<lambda>s.
                 bindR (brelse me bp s) (trunc_direct me ip NDIRECT)))
            else Inr s) (\<lambda>s.
     iupdate me ip (upd_inode ip (\<lambda>x. x\<lparr>isize := 0\<rparr>) s)))"

definition iput :: "int \<Rightarrow> nat \<Rightarrow> 'a fstate_scheme \<Rightarrow> 'a fstate_scheme res" where
  "iput me ip s =
     bindR (if iref (inodes s ip) = 1 \<and> ivalid (inodes s ip) \<and> nlink (inodes s ip) = 0
            then bindR (acquiresleep (ChInode ip) me (ilk (inodes s ip))) (\<lambda>lk.
                 bindR (itrunc me ip (upd_inode ip (\<lambda>x. x\<lparr>ilk := lk\<rparr>) s)) (\<lambda>s.
                 bindR (iupdate me ip (upd_inode ip (\<lambda>x. x\<lparr>itype := 0\<rparr>) s)) (\<lambda>s.
                 Inr (releaseilk ip (upd_inode ip (\<lambda>x. x\<lparr>ivalid := False\<rparr>) s)))))
            else Inr s) (\<lambda>s.
     Inr (upd_inode ip (\<lambda>x. x\<lparr>iref := iref x - 1\<rparr>) s))"

definition iunlockput :: "int \<Rightarrow> nat \<Rightarrow> 'a fstate_scheme \<Rightarrow> 'a fstate_scheme res" where
  "iunlockput me ip s = bindR (iunlock me ip s) (iput me ip)"

definition stati :: "nat \<Rightarrow> 'a fstate_scheme \<Rightarrow> stat" where
  "stati ip s =
     \<lparr>st_dev = idev (inodes s ip), st_ino = inum (inodes s ip), st_type = itype (inodes s ip),
      st_nlink = nlink (inodes s ip), st_size = ucast (isize (inodes s ip))\<rparr>"

section \<open>Reading and writing files\<close>

text \<open>
  A sink stores bytes at a destination cursor and a source fetches bytes from a source cursor; both
  give the result of the copy (0 or -1), the advanced cursor and the state. A source that fails may
  have delivered the beginning of what was asked for.
\<close>

type_synonym ('c, 's) sink = "byte list \<Rightarrow> 'c \<Rightarrow> 's \<Rightarrow> (int \<times> 'c \<times> 's) res"
type_synonym ('c, 's) source = "nat \<Rightarrow> 'c \<Rightarrow> 's \<Rightarrow> (int \<times> byte list \<times> 'c \<times> 's) res"

definition local_sink :: "(byte list, 's) sink" where
  "local_sink bs c s = Inr (0, c @ bs, s)"

definition local_source :: "(byte list, 's) source" where
  "local_source n c s = Inr (0, take n c, drop n c, s)"

text \<open>\<open>rem\<close> is \<^verbatim>\<open>n - tot\<close>.\<close>

function readi_loop :: "(('c, 'a fstate_scheme) sink) \<Rightarrow> int \<Rightarrow> nat \<Rightarrow> nat \<Rightarrow> nat \<Rightarrow> nat \<Rightarrow> 'c \<Rightarrow> 'a fstate_scheme \<Rightarrow>
    (int \<times> 'c \<times> 'a fstate_scheme) res" where
  "readi_loop snk me ip rem tot off c s =
     (if rem = 0 then Inr (sint (of_nat tot :: uint32), c, s)
      else bindR (bmap me ip (off div BSIZE) s) (\<lambda>(addr, s).
        if addr = 0 then Inr (sint (of_nat tot :: uint32), c, s)
        else bindR (bread me (idev (inodes s ip)) addr s) (\<lambda>(bp, s).
          let m = min rem (BSIZE - off mod BSIZE) in
          bindR (snk (rdbytes (bdata (bufs s bp)) (off mod BSIZE) m) c s) (\<lambda>(r, c, s).
            bindR (brelse me bp s) (\<lambda>s.
            if r = -1 then Inr (-1, c, s)
            else readi_loop snk me ip (rem - m) (tot + m) (off + m) c s)))))"
  by pat_completeness auto
termination
  by (relation "measure (\<lambda>(snk, me, ip, rem, _). rem)") (auto simp: BSIZE_def)

declare readi_loop.simps [simp del]

definition readi :: "(('c, 'a fstate_scheme) sink) \<Rightarrow> int \<Rightarrow> nat \<Rightarrow> 'c \<Rightarrow> uint32 \<Rightarrow> uint32 \<Rightarrow> 'a fstate_scheme \<Rightarrow>
    (int \<times> 'c \<times> 'a fstate_scheme) res" where
  "readi snk me ip dst off n s =
     (let sz = isize (inodes s ip) in
      if off > sz \<or> off + n < off then Inr (0, dst, s)
      else let n = (if off + n > sz then sz - off else n)
           in readi_loop snk me ip (unat n) 0 (unat off) dst s)"

text \<open>The loop gives back \<^verbatim>\<open>tot\<close> and the final \<^verbatim>\<open>off\<close>.\<close>

function writei_loop :: "(('c, 'a fstate_scheme) source) \<Rightarrow> int \<Rightarrow> nat \<Rightarrow> nat \<Rightarrow> nat \<Rightarrow> nat \<Rightarrow> 'c \<Rightarrow> 'a fstate_scheme \<Rightarrow>
    (nat \<times> nat \<times> 'c \<times> 'a fstate_scheme) res" where
  "writei_loop src me ip rem tot off c s =
     (if rem = 0 then Inr (tot, off, c, s)
      else bindR (bmap me ip (off div BSIZE) s) (\<lambda>(addr, s).
        if addr = 0 then Inr (tot, off, c, s)
        else bindR (bread me (idev (inodes s ip)) addr s) (\<lambda>(bp, s).
          let m = min rem (BSIZE - off mod BSIZE) in
          bindR (src m c s) (\<lambda>(r, bs, c, s).
            let s = set_data bp (\<lambda>d. wrbytes d (off mod BSIZE) bs) s in
            if r = -1 then bindR (brelse me bp s) (\<lambda>s. Inr (tot, off, c, s))
            else bindR (log_write bp s) (\<lambda>s.
                 bindR (brelse me bp s) (\<lambda>s.
                 writei_loop src me ip (rem - m) (tot + m) (off + m) c s))))))"
  by pat_completeness auto
termination
  by (relation "measure (\<lambda>(src, me, ip, rem, _). rem)") (auto simp: BSIZE_def)

declare writei_loop.simps [simp del]

definition writei :: "(('c, 'a fstate_scheme) source) \<Rightarrow> int \<Rightarrow> nat \<Rightarrow> 'c \<Rightarrow> uint32 \<Rightarrow> uint32 \<Rightarrow> 'a fstate_scheme \<Rightarrow>
    (int \<times> 'c \<times> 'a fstate_scheme) res" where
  "writei src me ip from off n s =
     (if off > isize (inodes s ip) \<or> off + n < off then Inr (-1, from, s)
      else if unat (off + n) > MAXFILE * BSIZE then Inr (-1, from, s)
      else bindR (writei_loop src me ip (unat n) 0 (unat off) from s) (\<lambda>(tot, off, from, s).
           let s = (if off > unat (isize (inodes s ip)) then upd_inode ip (\<lambda>x. x\<lparr>isize := of_nat off\<rparr>) s else s) in
           bindR (iupdate me ip s) (\<lambda>s. Inr (int tot, from, s))))"

section \<open>Directories\<close>

text \<open>Two character arrays in one memory, for the routines of \<^verbatim>\<open>kernel/string.c\<close>.\<close>

definition pair_mem :: "byte list \<Rightarrow> byte list \<Rightarrow> memory" where
  "pair_mem xs ys = wrbytes (wrbytes (\<lambda>_. 0) 0 xs) 16 ys"

definition namecmp :: "byte list \<Rightarrow> byte list \<Rightarrow> int" where
  "namecmp s t = strncmp (pair_mem s t) 0 16 DIRSIZ"

definition de_inum :: "byte list \<Rightarrow> nat" where
  "de_inum de = dec_le (take 2 de)"

definition de_name :: "byte list \<Rightarrow> byte list" where
  "de_name de = drop 2 de"

text \<open>The offsets of \<^verbatim>\<open>for(off = 0; off < dp->size; off += sizeof(de))\<close>.\<close>

definition dirent_offs :: "nat \<Rightarrow> nat list" where
  "dirent_offs sz = map (\<lambda>k. k * sizeof_dirent) [0..<(sz + sizeof_dirent - 1) div sizeof_dirent]"

definition read_dirent :: "string \<Rightarrow> int \<Rightarrow> nat \<Rightarrow> nat \<Rightarrow> 'a fstate_scheme \<Rightarrow> (byte list \<times> 'a fstate_scheme) res" where
  "read_dirent msg me dp off s =
     bindR (readi local_sink me dp [] (of_nat off) (of_nat sizeof_dirent) s) (\<lambda>(r, de, s).
     if r \<noteq> int sizeof_dirent then Inl (Panic msg) else Inr (de, s))"

fun dirlookup_loop :: "int \<Rightarrow> nat \<Rightarrow> byte list \<Rightarrow> nat list \<Rightarrow> 'a fstate_scheme \<Rightarrow> (nat \<times> nat option \<times> 'a fstate_scheme) res" where
  "dirlookup_loop me dp name [] s = Inr (0, None, s)"
| "dirlookup_loop me dp name (off # offs) s =
     bindR (read_dirent ''dirlookup read'' me dp off s) (\<lambda>(de, s).
     if de_inum de = 0 then dirlookup_loop me dp name offs s
     else if namecmp name (de_name de) = 0
     then bindR (iget (idev (inodes s dp)) (de_inum de) s) (\<lambda>(ip, s). Inr (ip, Some off, s))
     else dirlookup_loop me dp name offs s)"

text \<open>The inode found (0 if none) and the offset the code stores in \<^verbatim>\<open>*poff\<close>.\<close>

definition dirlookup :: "int \<Rightarrow> nat \<Rightarrow> byte list \<Rightarrow> 'a fstate_scheme \<Rightarrow> (nat \<times> nat option \<times> 'a fstate_scheme) res" where
  "dirlookup me dp name s =
     (if itype (inodes s dp) \<noteq> T_DIR then Inl (Panic ''dirlookup not DIR'')
      else dirlookup_loop me dp name (dirent_offs (unat (isize (inodes s dp)))) s)"

text \<open>The search for an empty entry: its offset, or the offset after the last entry.\<close>

fun dirlink_loop :: "int \<Rightarrow> nat \<Rightarrow> nat list \<Rightarrow> nat \<Rightarrow> 'a fstate_scheme \<Rightarrow> (nat \<times> 'a fstate_scheme) res" where
  "dirlink_loop me dp [] e s = Inr (e, s)"
| "dirlink_loop me dp (off # offs) e s =
     bindR (read_dirent ''dirlink read'' me dp off s) (\<lambda>(de, s).
     if de_inum de = 0 then Inr (off, s) else dirlink_loop me dp offs (off + sizeof_dirent) s)"

definition mk_dirent :: "byte list \<Rightarrow> nat \<Rightarrow> byte list" where
  "mk_dirent name i = enc_le 2 i @ rdbytes (strncpy (pair_mem (replicate DIRSIZ 0) name) 0 16 (int DIRSIZ)) 0 DIRSIZ"

definition dirlink :: "int \<Rightarrow> nat \<Rightarrow> byte list \<Rightarrow> nat \<Rightarrow> 'a fstate_scheme \<Rightarrow> (int \<times> 'a fstate_scheme) res" where
  "dirlink me dp name i s =
     bindR (dirlookup me dp name s) (\<lambda>(ip, _, s).
     if ip \<noteq> 0 then bindR (iput me ip s) (\<lambda>s. Inr (-1, s))
     else bindR (dirlink_loop me dp (dirent_offs (unat (isize (inodes s dp)))) 0 s) (\<lambda>(off, s).
       bindR (writei local_source me dp (mk_dirent name i) (of_nat off) (of_nat sizeof_dirent) s) (\<lambda>(r, _, s).
       Inr (if r \<noteq> int sizeof_dirent then -1 else 0, s))))"

section \<open>Paths\<close>

text \<open>A path is the bytes before its terminating zero; \<open>name\<close> is the caller's array of \<^verbatim>\<open>DIRSIZ\<close> bytes.\<close>

definition slash :: byte where "slash = 47"

definition skipelem :: "byte list \<Rightarrow> byte list \<Rightarrow> (byte list \<times> byte list) option" where
  "skipelem path name =
     (let path = dropWhile (\<lambda>c. c = slash) path in
      if path = [] then None
      else let e = takeWhile (\<lambda>c. c \<noteq> slash) path;
               path = dropWhile (\<lambda>c. c \<noteq> slash) path;
               name = (if length e \<ge> DIRSIZ then take DIRSIZ e else e @ 0 # drop (length e + 1) name)
           in Some (dropWhile (\<lambda>c. c = slash) path, name))"

lemma skipelem_shorter: "skipelem path name = Some (path', name') \<Longrightarrow> length path' < length path"
proof -
  assume a: "skipelem path name = Some (path', name')"
  let ?p = "dropWhile (\<lambda>c. c = slash) path"
  have ne: "?p \<noteq> []" and p': "path' = dropWhile (\<lambda>c. c = slash) (dropWhile (\<lambda>c. c \<noteq> slash) ?p)"
    using a by (auto simp: skipelem_def Let_def split: if_splits)
  have "hd ?p \<noteq> slash" using ne by (rule hd_dropWhile)
  then have "length (dropWhile (\<lambda>c. c \<noteq> slash) ?p) < length ?p"
    using ne by (cases ?p) (auto intro: le_less_trans[OF length_dropWhile_le])
  then show ?thesis
    unfolding p' using length_dropWhile_le[of _ "dropWhile (\<lambda>c. c \<noteq> slash) ?p"] length_dropWhile_le[of _ path]
    by (meson le_less_trans less_le_trans)
qed

function namex_loop :: "int \<Rightarrow> byte list \<Rightarrow> bool \<Rightarrow> byte list \<Rightarrow> nat \<Rightarrow> 'a fstate_scheme \<Rightarrow> (nat \<times> byte list \<times> 'a fstate_scheme) res" where
  "namex_loop me path parent name ip s =
     (case skipelem path name of
        None \<Rightarrow> if parent then bindR (iput me ip s) (\<lambda>s. Inr (0, name, s)) else Inr (ip, name, s)
      | Some (path, name) \<Rightarrow>
          bindR (ilock me ip s) (\<lambda>s.
          if itype (inodes s ip) \<noteq> T_DIR then bindR (iunlockput me ip s) (\<lambda>s. Inr (0, name, s))
          else if parent \<and> path = [] then bindR (iunlock me ip s) (\<lambda>s. Inr (ip, name, s))
          else bindR (dirlookup me ip name s) (\<lambda>(next, _, s).
               if next = 0 then bindR (iunlockput me ip s) (\<lambda>s. Inr (0, name, s))
               else bindR (iunlockput me ip s) (namex_loop me path parent name next))))"
  by pat_completeness auto
termination
  by (relation "measure (\<lambda>(me, path, _). length path)") (auto dest: skipelem_shorter)

declare namex_loop.simps [simp del]

definition namex :: "int \<Rightarrow> nat \<Rightarrow> byte list \<Rightarrow> bool \<Rightarrow> byte list \<Rightarrow> 'a fstate_scheme \<Rightarrow> (nat \<times> byte list \<times> 'a fstate_scheme) res" where
  "namex me cwd path parent name s =
     bindR (if path \<noteq> [] \<and> hd path = slash then iget ROOTDEV ROOTINO s else Inr (idup cwd s)) (\<lambda>(ip, s).
     namex_loop me path parent name ip s)"

definition namei :: "int \<Rightarrow> nat \<Rightarrow> byte list \<Rightarrow> 'a fstate_scheme \<Rightarrow> (nat \<times> 'a fstate_scheme) res" where
  "namei me cwd path s =
     bindR (namex me cwd path False (replicate DIRSIZ 0) s) (\<lambda>(ip, _, s). Inr (ip, s))"

definition nameiparent :: "int \<Rightarrow> nat \<Rightarrow> byte list \<Rightarrow> byte list \<Rightarrow> 'a fstate_scheme \<Rightarrow> (nat \<times> byte list \<times> 'a fstate_scheme) res" where
  "nameiparent me cwd path name s = namex me cwd path True name s"

end
