(* ===== verification/Xv6_Vm.thy ===== *)
theory Xv6_Vm
  imports Xv6_Kalloc
begin

text \<open>
  Page tables, \<^verbatim>\<open>kernel/vm.c\<close> up to \<^verbatim>\<open>uvmclear\<close>. A page table is the physical address of its root
  page; entries are 64-bit words in physical memory, which the kernel maps one to one. A store of
  the kernel through a null pointer is a page fault in the kernel, which ends in
  \<^verbatim>\<open>panic("kerneltrap")\<close>. Addresses are 64-bit words, so additions wrap around as in C.
\<close>

section \<open>Walking a page table\<close>

abbreviation pgsz :: uint64 where "pgsz \<equiv> of_nat PGSIZE"

definition get_pte :: "'a phys_scheme \<Rightarrow> nat \<Rightarrow> uint64" where
  "get_pte s a = rd64 (pmem s) a"

definition set_pte :: "nat \<Rightarrow> uint64 \<Rightarrow> 'a phys_scheme \<Rightarrow> 'a phys_scheme" where
  "set_pte a v s = s\<lparr>pmem := wr64 (pmem s) a v\<rparr>"

text \<open>\<^verbatim>\<open>memset(pa, 0, PGSIZE)\<close> and \<^verbatim>\<open>memmove(dst, src, n)\<close> of the kernel on physical memory.\<close>

definition zero_page :: "nat \<Rightarrow> 'a phys_scheme \<Rightarrow> 'a phys_scheme res" where
  "zero_page pa s =
     (if pa = 0 then Inl (Panic ''kerneltrap'') else Inr (s\<lparr>pmem := memset (pmem s) pa 0 PGSIZE\<rparr>))"

definition copy_page :: "nat \<Rightarrow> nat \<Rightarrow> 'a phys_scheme \<Rightarrow> 'a phys_scheme res" where
  "copy_page dst src s =
     (if dst = 0 then Inl (Panic ''kerneltrap'') else Inr (s\<lparr>pmem := memmove (pmem s) dst src PGSIZE\<rparr>))"

definition pte_addr :: "nat \<Rightarrow> nat \<Rightarrow> uint64 \<Rightarrow> nat" where
  "pte_addr pagetable level va = pagetable + 8 * unat (PX level va)"

text \<open>The loop \<^verbatim>\<open>for(level = 2; level > 0; level--)\<close>, from a given level on.\<close>

fun walk_from :: "nat \<Rightarrow> nat \<Rightarrow> uint64 \<Rightarrow> bool \<Rightarrow> 'a phys_scheme \<Rightarrow> nat \<times> 'a phys_scheme" where
  "walk_from 0 pagetable va alloc s = (pte_addr pagetable 0 va, s)"
| "walk_from (Suc level) pagetable va alloc s =
     (let pte = pte_addr pagetable (Suc level) va in
      if get_pte s pte AND PTE_V \<noteq> 0 then walk_from level (unat (PTE2PA (get_pte s pte))) va alloc s
      else if \<not> alloc then (0, s)
      else let (page, s) = kalloc s in
        if page = 0 then (0, s)
        else let s = s\<lparr>pmem := memset (pmem s) page 0 PGSIZE\<rparr>;
                 s = set_pte pte (PA2PTE (of_nat page) OR PTE_V) s
             in walk_from level page va alloc s)"

definition walk :: "nat \<Rightarrow> uint64 \<Rightarrow> bool \<Rightarrow> 'a phys_scheme \<Rightarrow> (nat \<times> 'a phys_scheme) res" where
  "walk pagetable va alloc s =
     (if va \<ge> MAXVA then Inl (Panic ''walk'') else Inr (walk_from 2 pagetable va alloc s))"

definition walkaddr :: "nat \<Rightarrow> uint64 \<Rightarrow> 'a phys_scheme \<Rightarrow> nat" where
  "walkaddr pagetable va s =
     (if va \<ge> MAXVA then 0
      else let (pte, _) = walk_from 2 pagetable va False s in
        if pte = 0 then 0
        else if get_pte s pte AND PTE_V = 0 then 0
        else if get_pte s pte AND PTE_U = 0 then 0
        else unat (PTE2PA (get_pte s pte)))"

section \<open>Mapping and unmapping\<close>

lemma walk_MAXVA: "walk pt va alloc s = Inr r \<Longrightarrow> va < MAXVA"
  by (auto simp: walk_def not_le split: if_splits)

lemma next_page_less: "va < MAXVA \<Longrightarrow> unat MAXVA - unat (va + pgsz) < unat MAXVA - unat va"
  by (simp add: word_less_nat_alt MAXVA_val PGSIZE_def unat_word_ariths)

function mappages_loop :: "nat \<Rightarrow> uint64 \<Rightarrow> uint64 \<Rightarrow> uint64 \<Rightarrow> uint64 \<Rightarrow> 'a phys_scheme \<Rightarrow> (int \<times> 'a phys_scheme) res" where
  "mappages_loop pagetable a la pa perm s =
     bindR (walk pagetable a True s) (\<lambda>(pte, s).
       if pte = 0 then Inr (-1, s)
       else if get_pte s pte AND PTE_V \<noteq> 0 then Inl (Panic ''mappages: remap'')
       else let s = set_pte pte (PA2PTE pa OR perm OR PTE_V) s in
         if a = la then Inr (0, s)
         else mappages_loop pagetable (a + pgsz) la (pa + pgsz) perm s)"
  by pat_completeness auto
termination
  by (relation "measure (\<lambda>(_, a, _). unat MAXVA - unat a)") (auto dest!: walk_MAXVA next_page_less)

declare mappages_loop.simps [simp del]

definition mappages :: "nat \<Rightarrow> uint64 \<Rightarrow> uint64 \<Rightarrow> nat \<Rightarrow> uint64 \<Rightarrow> 'a phys_scheme \<Rightarrow> (int \<times> 'a phys_scheme) res" where
  "mappages pagetable va sz pa perm s =
     (if sz = 0 then Inl (Panic ''mappages: size'')
      else mappages_loop pagetable (PGROUNDDOWN va) (PGROUNDDOWN (va + sz - 1)) (of_nat pa) perm s)"

definition kvmmap :: "nat \<Rightarrow> uint64 \<Rightarrow> nat \<Rightarrow> uint64 \<Rightarrow> uint64 \<Rightarrow> 'a phys_scheme \<Rightarrow> 'a phys_scheme res" where
  "kvmmap kpgtbl va pa sz perm s =
     bindR (mappages kpgtbl va sz pa perm s) (\<lambda>(r, s). if r \<noteq> 0 then Inl (Panic ''kvmmap'') else Inr s)"

definition unmap_page :: "nat \<Rightarrow> uint64 \<Rightarrow> bool \<Rightarrow> 'a phys_scheme \<Rightarrow> 'a phys_scheme res" where
  "unmap_page pagetable a do_free s =
     bindR (walk pagetable a False s) (\<lambda>(pte, s).
       if pte = 0 then Inr s
       else if get_pte s pte AND PTE_V = 0 then Inr s
       else if PTE_FLAGS (get_pte s pte) = PTE_V then Inl (Panic ''uvmunmap: not a leaf'')
       else bindR (if do_free then kfree s (unat (PTE2PA (get_pte s pte))) else Inr s) (\<lambda>s.
            Inr (set_pte pte 0 s)))"

lemma unmap_page_MAXVA: "unmap_page pt a f s = Inr s' \<Longrightarrow> a < MAXVA"
  by (auto simp: unmap_page_def res_simps dest: walk_MAXVA)

function uvmunmap_loop :: "nat \<Rightarrow> uint64 \<Rightarrow> uint64 \<Rightarrow> bool \<Rightarrow> 'a phys_scheme \<Rightarrow> 'a phys_scheme res" where
  "uvmunmap_loop pagetable a e do_free s =
     (if a < e then bindR (unmap_page pagetable a do_free s) (uvmunmap_loop pagetable (a + pgsz) e do_free)
      else Inr s)"
  by pat_completeness auto
termination
  by (relation "measure (\<lambda>(_, a, _). unat MAXVA - unat a)") (auto dest!: unmap_page_MAXVA next_page_less)

declare uvmunmap_loop.simps [simp del]

definition uvmunmap :: "nat \<Rightarrow> uint64 \<Rightarrow> uint64 \<Rightarrow> bool \<Rightarrow> 'a phys_scheme \<Rightarrow> 'a phys_scheme res" where
  "uvmunmap pagetable va npages do_free s =
     (if va mod pgsz \<noteq> 0 then Inl (Panic ''uvmunmap: not aligned'')
      else uvmunmap_loop pagetable va (va + npages * pgsz) do_free s)"

section \<open>User address spaces\<close>

definition uvmcreate :: "'a phys_scheme \<Rightarrow> nat \<times> 'a phys_scheme" where
  "uvmcreate s =
     (let (pagetable, s) = kalloc s in
      if pagetable = 0 then (0, s)
      else (pagetable, s\<lparr>pmem := memset (pmem s) pagetable 0 PGSIZE\<rparr>))"

text \<open>\<open>src\<close> is the list of the \<^verbatim>\<open>sz\<close> bytes.\<close>

definition uvmfirst :: "nat \<Rightarrow> byte list \<Rightarrow> 'a phys_scheme \<Rightarrow> 'a phys_scheme res" where
  "uvmfirst pagetable src s =
     (if length src \<ge> PGSIZE then Inl (Panic ''uvmfirst: more than a page'')
      else let (mem, s) = kalloc s in
        bindR (zero_page mem s) (\<lambda>s.
        bindR (mappages pagetable 0 pgsz mem (PTE_W OR PTE_R OR PTE_X OR PTE_U) s) (\<lambda>(_, s).
        Inr (s\<lparr>pmem := wrbytes (pmem s) mem src\<rparr>))))"

text \<open>\<^verbatim>\<open>npages\<close> is an \<^verbatim>\<open>int\<close>; it reaches \<^verbatim>\<open>uvmunmap\<close> sign-extended.\<close>

definition uvmdealloc :: "nat \<Rightarrow> uint64 \<Rightarrow> uint64 \<Rightarrow> 'a phys_scheme \<Rightarrow> (uint64 \<times> 'a phys_scheme) res" where
  "uvmdealloc pagetable oldsz newsz s =
     (if newsz \<ge> oldsz then Inr (oldsz, s)
      else bindR (if PGROUNDUP newsz < PGROUNDUP oldsz
                  then let npages = ucast ((PGROUNDUP oldsz - PGROUNDUP newsz) div pgsz) :: uint32
                       in uvmunmap pagetable (PGROUNDUP newsz) (scast npages) True s
                  else Inr s) (\<lambda>s. Inr (newsz, s)))"

lemma PGROUNDDOWN_MAXVA: "PGROUNDDOWN a < MAXVA \<longleftrightarrow> a < MAXVA"
  unfolding word_less_nat_alt unat_PGROUNDDOWN MAXVA_val PGSIZE_def by auto

lemma mappages_loop_MAXVA: "mappages_loop pt a la pa perm s = Inr r \<Longrightarrow> a < MAXVA"
  by (subst (asm) mappages_loop.simps) (auto simp: res_simps dest!: walk_MAXVA)

lemma mappages_MAXVA: "mappages pt a sz pa perm s = Inr r \<Longrightarrow> a < MAXVA"
  using mappages_loop_MAXVA[of pt "PGROUNDDOWN a"] PGROUNDDOWN_MAXVA[of a]
  by (simp add: mappages_def split: if_splits)

text \<open>\<open>base\<close> is the rounded \<^verbatim>\<open>oldsz\<close>, the address to which the error paths cut back.\<close>

function uvmalloc_loop :: "nat \<Rightarrow> uint64 \<Rightarrow> uint64 \<Rightarrow> uint64 \<Rightarrow> uint64 \<Rightarrow> 'a phys_scheme \<Rightarrow> (uint64 \<times> 'a phys_scheme) res" where
  "uvmalloc_loop pagetable a newsz base xperm s =
     (if a < newsz
      then let (mem, s) = kalloc s in
        if mem = 0 then bindR (uvmdealloc pagetable a base s) (\<lambda>(_, s). Inr (0, s))
        else let s = s\<lparr>pmem := memset (pmem s) mem 0 PGSIZE\<rparr> in
          bindR (mappages pagetable a pgsz mem (PTE_R OR PTE_U OR xperm) s) (\<lambda>(r, s).
            if r \<noteq> 0 then bindR (kfree s mem) (\<lambda>s. bindR (uvmdealloc pagetable a base s) (\<lambda>(_, s). Inr (0, s)))
            else uvmalloc_loop pagetable (a + pgsz) newsz base xperm s)
      else Inr (newsz, s))"
  by pat_completeness auto
termination
  by (relation "measure (\<lambda>(_, a, _). unat MAXVA - unat a)") (auto dest!: mappages_MAXVA next_page_less)

declare uvmalloc_loop.simps [simp del]

definition uvmalloc :: "nat \<Rightarrow> uint64 \<Rightarrow> uint64 \<Rightarrow> uint64 \<Rightarrow> 'a phys_scheme \<Rightarrow> (uint64 \<times> 'a phys_scheme) res" where
  "uvmalloc pagetable oldsz newsz xperm s =
     (if newsz < oldsz then Inr (oldsz, s)
      else let oldsz = PGROUNDUP oldsz in uvmalloc_loop pagetable oldsz newsz oldsz xperm s)"

text \<open>The recursion of \<^verbatim>\<open>freewalk\<close> follows the tree, which has three levels; \<open>Diverges\<close> stands for a
  fourth level, which no page table built by \<^verbatim>\<open>walk\<close> has.\<close>

fun freewalk_depth :: "nat \<Rightarrow> nat \<Rightarrow> 'a phys_scheme \<Rightarrow> 'a phys_scheme res" where
  "freewalk_depth 0 pagetable s = Inl Diverges"
| "freewalk_depth (Suc d) pagetable s =
     bindR (forR (\<lambda>i s.
        let pte = get_pte s (pagetable + 8 * i) in
        if pte AND PTE_V \<noteq> 0 \<and> pte AND (PTE_R OR PTE_W OR PTE_X) = 0
        then bindR (freewalk_depth d (unat (PTE2PA pte)) s) (\<lambda>s. Inr (set_pte (pagetable + 8 * i) 0 s))
        else if pte AND PTE_V \<noteq> 0 then Inl (Panic ''freewalk: leaf'')
        else Inr s) [0..<512] s) (\<lambda>s.
     kfree s pagetable)"

definition freewalk :: "nat \<Rightarrow> 'a phys_scheme \<Rightarrow> 'a phys_scheme res" where
  "freewalk pagetable s = freewalk_depth 3 pagetable s"

definition uvmfree :: "nat \<Rightarrow> uint64 \<Rightarrow> 'a phys_scheme \<Rightarrow> 'a phys_scheme res" where
  "uvmfree pagetable sz s =
     bindR (if sz > 0 then uvmunmap pagetable 0 (PGROUNDUP sz div pgsz) True s else Inr s) (freewalk pagetable)"

text \<open>One turn of the loop of \<^verbatim>\<open>uvmcopy\<close>: whether to go on, and the state.\<close>

definition copy_step :: "nat \<Rightarrow> nat \<Rightarrow> uint64 \<Rightarrow> 'a phys_scheme \<Rightarrow> (bool \<times> 'a phys_scheme) res" where
  "copy_step old new i s =
     bindR (walk old i False s) (\<lambda>(pte, s).
       if pte = 0 then Inr (True, s)
       else if get_pte s pte AND PTE_V = 0 then Inr (True, s)
       else let pa = unat (PTE2PA (get_pte s pte)); flags = PTE_FLAGS (get_pte s pte); (mem, s) = kalloc s in
         if mem = 0 then Inr (False, s)
         else let s = s\<lparr>pmem := memmove (pmem s) mem pa PGSIZE\<rparr> in
           bindR (mappages new i pgsz mem flags s) (\<lambda>(r, s).
             if r \<noteq> 0 then bindR (kfree s mem) (\<lambda>s. Inr (False, s)) else Inr (True, s)))"

lemma copy_step_MAXVA: "copy_step old new i s = Inr r \<Longrightarrow> i < MAXVA"
  by (auto simp: copy_step_def res_simps dest: walk_MAXVA)

function uvmcopy_loop :: "nat \<Rightarrow> nat \<Rightarrow> uint64 \<Rightarrow> uint64 \<Rightarrow> 'a phys_scheme \<Rightarrow> (int \<times> 'a phys_scheme) res" where
  "uvmcopy_loop old new sz i s =
     (if i < sz
      then bindR (copy_step old new i s) (\<lambda>(ok, s).
             if ok then uvmcopy_loop old new sz (i + pgsz) s
             else bindR (uvmunmap new 0 (i div pgsz) True s) (\<lambda>s. Inr (-1, s)))
      else Inr (0, s))"
  by pat_completeness auto
termination
  by (relation "measure (\<lambda>(_, _, _, i, _). unat MAXVA - unat i)") (auto dest!: copy_step_MAXVA next_page_less)

declare uvmcopy_loop.simps [simp del]

definition uvmcopy :: "nat \<Rightarrow> nat \<Rightarrow> uint64 \<Rightarrow> 'a phys_scheme \<Rightarrow> (int \<times> 'a phys_scheme) res" where
  "uvmcopy old new sz s = uvmcopy_loop old new sz 0 s"

definition uvmcopy_start :: "nat \<Rightarrow> nat \<Rightarrow> uint64 \<Rightarrow> uint64 \<Rightarrow> 'a phys_scheme \<Rightarrow> (int \<times> 'a phys_scheme) res" where
  "uvmcopy_start old new sz start s = uvmcopy_loop old new sz start s"

definition uvmclear :: "nat \<Rightarrow> uint64 \<Rightarrow> 'a phys_scheme \<Rightarrow> 'a phys_scheme res" where
  "uvmclear pagetable va s =
     bindR (walk pagetable va False s) (\<lambda>(pte, s).
       if pte = 0 then Inl (Panic ''uvmclear'')
       else Inr (set_pte pte (get_pte s pte AND NOT PTE_U) s))"

section \<open>The kernel page table\<close>

definition NPROC :: nat where "NPROC = 64"
definition UART0 :: nat where "UART0 = 0x10000000"
definition VIRTIO0 :: nat where "VIRTIO0 = 0x10001000"
definition PLIC :: nat where "PLIC = 0x0c000000"

definition proc_mapstacks :: "nat \<Rightarrow> 'a phys_scheme \<Rightarrow> 'a phys_scheme res" where
  "proc_mapstacks kpgtbl s =
     forR (\<lambda>p s.
       let (pa, s) = kalloc s in
       if pa = 0 then Inl (Panic ''kalloc'')
       else kvmmap kpgtbl (KSTACK p) pa pgsz (PTE_R OR PTE_W) s) [0..<NPROC] s"

text \<open>The linker places \<^verbatim>\<open>etext\<close> and \<^verbatim>\<open>trampoline\<close>.\<close>

definition kvmmake :: "nat \<Rightarrow> nat \<Rightarrow> 'a phys_scheme \<Rightarrow> (nat \<times> 'a phys_scheme) res" where
  "kvmmake etext trampoline s =
     (let (kpgtbl, s) = kalloc s in
      bindR (zero_page kpgtbl s) (\<lambda>s.
      bindR (kvmmap kpgtbl (of_nat UART0) UART0 pgsz (PTE_R OR PTE_W) s) (\<lambda>s.
      bindR (kvmmap kpgtbl (of_nat VIRTIO0) VIRTIO0 pgsz (PTE_R OR PTE_W) s) (\<lambda>s.
      bindR (kvmmap kpgtbl (of_nat PLIC) PLIC 0x400000 (PTE_R OR PTE_W) s) (\<lambda>s.
      bindR (kvmmap kpgtbl (of_nat KERNBASE) KERNBASE (of_nat etext - of_nat KERNBASE) (PTE_R OR PTE_X) s) (\<lambda>s.
      bindR (kvmmap kpgtbl (of_nat etext) etext (of_nat PHYSTOP - of_nat etext) (PTE_R OR PTE_W) s) (\<lambda>s.
      bindR (kvmmap kpgtbl TRAMPOLINE trampoline pgsz (PTE_R OR PTE_X) s) (\<lambda>s.
      bindR (proc_mapstacks kpgtbl s) (\<lambda>s.
      Inr (kpgtbl, s))))))))))"

end
