(* ===== verification/Xv6_Kstate.thy ===== *)
theory Xv6_Kstate
  imports Xv6_Fs Xv6_Vm Xv6_Printf
begin

text \<open>
  The whole kernel state: the file system's, extended with the file table, the pipes, the process table
  (\<^verbatim>\<open>kernel/proc.h\<close>), the table of mapped areas and the console. Pointers into a table are its
  index plus one, 0 being null; a pipe is named by the address of its page. The current process,
  \<^verbatim>\<open>myproc()\<close>, is an argument of the routines that use it. A trap frame lives in physical memory at
  the address \<^verbatim>\<open>p->trapframe\<close>.
\<close>

section \<open>Files, mapped areas, processes\<close>

definition NFILE :: nat where "NFILE = 100"
definition NOFILE :: nat where "NOFILE = 16"
definition NDEV :: nat where "NDEV = 10"
definition MAXARG :: nat where "MAXARG = 32"
definition MAXPATH :: nat where "MAXPATH = 128"
definition PER_PROCESS_VMAS :: nat where "PER_PROCESS_VMAS = 4"
definition NVMAS :: nat where "NVMAS = PER_PROCESS_VMAS * NPROC"
definition CONSOLE :: int where "CONSOLE = 1"

definition PROT_READ :: int where "PROT_READ = 1"
definition PROT_WRITE :: int where "PROT_WRITE = 2"
definition PROT_RW :: int where "PROT_RW = 3"
definition PROT_EXEC :: int where "PROT_EXEC = 6"
definition MAP_SHARED :: int where "MAP_SHARED = 4"
definition MAP_PRIVATE :: int where "MAP_PRIVATE = 5"
definition MAP_FAILED :: uint64 where "MAP_FAILED = - 1"

datatype ftype = FD_NONE | FD_PIPE | FD_INODE | FD_DEVICE

record kfile =
  ftype :: ftype
  fref :: int
  readable :: bool
  writable :: bool
  fpipe :: nat
  fip :: nat
  foff :: uint32
  fmajor :: short

record vma =
  used :: bool
  mfile :: nat
  vfd :: int
  vip :: nat
  vaddr :: uint64
  vprot :: int
  vflags :: int
  vsize :: int
  vfilesize :: int
  voffset :: int

datatype procstate = UNUSED | USED | SLEEPING | RUNNABLE | RUNNING | ZOMBIE

record kcontext =
  ctx_ra :: uint64
  ctx_sp :: uint64
  ctx_s :: "nat \<Rightarrow> uint64"

record proc =
  pstate :: procstate
  pchan :: "chan option"
  pkilled :: bool
  xstate :: int
  pid :: int
  nmp :: uint64
  pvmas :: "nat \<Rightarrow> nat"
  ptext :: vma
  pdatav :: vma
  page_faults :: int
  parent :: nat
  tickets :: int
  pticks :: int
  kstack :: uint64
  psz :: uint64
  pagetable :: nat
  trapframe :: nat
  pcontext :: kcontext
  ofile :: "nat \<Rightarrow> nat"
  cwd :: nat
  pname :: "byte list"

record kstate = fstate +
  files :: "nat \<Rightarrow> kfile"
  pipes :: "nat \<Rightarrow> pipe"
  procs :: "nat \<Rightarrow> proc"
  vmas :: "nat \<Rightarrow> vma"
  nextpid :: int
  initproc :: nat
  kticks :: uint32
  trampoline_pa :: nat              \<comment> \<open>where the linker placed \<^verbatim>\<open>trampoline\<close>\<close>
  forkret_addr :: uint64            \<comment> \<open>\<^verbatim>\<open>(uint64)forkret\<close>\<close>
  fs_first :: bool                  \<comment> \<open>\<^verbatim>\<open>first\<close> of \<^verbatim>\<open>forkret\<close>\<close>
  cons :: console

definition upd_file :: "nat \<Rightarrow> (kfile \<Rightarrow> kfile) \<Rightarrow> 'a kstate_scheme \<Rightarrow> 'a kstate_scheme" where
  "upd_file f g s = s\<lparr>files := (files s)(f := g (files s f))\<rparr>"

definition upd_proc :: "nat \<Rightarrow> (proc \<Rightarrow> proc) \<Rightarrow> 'a kstate_scheme \<Rightarrow> 'a kstate_scheme" where
  "upd_proc p g s = s\<lparr>procs := (procs s)(p := g (procs s p))\<rparr>"

definition upd_vma :: "nat \<Rightarrow> (vma \<Rightarrow> vma) \<Rightarrow> 'a kstate_scheme \<Rightarrow> 'a kstate_scheme" where
  "upd_vma v g s = s\<lparr>vmas := (vmas s)(v := g (vmas s v))\<rparr>"

section \<open>Trap frame fields\<close>

definition TF_kernel_satp :: nat where "TF_kernel_satp = 0"
definition TF_kernel_sp :: nat where "TF_kernel_sp = 8"
definition TF_kernel_trap :: nat where "TF_kernel_trap = 16"
definition TF_epc :: nat where "TF_epc = 24"
definition TF_kernel_hartid :: nat where "TF_kernel_hartid = 32"
definition TF_sp :: nat where "TF_sp = 48"

text \<open>\<^verbatim>\<open>a0\<close> to \<^verbatim>\<open>a7\<close>.\<close>

definition TF_a :: "nat \<Rightarrow> nat" where "TF_a i = 112 + 8 * i"

definition sizeof_trapframe :: nat where "sizeof_trapframe = 288"

definition tf_get :: "nat \<Rightarrow> nat \<Rightarrow> 'a kstate_scheme \<Rightarrow> uint64" where
  "tf_get p fld s = rd64 (pmem s) (trapframe (procs s p) + fld)"

definition tf_set :: "nat \<Rightarrow> nat \<Rightarrow> uint64 \<Rightarrow> 'a kstate_scheme \<Rightarrow> 'a kstate_scheme" where
  "tf_set p fld v s = s\<lparr>pmem := wr64 (pmem s) (trapframe (procs s p) + fld) v\<rparr>"

section \<open>Killing and waking\<close>

definition setkilled :: "nat \<Rightarrow> 'a kstate_scheme \<Rightarrow> 'a kstate_scheme" where
  "setkilled p s = upd_proc p (\<lambda>x. x\<lparr>pkilled := True\<rparr>) s"

definition killed :: "nat \<Rightarrow> 'a kstate_scheme \<Rightarrow> bool" where
  "killed p s = pkilled (procs s p)"

definition kill :: "int \<Rightarrow> 'a kstate_scheme \<Rightarrow> int \<times> 'a kstate_scheme" where
  "kill victim s =
     (case find (\<lambda>p. pid (procs s p) = victim) [1..<NPROC + 1] of
        None \<Rightarrow> (-1, s)
      | Some p \<Rightarrow>
          (0, upd_proc p (\<lambda>x. x\<lparr>pkilled := True, pstate := (if pstate x = SLEEPING then RUNNABLE else pstate x)\<rparr>) s))"

definition wake_one :: "chan \<Rightarrow> nat \<Rightarrow> nat \<Rightarrow> 'a kstate_scheme \<Rightarrow> 'a kstate_scheme" where
  "wake_one ch me p s =
     (if p \<noteq> me \<and> pstate (procs s p) = SLEEPING \<and> pchan (procs s p) = Some ch
      then upd_proc p (\<lambda>x. x\<lparr>pstate := RUNNABLE\<rparr>) s else s)"

definition wakeup :: "chan \<Rightarrow> nat \<Rightarrow> 'a kstate_scheme \<Rightarrow> 'a kstate_scheme" where
  "wakeup ch me s = fold (wake_one ch me) [1..<NPROC + 1] s"

text \<open>The components below this one record the channels they wake in \<^term>\<open>woken\<close>; here those wakeups reach
  the process table.\<close>

definition deliver :: "nat \<Rightarrow> 'a kstate_scheme \<Rightarrow> 'a kstate_scheme" where
  "deliver me s = (fold (\<lambda>ch. wakeup ch me) (rev (woken s)) s)\<lparr>woken := []\<rparr>"

section \<open>Demand paging\<close>

definition in_vma :: "uint64 \<Rightarrow> vma \<Rightarrow> bool" where
  "in_vma addr v \<longleftrightarrow> addr \<ge> vaddr v \<and> addr < vaddr v + of_int (vsize v)"

text \<open>A copy to a kernel address.\<close>

definition kernel_sink :: "(nat, 'a kstate_scheme) sink" where
  "kernel_sink bs dst s = Inr (0, dst + length bs, s\<lparr>pmem := wrbytes (pmem s) dst bs\<rparr>)"

definition fault_size :: "vma \<Rightarrow> uint64 \<Rightarrow> uint32" where
  "fault_size v addr =
     (if PGROUNDDOWN (vaddr v + of_int (vfilesize v)) = PGROUNDDOWN addr
      then ucast (of_int (vfilesize v) - PGROUNDDOWN (addr - vaddr v))
      else of_nat PGSIZE)"

definition allocPhysicalVMA :: "vma \<Rightarrow> nat \<Rightarrow> uint64 \<Rightarrow> uint64 \<Rightarrow> 'a kstate_scheme \<Rightarrow> 'a kstate_scheme res" where
  "allocPhysicalVMA v p addr prot s =
     (let me = pid (procs s p);
          (phy, s) = kalloc s;
          s = (if phy = 0 then setkilled p s else s)
      in
      bindR (zero_page phy s) (\<lambda>s.
      bindR (ilock me (vip v) s) (\<lambda>s.
      bindR (if PGROUNDDOWN (vaddr v + of_int (vfilesize v)) \<ge> PGROUNDDOWN addr
             then bindR (readi kernel_sink me (vip v) phy
                          (ucast (PGROUNDDOWN (addr - vaddr v) + of_int (voffset v))) (fault_size v addr) s)
                    (\<lambda>(r, _, s). Inr (if r < 0 then setkilled p s else s))
             else Inr s) (\<lambda>s.
      let s = upd_proc p (\<lambda>x. x\<lparr>page_faults := page_faults x + 1\<rparr>) s in
      bindR (iunlock me (vip v) s) (\<lambda>s.
      bindR (mappages (pagetable (procs s p)) (PGROUNDDOWN addr) pgsz phy prot s) (\<lambda>(r, s).
      if r < 0 then bindR (kfree s phy) (\<lambda>s. Inr (setkilled p s)) else Inr s))))))"

definition prot_pte :: "int \<Rightarrow> uint64" where
  "prot_pte prot =
     (if prot = PROT_READ then PTE_R
      else if prot = PROT_WRITE then PTE_W
      else if prot = PROT_RW then PTE_R OR PTE_W
      else 0)"

text \<open>The first mapped area of the process that holds the address.\<close>

definition find_vma :: "nat \<Rightarrow> uint64 \<Rightarrow> 'a kstate_scheme \<Rightarrow> nat option" where
  "find_vma p addr s =
     find (\<lambda>i. pvmas (procs s p) i \<noteq> 0 \<and> in_vma addr (vmas s (pvmas (procs s p) i))) [0..<PER_PROCESS_VMAS]"

text \<open>A write to a page that is shared (copy it) or no longer shared (make it writable).\<close>

definition cow_fault :: "nat \<Rightarrow> uint64 \<Rightarrow> nat \<Rightarrow> 'a kstate_scheme \<Rightarrow> 'a kstate_scheme res" where
  "cow_fault p addr phy s =
     (let ref = sint (getref s phy) in
      if ref > 1
      then let (new_phy, s) = kalloc s;
               s = (if new_phy = 0 then setkilled p s else s)
           in
           bindR (copy_page new_phy phy s) (\<lambda>s.
           bindR (walk (pagetable (procs s p)) addr False s) (\<lambda>(pte, s).
           let s = set_pte pte (get_pte s pte AND NOT PTE_V) s in
           bindR (mappages (pagetable (procs s p)) (PGROUNDDOWN addr) pgsz new_phy (PTE_FLAGS (get_pte s pte) OR PTE_W) s) (\<lambda>(r, s).
           bindR (if r < 0 then bindR (kfree s new_phy) (\<lambda>s. Inr (setkilled p s)) else Inr s) (\<lambda>s.
           decref s phy))))
      else if ref = 1
      then bindR (walk (pagetable (procs s p)) addr False s) (\<lambda>(pte, s).
           Inr (set_pte pte (get_pte s pte OR PTE_W) s))
      else Inr s)"

definition check_vmas :: "nat \<Rightarrow> uint64 \<Rightarrow> 'a kstate_scheme \<Rightarrow> (int \<times> 'a kstate_scheme) res" where
  "check_vmas p addr s =
     (if in_vma addr (ptext (procs s p))
      then bindR (allocPhysicalVMA (ptext (procs s p)) p addr (PTE_R OR PTE_X OR PTE_U) s) (\<lambda>s. Inr (0, s))
      else if in_vma addr (pdatav (procs s p))
      then bindR (allocPhysicalVMA (pdatav (procs s p)) p addr (PTE_R OR PTE_W OR PTE_U) s) (\<lambda>s. Inr (0, s))
      else let phy = walkaddr (pagetable (procs s p)) addr s in
        case find_vma p addr s of
          None \<Rightarrow> Inr (-1, s)
        | Some i \<Rightarrow>
            if phy \<noteq> 0 then bindR (cow_fault p addr phy s) (\<lambda>s. Inr (0, s))
            else let v = vmas s (pvmas (procs s p) i) in
              bindR (allocPhysicalVMA v p addr (prot_pte (vprot v) OR PTE_U) s) (\<lambda>s. Inr (0, s)))"

section \<open>Copying between kernel and user\<close>

text \<open>The translation step that the three copy routines share: \<open>None\<close> if the address is not the
  process's.\<close>

definition user_page :: "nat \<Rightarrow> nat \<Rightarrow> uint64 \<Rightarrow> 'a kstate_scheme \<Rightarrow> (nat option \<times> 'a kstate_scheme) res" where
  "user_page p pt va0 s =
     (let pa0 = walkaddr pt va0 s in
      if pa0 = 0
      then bindR (check_vmas p va0 s) (\<lambda>(r, s).
             if r = -1 then Inr (None, s)
             else let pa0 = walkaddr pt va0 s in
               if pa0 = 0 then Inl (Panic ''kerneltrap'') else Inr (Some pa0, s))
      else Inr (Some pa0, s))"

definition page_off :: "uint64 \<Rightarrow> nat" where
  "page_off va = unat (va - PGROUNDDOWN va)"

lemma page_off: "page_off va = unat va mod PGSIZE"
proof -
  have "PGROUNDDOWN va \<le> va" unfolding word_le_nat_alt unat_PGROUNDDOWN by (simp add: mult.commute)
  then have "page_off va = unat va - PGSIZE * (unat va div PGSIZE)"
    by (simp add: page_off_def unat_sub unat_PGROUNDDOWN)
  then show ?thesis by (simp add: minus_mult_div_eq_mod)
qed

lemma page_off_less [simp]: "page_off va < PGSIZE"
  by (simp add: page_off PGSIZE_def)

function copyout :: "nat \<Rightarrow> nat \<Rightarrow> uint64 \<Rightarrow> byte list \<Rightarrow> 'a kstate_scheme \<Rightarrow> (int \<times> 'a kstate_scheme) res" where
  "copyout p pt dstva src s =
     (if src = [] then Inr (0, s)
      else bindR (user_page p pt (PGROUNDDOWN dstva) s) (\<lambda>(pa, s).
        case pa of
          None \<Rightarrow> Inr (-1, s)
        | Some pa0 \<Rightarrow>
            let n = min (PGSIZE - page_off dstva) (length src) in
            copyout p pt (PGROUNDDOWN dstva + pgsz) (drop n src)
              (s\<lparr>pmem := wrbytes (pmem s) (pa0 + page_off dstva) (take n src)\<rparr>)))"
  by pat_completeness auto
termination
  by (relation "measure (\<lambda>(p, pt, dstva, src, s). length src)") (auto simp: Suc_le_eq)

declare copyout.simps [simp del]

text \<open>The bytes fetched are collected in \<open>acc\<close>; they are also returned when a later page is missing.\<close>

function copyin :: "nat \<Rightarrow> nat \<Rightarrow> uint64 \<Rightarrow> nat \<Rightarrow> byte list \<Rightarrow> 'a kstate_scheme \<Rightarrow> (int \<times> byte list \<times> 'a kstate_scheme) res" where
  "copyin p pt srcva len acc s =
     (if len = 0 then Inr (0, acc, s)
      else bindR (user_page p pt (PGROUNDDOWN srcva) s) (\<lambda>(pa, s).
        case pa of
          None \<Rightarrow> Inr (-1, acc, s)
        | Some pa0 \<Rightarrow>
            let n = min (PGSIZE - page_off srcva) len in
            copyin p pt (PGROUNDDOWN srcva + pgsz) (len - n)
              (acc @ rdbytes (pmem s) (pa0 + page_off srcva) n) s))"
  by pat_completeness auto
termination
  by (relation "measure (\<lambda>(p, pt, srcva, len, acc, s). len)") (auto simp: Suc_le_eq)

declare copyin.simps [simp del]

text \<open>The string fetched, without its terminating zero.\<close>

function copyinstr :: "nat \<Rightarrow> nat \<Rightarrow> uint64 \<Rightarrow> nat \<Rightarrow> byte list \<Rightarrow> 'a kstate_scheme \<Rightarrow> (int \<times> byte list \<times> 'a kstate_scheme) res" where
  "copyinstr p pt srcva mx acc s =
     (if mx = 0 then Inr (-1, acc, s)
      else bindR (user_page p pt (PGROUNDDOWN srcva) s) (\<lambda>(pa, s).
        case pa of
          None \<Rightarrow> Inr (-1, acc, s)
        | Some pa0 \<Rightarrow>
            let n = min (PGSIZE - page_off srcva) mx;
                bs = rdbytes (pmem s) (pa0 + page_off srcva) n
            in if 0 \<in> set bs then Inr (0, acc @ takeWhile (\<lambda>b. b \<noteq> 0) bs, s)
               else copyinstr p pt (PGROUNDDOWN srcva + pgsz) (mx - n) (acc @ bs) s))"
  by pat_completeness auto
termination
  by (relation "measure (\<lambda>(p, pt, srcva, mx, acc, s). mx)") (auto simp: Suc_le_eq)

declare copyinstr.simps [simp del]

definition either_copyout :: "nat \<Rightarrow> bool \<Rightarrow> uint64 \<Rightarrow> byte list \<Rightarrow> 'a kstate_scheme \<Rightarrow> (int \<times> 'a kstate_scheme) res" where
  "either_copyout p user_dst dst src s =
     (if user_dst then copyout p (pagetable (procs s p)) dst src s
      else Inr (0, s\<lparr>pmem := wrbytes (pmem s) (unat dst) src\<rparr>))"

definition either_copyin :: "nat \<Rightarrow> bool \<Rightarrow> uint64 \<Rightarrow> nat \<Rightarrow> 'a kstate_scheme \<Rightarrow> (int \<times> byte list \<times> 'a kstate_scheme) res" where
  "either_copyin p user_src src len s =
     (if user_src then copyin p (pagetable (procs s p)) src len [] s
      else Inr (0, rdbytes (pmem s) (unat src) len, s))"

text \<open>The two as the sink and the source of \<^verbatim>\<open>readi\<close> and \<^verbatim>\<open>writei\<close>.\<close>

definition user_sink :: "nat \<Rightarrow> (uint64, 'a kstate_scheme) sink" where
  "user_sink p bs dst s = bindR (either_copyout p True dst bs s) (\<lambda>(r, s). Inr (r, dst + of_nat (length bs), s))"

definition user_source :: "nat \<Rightarrow> (uint64, 'a kstate_scheme) source" where
  "user_source p n src s = bindR (either_copyin p True src n s) (\<lambda>(r, bs, s). Inr (r, bs, src + of_nat n, s))"

end
