(* ===== verification/Xv6_File.thy ===== *)
theory Xv6_File
  imports Xv6_Kstate
begin

text \<open>
  Open files, \<^verbatim>\<open>kernel/file.c\<close>, and the part of \<^verbatim>\<open>kernel/pipe.c\<close> that allocates pipes. Reads and writes
  of pipes and of the console can block half way; they return \<open>PSleep i\<close> with the state reached and
  are called again with that index. What the hardware answers during a call is the argument \<open>env\<close>.
\<close>

record env =
  lsr :: "int \<Rightarrow> bool list"          \<comment> \<open>answers of the UART status register\<close>
  pad :: "byte list"                 \<comment> \<open>what the padding of a \<^verbatim>\<open>struct stat\<close> on the stack holds\<close>

section \<open>The file table\<close>

definition filealloc :: "'a kstate_scheme \<Rightarrow> nat \<times> 'a kstate_scheme" where
  "filealloc s =
     (case find (\<lambda>f. fref (files s f) = 0) [1..<NFILE + 1] of
        Some f \<Rightarrow> (f, upd_file f (\<lambda>x. x\<lparr>fref := 1\<rparr>) s)
      | None \<Rightarrow> (0, s))"

definition filedup :: "nat \<Rightarrow> 'a kstate_scheme \<Rightarrow> (nat \<times> 'a kstate_scheme) res" where
  "filedup f s =
     (if fref (files s f) < 1 then Inl (Panic ''filedup'')
      else Inr (f, upd_file f (\<lambda>x. x\<lparr>fref := fref x + 1\<rparr>) s))"

definition close_pipe :: "nat \<Rightarrow> nat \<Rightarrow> bool \<Rightarrow> 'a kstate_scheme \<Rightarrow> 'a kstate_scheme res" where
  "close_pipe p pi wr s =
     (let (pp, ch, fr) = pipeclose pi wr (pipes s pi);
          s = wakeup ch p (s\<lparr>pipes := (pipes s)(pi := pp)\<rparr>)
      in if fr then kfree s pi else Inr s)"

definition fileclose :: "nat \<Rightarrow> nat \<Rightarrow> 'a kstate_scheme \<Rightarrow> 'a kstate_scheme res" where
  "fileclose p f s =
     (if fref (files s f) < 1 then Inl (Panic ''fileclose'')
      else let s = upd_file f (\<lambda>x. x\<lparr>fref := fref x - 1\<rparr>) s in
        if fref (files s f) > 0 then Inr s
        else let ff = files s f;
                 s = upd_file f (\<lambda>x. x\<lparr>fref := 0, ftype := FD_NONE\<rparr>) s;
                 me = pid (procs s p)
             in
          if ftype ff = FD_PIPE then close_pipe p (fpipe ff) (writable ff) s
          else if ftype ff = FD_INODE \<or> ftype ff = FD_DEVICE
          then bindR (begin_op s) (\<lambda>s. bindR (iput me (fip ff) s) (end_op me))
          else Inr s)"

definition stat_bytes :: "byte list \<Rightarrow> stat \<Rightarrow> byte list" where
  "stat_bytes pd st =
     enc_le 4 (st_dev st) @ enc_le 4 (st_ino st) @ enc_le 2 (unat (st_type st)) @ enc_le 2 (unat (st_nlink st)) @
     take 4 pd @ enc_le 8 (unat (st_size st))"

definition filestat :: "env \<Rightarrow> nat \<Rightarrow> nat \<Rightarrow> uint64 \<Rightarrow> 'a kstate_scheme \<Rightarrow> (int \<times> 'a kstate_scheme) res" where
  "filestat env p f addr s =
     (if ftype (files s f) = FD_INODE \<or> ftype (files s f) = FD_DEVICE
      then let me = pid (procs s p); ip = fip (files s f) in
        bindR (ilock me ip s) (\<lambda>s.
        let st = stati ip s in
        bindR (iunlock me ip s) (\<lambda>s.
        bindR (copyout p (pagetable (procs s p)) addr (stat_bytes (pad env) st) s) (\<lambda>(r, s).
        Inr (if r < 0 then -1 else 0, s))))
      else Inr (-1, s))"

section \<open>Pipes and the console behind files\<close>

text \<open>One byte to or from the calling process, as the pipe and console loops want it.\<close>

definition fetch_byte :: "nat \<Rightarrow> uint64 \<Rightarrow> ('a kstate_scheme) res \<Rightarrow> byte option \<times> ('a kstate_scheme) res" where
  "fetch_byte p a u =
     (case u of
        Inl e \<Rightarrow> (None, Inl e)
      | Inr s \<Rightarrow>
          (case either_copyin p True a 1 s of
             Inl e \<Rightarrow> (None, Inl e)
           | Inr (r, bs, s) \<Rightarrow> (if r = -1 then None else Some (hd bs), Inr s)))"

definition store_byte :: "nat \<Rightarrow> uint64 \<Rightarrow> byte \<Rightarrow> ('a kstate_scheme) res \<Rightarrow> bool \<times> ('a kstate_scheme) res" where
  "store_byte p a b u =
     (case u of
        Inl e \<Rightarrow> (False, Inl e)
      | Inr s \<Rightarrow>
          (case either_copyout p True a [b] s of
             Inl e \<Rightarrow> (False, Inl e)
           | Inr (r, s) \<Rightarrow> (r \<noteq> -1, Inr s)))"

definition wake_all :: "nat \<Rightarrow> chan list \<Rightarrow> 'a kstate_scheme \<Rightarrow> 'a kstate_scheme" where
  "wake_all p chs s = fold (\<lambda>ch. wakeup ch p) chs s"

definition kpipewrite :: "nat \<Rightarrow> nat \<Rightarrow> uint64 \<Rightarrow> int \<Rightarrow> int \<Rightarrow> 'a kstate_scheme \<Rightarrow> (pipe_out \<times> 'a kstate_scheme) res" where
  "kpipewrite p pi addr n i s =
     (let (r, pp, u, wk) = pipewrite_loop pi (\<lambda>_. killed p s) (fetch_byte p) addr n i (pipes s pi) (Inr s) in
      bindR u (\<lambda>s. Inr (r, wake_all p wk (s\<lparr>pipes := (pipes s)(pi := pp)\<rparr>))))"

definition kpiperead :: "nat \<Rightarrow> nat \<Rightarrow> uint64 \<Rightarrow> int \<Rightarrow> 'a kstate_scheme \<Rightarrow> (pipe_out \<times> 'a kstate_scheme) res" where
  "kpiperead p pi addr n s =
     (let (r, pp, u, wk) = piperead pi (killed p s) (store_byte p) addr n (pipes s pi) (Inr s) in
      bindR u (\<lambda>s. Inr (r, wake_all p wk (s\<lparr>pipes := (pipes s)(pi := pp)\<rparr>))))"

text \<open>\<open>i\<close> bytes of the read were delivered before the last sleep.\<close>

definition kconsoleread :: "nat \<Rightarrow> uint64 \<Rightarrow> int \<Rightarrow> int \<Rightarrow> 'a kstate_scheme \<Rightarrow> (pipe_out \<times> 'a kstate_scheme) res" where
  "kconsoleread p dst n i s =
     (let (r, c, u) = consoleread_loop (killed p s) (store_byte p) n (dst + of_int i) (n - i) (cons s) (Inr s) in
      bindR u (\<lambda>s. Inr (r, s\<lparr>cons := c\<rparr>)))"

definition kconsolewrite :: "env \<Rightarrow> nat \<Rightarrow> uint64 \<Rightarrow> int \<Rightarrow> int \<Rightarrow> 'a kstate_scheme \<Rightarrow> (pipe_out \<times> 'a kstate_scheme) res" where
  "kconsolewrite env p src n i s =
     bindR (consolewrite_loop (lsr env) (fetch_byte p) src n i (cons s) (Inr s)) (\<lambda>(r, c, u, wk).
     bindR u (\<lambda>s. Inr (r, wake_all p wk (s\<lparr>cons := c\<rparr>))))"

section \<open>Reading and writing\<close>

definition fileread :: "nat \<Rightarrow> nat \<Rightarrow> uint64 \<Rightarrow> int \<Rightarrow> int \<Rightarrow> 'a kstate_scheme \<Rightarrow> (pipe_out \<times> 'a kstate_scheme) res" where
  "fileread p f addr n i s =
     (if \<not> readable (files s f) then Inr (PRet (-1), s)
      else case ftype (files s f) of
        FD_PIPE \<Rightarrow> kpiperead p (fpipe (files s f)) addr n s
      | FD_DEVICE \<Rightarrow>
          (let major = sint (fmajor (files s f)) in
           if major < 0 \<or> major \<ge> int NDEV \<or> major \<noteq> CONSOLE then Inr (PRet (-1), s)
           else kconsoleread p addr n i s)
      | FD_INODE \<Rightarrow>
          (let me = pid (procs s p); ip = fip (files s f) in
           bindR (ilock me ip s) (\<lambda>s.
           bindR (readi (user_sink p) me ip addr (foff (files s f)) (of_int n) s) (\<lambda>(r, _, s).
           let s = (if r > 0 then upd_file f (\<lambda>x. x\<lparr>foff := foff x + of_int r\<rparr>) s else s) in
           bindR (iunlock me ip s) (\<lambda>s. Inr (PRet r, s)))))
      | FD_NONE \<Rightarrow> Inl (Panic ''fileread''))"

definition write_max :: int where
  "write_max = ((int MAXOPBLOCKS - 1 - 1 - 2) div 2) * int BSIZE"

text \<open>The loop gives the final value of \<^verbatim>\<open>i\<close>.\<close>

function filewrite_loop :: "nat \<Rightarrow> nat \<Rightarrow> uint64 \<Rightarrow> int \<Rightarrow> int \<Rightarrow> 'a kstate_scheme \<Rightarrow> (int \<times> 'a kstate_scheme) res" where
  "filewrite_loop p f addr n i s =
     (if i < n
      then let n1 = min (n - i) write_max; me = pid (procs s p); ip = fip (files s f) in
        bindR (begin_op s) (\<lambda>s.
        bindR (ilock me ip s) (\<lambda>s.
        bindR (writei (user_source p) me ip (addr + of_int i) (foff (files s f)) (of_int n1) s) (\<lambda>(r, _, s).
        let s = (if r > 0 then upd_file f (\<lambda>x. x\<lparr>foff := foff x + of_int r\<rparr>) s else s) in
        bindR (iunlock me ip s) (\<lambda>s.
        bindR (end_op me s) (\<lambda>s.
        if r \<noteq> n1 then Inr (i, s) else filewrite_loop p f addr n (i + n1) s)))))
      else Inr (i, s))"
  by pat_completeness auto
termination
  by (relation "measure (\<lambda>(p, f, addr, n, i, s). nat (n - i))")
    (auto simp: write_max_def MAXOPBLOCKS_def BSIZE_def)

declare filewrite_loop.simps [simp del]

definition filewrite :: "env \<Rightarrow> nat \<Rightarrow> nat \<Rightarrow> uint64 \<Rightarrow> int \<Rightarrow> int \<Rightarrow> 'a kstate_scheme \<Rightarrow> (pipe_out \<times> 'a kstate_scheme) res" where
  "filewrite env p f addr n i s =
     (if \<not> writable (files s f) then Inr (PRet (-1), s)
      else case ftype (files s f) of
        FD_PIPE \<Rightarrow> kpipewrite p (fpipe (files s f)) addr n i s
      | FD_DEVICE \<Rightarrow>
          (let major = sint (fmajor (files s f)) in
           if major < 0 \<or> major \<ge> int NDEV \<or> major \<noteq> CONSOLE then Inr (PRet (-1), s)
           else kconsolewrite env p addr n i s)
      | FD_INODE \<Rightarrow>
          bindR (filewrite_loop p f addr n 0 s) (\<lambda>(i, s). Inr (PRet (if i = n then n else -1), s))
      | FD_NONE \<Rightarrow> Inl (Panic ''filewrite''))"

section \<open>Allocating a pipe\<close>

definition close_if :: "nat \<Rightarrow> nat \<Rightarrow> 'a kstate_scheme \<Rightarrow> 'a kstate_scheme res" where
  "close_if p f s = (if f \<noteq> 0 then fileclose p f s else Inr s)"

text \<open>The result, the two files and the state. A page that was just allocated is filled with the byte 5.\<close>

definition pipealloc :: "nat \<Rightarrow> 'a kstate_scheme \<Rightarrow> (int \<times> nat \<times> nat \<times> 'a kstate_scheme) res" where
  "pipealloc p s =
     (let (f0, s) = filealloc s;
          (f1, s) = (if f0 = 0 then (0, s) else filealloc s);
          (pi, s) = (if f0 = 0 \<or> f1 = 0 then (0, s) else kalloc s)
      in
      if pi = 0
      then bindR (close_if p f0 s) (\<lambda>s. bindR (close_if p f1 s) (\<lambda>s. Inr (-1, f0, f1, s)))
      else let s = s\<lparr>pipes := (pipes s)(pi := pipe_init (\<lambda>_. 5))\<rparr>;
               s = upd_file f0 (\<lambda>x. x\<lparr>ftype := FD_PIPE, readable := True, writable := False, fpipe := pi\<rparr>) s;
               s = upd_file f1 (\<lambda>x. x\<lparr>ftype := FD_PIPE, readable := False, writable := True, fpipe := pi\<rparr>) s
           in Inr (0, f0, f1, s))"

end
