(* ===== verification/Xv6_Proc.thy ===== *)
theory Xv6_Proc
  imports Xv6_File
begin

text \<open>
  Processes, \<^verbatim>\<open>kernel/proc.c\<close>: creation, address space, mapped areas, fork, exit, wait and the listing
  routines. The lottery scheduler is in Xv6_Sched. The locks of the process table are held across each
  routine, so that a routine is one step; \<^verbatim>\<open>wait\<close> returns \<open>PSleep\<close> when the caller goes to sleep.
\<close>

section \<open>Creating and destroying processes\<close>

definition procinit :: "'a kstate_scheme \<Rightarrow> 'a kstate_scheme" where
  "procinit s =
     (let s = fold (\<lambda>p. upd_proc p (\<lambda>x. x\<lparr>pstate := UNUSED, kstack := KSTACK (p - 1)\<rparr>)) [1..<NPROC + 1] s
      in fold (\<lambda>v. upd_vma v (\<lambda>x. x\<lparr>used := False\<rparr>)) [1..<NVMAS + 1] s)"

definition allocpid :: "'a kstate_scheme \<Rightarrow> int \<times> 'a kstate_scheme" where
  "allocpid s = (nextpid s, s\<lparr>nextpid := nextpid s + 1\<rparr>)"

definition proc_freepagetable :: "nat \<Rightarrow> uint64 \<Rightarrow> 'a kstate_scheme \<Rightarrow> 'a kstate_scheme res" where
  "proc_freepagetable pt sz s =
     bindR (uvmunmap pt TRAMPOLINE 1 False s) (\<lambda>s.
     bindR (uvmunmap pt TRAPFRAME 1 False s) (\<lambda>s.
     uvmfree pt sz s))"

definition proc_pagetable :: "nat \<Rightarrow> 'a kstate_scheme \<Rightarrow> (nat \<times> 'a kstate_scheme) res" where
  "proc_pagetable p s =
     (let (pt, s) = uvmcreate s in
      if pt = 0 then Inr (0, s)
      else bindR (mappages pt TRAMPOLINE pgsz (trampoline_pa s) (PTE_R OR PTE_X) s) (\<lambda>(r, s).
        if r < 0 then bindR (uvmfree pt 0 s) (\<lambda>s. Inr (0, s))
        else bindR (mappages pt TRAPFRAME pgsz (trapframe (procs s p)) (PTE_R OR PTE_W) s) (\<lambda>(r, s).
          if r < 0
          then bindR (uvmunmap pt TRAMPOLINE 1 False s) (\<lambda>s. bindR (uvmfree pt 0 s) (\<lambda>s. Inr (0, s)))
          else Inr (pt, s))))"

definition freeproc :: "nat \<Rightarrow> 'a kstate_scheme \<Rightarrow> 'a kstate_scheme res" where
  "freeproc p s =
     bindR (if trapframe (procs s p) \<noteq> 0 then kfree s (trapframe (procs s p)) else Inr s) (\<lambda>s.
     let s = upd_proc p (\<lambda>x. x\<lparr>trapframe := 0\<rparr>) s in
     bindR (if pagetable (procs s p) \<noteq> 0 then proc_freepagetable (pagetable (procs s p)) (psz (procs s p)) s else Inr s) (\<lambda>s.
     Inr (upd_proc p (\<lambda>x. x\<lparr>pagetable := 0, psz := 0, pid := 0, parent := 0, pname := (pname x)[0 := 0], pchan := None,
       pkilled := False, xstate := 0, pstate := UNUSED\<rparr>) s)))"

definition allocproc :: "'a kstate_scheme \<Rightarrow> (nat \<times> 'a kstate_scheme) res" where
  "allocproc s =
     (case find (\<lambda>p. pstate (procs s p) = UNUSED) [1..<NPROC + 1] of
        None \<Rightarrow> Inr (0, s)
      | Some p \<Rightarrow>
          let (new, s) = allocpid s;
              s = upd_proc p (\<lambda>x. x\<lparr>pid := new, pstate := USED, nmp := TRAPFRAME, page_faults := 0\<rparr>) s;
              (tf, s) = kalloc s;
              s = upd_proc p (\<lambda>x. x\<lparr>trapframe := tf\<rparr>) s
          in
          if tf = 0 then bindR (freeproc p s) (\<lambda>s. Inr (0, s))
          else bindR (proc_pagetable p s) (\<lambda>(pt, s).
            let s = upd_proc p (\<lambda>x. x\<lparr>pagetable := pt\<rparr>) s in
            if pt = 0 then bindR (freeproc p s) (\<lambda>s. Inr (0, s))
            else Inr (p, upd_proc p (\<lambda>x. x\<lparr>pcontext :=
                   \<lparr>ctx_ra = forkret_addr s, ctx_sp = kstack x + pgsz, ctx_s = (\<lambda>_. 0)\<rparr>\<rparr>) s)))"

definition initcode :: "byte list" where
  "initcode =
     [0x17, 0x05, 0x00, 0x00, 0x13, 0x05, 0x45, 0x02,
      0x97, 0x05, 0x00, 0x00, 0x93, 0x85, 0x35, 0x02,
      0x93, 0x08, 0x70, 0x00, 0x73, 0x00, 0x00, 0x00,
      0x93, 0x08, 0x20, 0x00, 0x73, 0x00, 0x00, 0x00,
      0xef, 0xf0, 0x9f, 0xff, 0x2f, 0x69, 0x6e, 0x69,
      0x74, 0x00, 0x00, 0x24, 0x00, 0x00, 0x00, 0x00,
      0x00, 0x00, 0x00, 0x00]"

text \<open>\<^verbatim>\<open>safestrcpy(dst, src, sizeof(p->name))\<close> for a string without its terminator.\<close>

definition copy_name :: "byte list \<Rightarrow> byte list \<Rightarrow> byte list" where
  "copy_name old src = rdbytes (safestrcpy (wrbytes (wrbytes (\<lambda>_. 0) 0 old) 16 (src @ [0])) 0 16 16) 0 16"

definition userinit :: "'a kstate_scheme \<Rightarrow> 'a kstate_scheme res" where
  "userinit s =
     bindR (allocproc s) (\<lambda>(p, s).
     let s = s\<lparr>initproc := p\<rparr> in
     if p = 0 then Inl (Panic ''kerneltrap'')
     else bindR (uvmfirst (pagetable (procs s p)) initcode s) (\<lambda>s.
       let s = upd_proc p (\<lambda>x. x\<lparr>psz := pgsz\<rparr>) s;
           s = tf_set p TF_epc 0 s;
           s = tf_set p TF_sp pgsz s;
           s = upd_proc p (\<lambda>x. x\<lparr>pname := copy_name (pname x) [105, 110, 105, 116, 99, 111, 100, 101]\<rparr>) s
       in
       bindR (namei 0 0 [slash] s) (\<lambda>(ip, s).
       Inr (upd_proc p (\<lambda>x. x\<lparr>cwd := ip, tickets := 1, pstate := RUNNABLE\<rparr>) s))))"

definition growproc :: "nat \<Rightarrow> int \<Rightarrow> 'a kstate_scheme \<Rightarrow> (int \<times> 'a kstate_scheme) res" where
  "growproc p n s =
     (let sz = psz (procs s p); pt = pagetable (procs s p) in
      if n > 0
      then bindR (uvmalloc pt sz (sz + of_int n) PTE_W s) (\<lambda>(sz, s).
             if sz = 0 then Inr (-1, s) else Inr (0, upd_proc p (\<lambda>x. x\<lparr>psz := sz\<rparr>) s))
      else if n < 0
      then bindR (uvmdealloc pt sz (sz + of_int n) s) (\<lambda>(sz, s). Inr (0, upd_proc p (\<lambda>x. x\<lparr>psz := sz\<rparr>) s))
      else Inr (0, s))"

section \<open>Mapped areas\<close>

definition allocvmaelf :: "nat \<Rightarrow> int \<Rightarrow> int \<Rightarrow> nat \<Rightarrow> int \<Rightarrow> uint64 \<Rightarrow> bool \<Rightarrow> 'a kstate_scheme \<Rightarrow> 'a kstate_scheme" where
  "allocvmaelf p len filesz ip offset va text s =
     (let flags = (if text then 7 else PROT_RW);
          upd = (\<lambda>v. v\<lparr>used := True, vprot := MAP_PRIVATE, vflags := flags, vsize := len, vfilesize := filesz,
                       voffset := offset, vip := ip, vaddr := va\<rparr>)
      in upd_proc p (\<lambda>x. if text then x\<lparr>ptext := upd (ptext x)\<rparr> else x\<lparr>pdatav := upd (pdatav x)\<rparr>) s)"

definition free_vma :: "'a kstate_scheme \<Rightarrow> nat option" where
  "free_vma s = find (\<lambda>j. \<not> used (vmas s j)) [1..<NVMAS + 1]"

definition allocvma :: "nat \<Rightarrow> int \<Rightarrow> int \<Rightarrow> int \<Rightarrow> nat \<Rightarrow> int \<Rightarrow> int \<Rightarrow> 'a kstate_scheme \<Rightarrow> uint64 \<times> 'a kstate_scheme" where
  "allocvma p len prot flags f fd offset s =
     (case find (\<lambda>i. pvmas (procs s p) i = 0) [0..<PER_PROCESS_VMAS] of
        None \<Rightarrow> (MAP_FAILED, s)
      | Some i \<Rightarrow>
          (case free_vma s of
             None \<Rightarrow> (MAP_FAILED, s)
           | Some j \<Rightarrow>
               let s = upd_proc p (\<lambda>x. x\<lparr>pvmas := (pvmas x)(i := j)\<rparr>) s;
                   s = upd_vma j (\<lambda>v. v\<lparr>used := True, mfile := f, vprot := prot, vflags := flags, vsize := len,
                         vfilesize := len, voffset := offset, vfd := fd, vip := fip (files s f)\<rparr>) s;
                   s = upd_file f (\<lambda>x. x\<lparr>fref := fref x + 1\<rparr>) s;
                   s = upd_proc p (\<lambda>x. x\<lparr>nmp := nmp x - PGROUNDUP (of_int len)\<rparr>) s;
                   s = upd_vma j (\<lambda>v. v\<lparr>vaddr := nmp (procs s p)\<rparr>) s
               in (nmp (procs s p), s)))"

text \<open>The page offsets of \<^verbatim>\<open>for(k = 0; k < PGROUNDUP(size); k += PGSIZE)\<close>.\<close>

definition page_offsets :: "int \<Rightarrow> uint64 list" where
  "page_offsets sz = map (\<lambda>k. of_nat (k * PGSIZE)) [0..<unat (PGROUNDUP (of_int sz)) div PGSIZE]"

text \<open>The inner loop of \<^verbatim>\<open>deallocvma\<close> that writes one page back to the file. A turn that writes nothing is
  repeated by the code without end; the model gives up after \<open>fuel\<close> turns. A page has \<^verbatim>\<open>PGSIZE\<close> bytes,
  so that many turns are enough when every turn writes something.\<close>

fun write_back :: "nat \<Rightarrow> nat \<Rightarrow> nat \<Rightarrow> uint64 \<Rightarrow> int \<Rightarrow> int \<Rightarrow> int \<Rightarrow> 'a kstate_scheme \<Rightarrow> (int \<times> 'a kstate_scheme) res" where
  "write_back 0 p ip va off w n1 s = Inl Diverges"
| "write_back (Suc fuel) p ip va off w n1 s =
     (if w < int PGSIZE
      then bindR (writei (user_source p) (pid (procs s p)) ip (va + of_int w) (of_int (off + w)) (of_int n1) s) (\<lambda>(r, _, s).
             let w = w + r in write_back fuel p ip va off w (min (int PGSIZE - w) write_max) s)
      else Inr (w, s))"

lemma write_back_page: "write_back fuel p ip va off w n1 s = Inr (w', s') \<Longrightarrow> int PGSIZE \<le> w'"
  by (induction fuel p ip va off w n1 s rule: write_back.induct) (auto simp: res_simps Let_def split: if_splits)

definition drop_page :: "nat \<Rightarrow> uint64 \<Rightarrow> bool \<Rightarrow> 'a kstate_scheme \<Rightarrow> 'a kstate_scheme res" where
  "drop_page p va shared s =
     (let pt = pagetable (procs s p); phy = walkaddr pt va s in
      if sint (getref s phy) = 1 then uvmunmap pt va 1 True s
      else bindR (if shared then decref s phy else Inr s) (uvmunmap pt va 1 False))"

function unmap_shared :: "nat \<Rightarrow> nat \<Rightarrow> int \<Rightarrow> uint64 \<Rightarrow> int \<Rightarrow> int \<Rightarrow> 'a kstate_scheme \<Rightarrow> 'a kstate_scheme res" where
  "unmap_shared p ip off addr sz j s =
     (if j < sz
      then if walkaddr (pagetable (procs s p)) (addr + of_int j) s = 0
        then unmap_shared p ip off addr sz (j + int PGSIZE) s
        else let me = pid (procs s p) in
          bindR (begin_op s) (\<lambda>s.
          bindR (ilock me ip s) (\<lambda>s.
          bindR (write_back (PGSIZE + 1) p ip (addr + of_int j) (off + j) 0 (min (sz - j) write_max) s) (\<lambda>(w, s).
          bindR (drop_page p (addr + of_int j) True s) (\<lambda>s.
          bindR (iunlock me ip s) (\<lambda>s.
          bindR (end_op me s) (\<lambda>s.
          unmap_shared p ip off addr sz (j + w) s))))))
      else Inr s)"
  by pat_completeness auto
termination
  by (relation "measure (\<lambda>(p, ip, off, addr, sz, j, s). nat (sz - j))") (auto simp: PGSIZE_def dest!: write_back_page)

declare unmap_shared.simps [simp del]

definition unmap_private :: "nat \<Rightarrow> uint64 \<Rightarrow> int \<Rightarrow> 'a kstate_scheme \<Rightarrow> 'a kstate_scheme res" where
  "unmap_private p addr sz s =
     forR (\<lambda>j s. if walkaddr (pagetable (procs s p)) (addr + j) s \<noteq> 0 then drop_page p (addr + j) False s else Inr s)
       (page_offsets sz) s"

definition lowest_vma :: "nat \<Rightarrow> 'a kstate_scheme \<Rightarrow> uint64" where
  "lowest_vma p s =
     fold (\<lambda>v m. if pvmas (procs s p) v \<noteq> 0 \<and> vaddr (vmas s (pvmas (procs s p) v)) < m
                 then vaddr (vmas s (pvmas (procs s p) v)) else m) [0..<PER_PROCESS_VMAS] TRAPFRAME"

text \<open>How \<^verbatim>\<open>deallocvma\<close> shrinks the area: whether all of it goes, the area, and its new offset.\<close>

definition cut_vma :: "uint64 \<Rightarrow> int \<Rightarrow> vma \<Rightarrow> (bool \<times> vma \<times> int) option" where
  "cut_vma addr sz v =
     (if addr = vaddr v \<and> sz = vsize v then Some (True, v\<lparr>used := False\<rparr>, voffset v)
      else if addr = vaddr v \<and> sz < vsize v
      then Some (False, v\<lparr>vaddr := vaddr v + of_int sz, vsize := vsize v - sz\<rparr>, voffset v + sz)
      else if addr > vaddr v \<and> addr + of_int sz = vaddr v + of_int (vsize v)
      then Some (False, v\<lparr>vsize := vsize v - sz\<rparr>, voffset v)
      else None)"

definition drop_mfile :: "nat \<Rightarrow> nat \<Rightarrow> nat \<Rightarrow> 'a kstate_scheme \<Rightarrow> 'a kstate_scheme res" where
  "drop_mfile p i vi s =
     (let v = vmas s vi in
      bindR (if fref (files s (mfile v)) = 1
             then bindR (fileclose p (mfile v) s) (\<lambda>s. Inr (upd_proc p (\<lambda>x. x\<lparr>ofile := (ofile x)(nat (vfd v) := 0)\<rparr>) s))
             else Inr (upd_file (mfile v) (\<lambda>x. x\<lparr>fref := fref x - 1\<rparr>) s)) (\<lambda>s.
      Inr (upd_proc p (\<lambda>x. x\<lparr>pvmas := (pvmas x)(i := 0)\<rparr>) s)))"

definition deallocvma :: "nat \<Rightarrow> uint64 \<Rightarrow> int \<Rightarrow> 'a kstate_scheme \<Rightarrow> (int \<times> 'a kstate_scheme) res" where
  "deallocvma p addr sz s =
     (case find (\<lambda>i. pvmas (procs s p) i \<noteq> 0 \<and> used (vmas s (pvmas (procs s p) i)) \<and>
                     in_vma addr (vmas s (pvmas (procs s p) i))) [0..<PER_PROCESS_VMAS] of
        None \<Rightarrow> Inr (-1, s)
      | Some i \<Rightarrow>
          let vi = pvmas (procs s p) i in
          (case cut_vma addr sz (vmas s vi) of
             None \<Rightarrow> Inr (-1, s)
           | Some (complete, v, new_offset) \<Rightarrow>
               let s = upd_vma vi (\<lambda>_. v) s in
               bindR (if vflags v = MAP_SHARED then unmap_shared p (vip v) (voffset v) addr sz 0 s
                      else unmap_private p addr sz s) (\<lambda>s.
               let s = upd_vma vi (\<lambda>v. v\<lparr>voffset := new_offset\<rparr>) s in
               bindR (if complete then drop_mfile p i vi s else Inr s) (\<lambda>s.
               Inr (0, upd_proc p (\<lambda>x. x\<lparr>nmp := lowest_vma p s\<rparr>) s)))))"

text \<open>\<^verbatim>\<open>_deallocvma\<close> on the text or the data area of the process.\<close>

definition deallocvmaelf :: "nat \<Rightarrow> bool \<Rightarrow> 'a kstate_scheme \<Rightarrow> 'a kstate_scheme res" where
  "deallocvmaelf p text s =
     (let v = (if text then ptext (procs s p) else pdatav (procs s p)) in
      bindR (forR (\<lambda>j s. if walkaddr (pagetable (procs s p)) (vaddr v + j) s \<noteq> 0
                         then uvmunmap (pagetable (procs s p)) (vaddr v + j) 1 True s else Inr s)
             (page_offsets (vsize v)) s) (\<lambda>s.
      Inr (upd_proc p (\<lambda>x. if text then x\<lparr>ptext := (ptext x)\<lparr>used := False\<rparr>\<rparr> else x\<lparr>pdatav := (pdatav x)\<lparr>used := False\<rparr>\<rparr>) s)))"

section \<open>Fork\<close>

definition fork_prot :: "vma \<Rightarrow> uint64" where
  "fork_prot v =
     (if vprot v = PROT_READ then PTE_R
      else if vprot v = PROT_WRITE then (if vflags v \<noteq> MAP_PRIVATE then PTE_W else 0)
      else if vprot v = PROT_RW then (if vflags v \<noteq> MAP_PRIVATE then PTE_R OR PTE_W else PTE_R)
      else 0)"

text \<open>Page \<open>k\<close> of area \<open>i\<close> of the parent is shared with area \<open>j\<close> of the child.\<close>

definition fork_page :: "nat \<Rightarrow> nat \<Rightarrow> nat \<Rightarrow> nat \<Rightarrow> uint64 \<Rightarrow> 'a kstate_scheme \<Rightarrow> 'a kstate_scheme res" where
  "fork_page p np i j k s =
     (let v = vmas s (pvmas (procs s p) i);
          phy = walkaddr (pagetable (procs s p)) (vaddr v + k) s;
          prot = fork_prot v
      in
      if phy = 0 then Inr s
      else bindR (mappages (pagetable (procs s np)) (PGROUNDDOWN (vaddr (vmas s j) + k)) pgsz phy (prot OR PTE_U) s) (\<lambda>(r, s).
        let s = (if r < 0 then setkilled np s else s) in
        bindR (if vflags v = MAP_PRIVATE
               then bindR (walk (pagetable (procs s p)) (vaddr v + k) False s) (\<lambda>(entry, s).
                    Inr (set_pte entry (PA2PTE (of_nat phy) OR prot OR PTE_V OR PTE_U) s))
               else Inr s) (\<lambda>s.
        incref s phy)))"

definition fork_vma :: "nat \<Rightarrow> nat \<Rightarrow> nat \<Rightarrow> 'a kstate_scheme \<Rightarrow> 'a kstate_scheme res" where
  "fork_vma p np i s =
     (if pvmas (procs s p) i = 0 then Inr s
      else case free_vma s of
        None \<Rightarrow> Inr s
      | Some j \<Rightarrow>
          let v = vmas s (pvmas (procs s p) i);
              s = upd_proc np (\<lambda>x. x\<lparr>pvmas := (pvmas x)(i := j)\<rparr>) s;
              s = upd_vma j (\<lambda>x. x\<lparr>used := True, mfile := mfile v, vfd := vfd v, vprot := vprot v, vflags := vflags v,
                    vsize := vsize v, vfilesize := vfilesize v, voffset := voffset v, vip := vip v\<rparr>) s;
              s = upd_file (mfile v) (\<lambda>x. x\<lparr>fref := fref x + 1\<rparr>) s;
              s = upd_proc np (\<lambda>x. x\<lparr>nmp := nmp x - PGROUNDUP (of_int (vsize v))\<rparr>) s;
              s = upd_vma j (\<lambda>x. x\<lparr>vaddr := nmp (procs s np)\<rparr>) s
          in forR (fork_page p np i j) (page_offsets (vsize v)) s)"

definition fork_file :: "nat \<Rightarrow> nat \<Rightarrow> nat \<Rightarrow> 'a kstate_scheme \<Rightarrow> 'a kstate_scheme res" where
  "fork_file p np i s =
     (if ofile (procs s p) i \<noteq> 0
      then bindR (filedup (ofile (procs s p) i) s) (\<lambda>(f, s). Inr (upd_proc np (\<lambda>x. x\<lparr>ofile := (ofile x)(i := f)\<rparr>) s))
      else Inr s)"

definition fork :: "nat \<Rightarrow> 'a kstate_scheme \<Rightarrow> (int \<times> 'a kstate_scheme) res" where
  "fork p s =
     bindR (allocproc s) (\<lambda>(np, s).
     if np = 0 then Inr (-1, s)
     else let t = ptext (procs s p); d = pdatav (procs s p);
              s = allocvmaelf np (vsize t) (vfilesize t) (vip t) (voffset t) (vaddr t) True s;
              s = allocvmaelf np (vsize d) (vfilesize d) (vip d) (voffset d) (vaddr d) False s
          in
       bindR (uvmcopy_start (pagetable (procs s p)) (pagetable (procs s np)) (psz (procs s p))
                (PGROUNDUP (vaddr t + of_int (vsize t))) s) (\<lambda>(r, s).
       if r < 0 then bindR (freeproc np s) (\<lambda>s. Inr (-1, s))
       else let s = upd_proc np (\<lambda>x. x\<lparr>psz := psz (procs s p), tickets := tickets (procs s p)\<rparr>) s;
                s = s\<lparr>pmem := memmove (pmem s) (trapframe (procs s np)) (trapframe (procs s p)) sizeof_trapframe\<rparr>;
                s = tf_set np (TF_a 0) 0 s
            in
         bindR (forR (fork_file p np) [0..<NOFILE] s) (\<lambda>s.
         let (ip, s) = idup (cwd (procs s p)) s;
             s = upd_proc np (\<lambda>x. x\<lparr>cwd := ip, pname := copy_name (pname x) (takeWhile (\<lambda>b. b \<noteq> 0) (pname (procs s p)))\<rparr>) s;
             child = pid (procs s np)
         in
         bindR (forR (fork_vma p np) [0..<PER_PROCESS_VMAS] s) (\<lambda>s.
         Inr (child, upd_proc np (\<lambda>x. x\<lparr>parent := p, pstate := RUNNABLE\<rparr>) s)))))"

section \<open>Exit and wait\<close>

definition reparent_one :: "nat \<Rightarrow> nat \<Rightarrow> 'a kstate_scheme \<Rightarrow> 'a kstate_scheme" where
  "reparent_one p pp s =
     (if parent (procs s pp) = p
      then wakeup (ChProc (initproc s)) p (upd_proc pp (\<lambda>x. x\<lparr>parent := initproc s\<rparr>) s) else s)"

definition reparent :: "nat \<Rightarrow> 'a kstate_scheme \<Rightarrow> 'a kstate_scheme" where
  "reparent p s = fold (reparent_one p) [1..<NPROC + 1] s"

definition close_fd :: "nat \<Rightarrow> nat \<Rightarrow> 'a kstate_scheme \<Rightarrow> 'a kstate_scheme res" where
  "close_fd p fd s =
     (if ofile (procs s p) fd \<noteq> 0
      then bindR (fileclose p (ofile (procs s p) fd) s) (\<lambda>s. Inr (upd_proc p (\<lambda>x. x\<lparr>ofile := (ofile x)(fd := 0)\<rparr>) s))
      else Inr s)"

definition exit_vma :: "nat \<Rightarrow> nat \<Rightarrow> 'a kstate_scheme \<Rightarrow> 'a kstate_scheme res" where
  "exit_vma p i s =
     (let vi = pvmas (procs s p) i in
      if vi \<noteq> 0 then bindR (deallocvma p (vaddr (vmas s vi)) (vsize (vmas s vi)) s) (\<lambda>(_, s). Inr s) else Inr s)"

text \<open>The state in which the exiting process enters the scheduler for the last time.\<close>

definition exit :: "nat \<Rightarrow> int \<Rightarrow> 'a kstate_scheme \<Rightarrow> 'a kstate_scheme res" where
  "exit p status s =
     (if p = initproc s then Inl (Panic ''init exiting'')
      else let me = pid (procs s p) in
        bindR (forR (close_fd p) [0..<NOFILE] s) (\<lambda>s.
        bindR (deallocvmaelf p True s) (\<lambda>s.
        bindR (deallocvmaelf p False s) (\<lambda>s.
        bindR (forR (exit_vma p) [0..<PER_PROCESS_VMAS] s) (\<lambda>s.
        bindR (begin_op s) (\<lambda>s.
        bindR (iput me (cwd (procs s p)) s) (\<lambda>s.
        bindR (end_op me s) (\<lambda>s.
        let s = upd_proc p (\<lambda>x. x\<lparr>cwd := 0\<rparr>) s;
            s = reparent p s;
            s = wakeup (ChProc (parent (procs s p))) p s
        in Inr (upd_proc p (\<lambda>x. x\<lparr>xstate := status, pstate := ZOMBIE\<rparr>) s)))))))))"

text \<open>One turn of the loop of \<^verbatim>\<open>wait\<close>; \<open>PSleep\<close> when the caller sleeps on itself.\<close>

definition wait :: "nat \<Rightarrow> uint64 \<Rightarrow> 'a kstate_scheme \<Rightarrow> (pipe_out \<times> 'a kstate_scheme) res" where
  "wait p addr s =
     (case find (\<lambda>pp. parent (procs s pp) = p \<and> pstate (procs s pp) = ZOMBIE) [1..<NPROC + 1] of
        Some pp \<Rightarrow>
          let child = pid (procs s pp) in
          bindR (if addr \<noteq> 0
                 then copyout p (pagetable (procs s p)) addr (enc_le 4 (unat (of_int (xstate (procs s pp)) :: uint32))) s
                 else Inr (0, s)) (\<lambda>(r, s).
          if r < 0 then Inr (PRet (-1), s)
          else bindR (freeproc pp s) (\<lambda>s. Inr (PRet child, s)))
      | None \<Rightarrow>
          if (\<forall>pp\<in>set [1..<NPROC + 1]. parent (procs s pp) \<noteq> p) \<or> killed p s then Inr (PRet (-1), s)
          else Inr (PSleep 0, s))"

section \<open>Sleeping\<close>

text \<open>\<^verbatim>\<open>sleep\<close> up to the call of \<^verbatim>\<open>sched\<close>, what it does when it is scheduled again, and \<^verbatim>\<open>yield\<close>.\<close>

definition sleep_on :: "nat \<Rightarrow> chan \<Rightarrow> 'a kstate_scheme \<Rightarrow> 'a kstate_scheme" where
  "sleep_on p ch s = upd_proc p (\<lambda>x. x\<lparr>pchan := Some ch, pstate := SLEEPING\<rparr>) s"

definition sleep_done :: "nat \<Rightarrow> 'a kstate_scheme \<Rightarrow> 'a kstate_scheme" where
  "sleep_done p s = upd_proc p (\<lambda>x. x\<lparr>pchan := None\<rparr>) s"

text \<open>\<^verbatim>\<open>sched\<close> up to the context switch, on hart \<open>hart\<close> with its \<open>cpu\<close> record and the lock of the process.\<close>

definition sched :: "nat \<Rightarrow> cpu \<Rightarrow> spinlock \<Rightarrow> nat \<Rightarrow> 'a kstate_scheme \<Rightarrow> 'a kstate_scheme res" where
  "sched hart c lk p s =
     (if \<not> holding hart lk then Inl (Panic ''sched p->lock'')
      else if pstate (procs s p) = RUNNING then Inl (Panic ''sched running'')
      else if sie c then Inl (Panic ''sched interruptible'')
      else Inr s)"

definition yield :: "nat \<Rightarrow> 'a kstate_scheme \<Rightarrow> 'a kstate_scheme" where
  "yield p s = upd_proc p (\<lambda>x. x\<lparr>pstate := RUNNABLE\<rparr>) s"

text \<open>The first thing a new process does.\<close>

definition forkret :: "nat \<Rightarrow> 'a kstate_scheme \<Rightarrow> 'a kstate_scheme res" where
  "forkret p s = (if fs_first s then fsinit (pid (procs s p)) ROOTDEV (s\<lparr>fs_first := False\<rparr>) else Inr s)"

section \<open>Listings\<close>

definition state_name :: "procstate \<Rightarrow> byte list" where
  "state_name st =
     (case st of
        UNUSED \<Rightarrow> [117, 110, 117, 115, 101, 100]
      | USED \<Rightarrow> [117, 115, 101, 100]
      | SLEEPING \<Rightarrow> [115, 108, 101, 101, 112, 32]
      | RUNNABLE \<Rightarrow> [114, 117, 110, 98, 108, 101]
      | RUNNING \<Rightarrow> [114, 117, 110, 32, 32, 32]
      | ZOMBIE \<Rightarrow> [122, 111, 109, 98, 105, 101])"

text \<open>What \<^verbatim>\<open>procdump\<close> prints.\<close>

definition procdump :: "'a kstate_scheme \<Rightarrow> byte list" where
  "procdump s =
     10 # concat (map (\<lambda>p. printint (of_int (pid (procs s p))) 10 True @ [32] @ state_name (pstate (procs s p)) @ [32] @
                        takeWhile (\<lambda>b. b \<noteq> 0) (pname (procs s p)) @ [10])
                 (filter (\<lambda>p. pstate (procs s p) \<noteq> UNUSED) [1..<NPROC + 1]))"

definition int_bytes :: "int \<Rightarrow> byte list" where
  "int_bytes i = enc_le 4 (unat (of_int i :: uint32))"

definition pstat_bytes :: "'a kstate_scheme \<Rightarrow> byte list" where
  "pstat_bytes s =
     concat (map (\<lambda>p. int_bytes (if pstate (procs s p) = UNUSED then 0 else 1)) [1..<NPROC + 1]) @
     concat (map (\<lambda>p. int_bytes (tickets (procs s p))) [1..<NPROC + 1]) @
     concat (map (\<lambda>p. int_bytes (pid (procs s p))) [1..<NPROC + 1]) @
     concat (map (\<lambda>p. int_bytes (pticks (procs s p))) [1..<NPROC + 1])"

definition pinfo :: "nat \<Rightarrow> uint64 \<Rightarrow> 'a kstate_scheme \<Rightarrow> (int \<times> 'a kstate_scheme) res" where
  "pinfo p ps s =
     bindR (copyout p (pagetable (procs s p)) ps (pstat_bytes s) s) (\<lambda>(r, s). Inr (if r < 0 then -1 else 0, s))"

end
