(* ===== verification/Xv6_Args.thy ===== *)
theory Xv6_Args
  imports Xv6_Proc
begin

text \<open>
  System call arguments, the first part of \<^verbatim>\<open>kernel/syscall.c\<close>: registers saved in the trap frame, and
  words and strings fetched from user memory.
\<close>

section \<open>Fetching arguments\<close>

definition fetchaddr :: "nat \<Rightarrow> uint64 \<Rightarrow> 'a kstate_scheme \<Rightarrow> (int \<times> uint64 \<times> 'a kstate_scheme) res" where
  "fetchaddr p addr s =
     (if addr \<ge> psz (procs s p) \<or> addr + 8 > psz (procs s p) then Inr (-1, 0, s)
      else bindR (copyin p (pagetable (procs s p)) addr 8 [] s) (\<lambda>(r, bs, s).
        Inr (if r \<noteq> 0 then -1 else 0, of_nat (dec_le bs), s)))"

text \<open>The length of the string or -1, and the string.\<close>

definition fetchstr :: "nat \<Rightarrow> uint64 \<Rightarrow> nat \<Rightarrow> 'a kstate_scheme \<Rightarrow> (int \<times> byte list \<times> 'a kstate_scheme) res" where
  "fetchstr p addr mx s =
     bindR (copyinstr p (pagetable (procs s p)) addr mx [] s) (\<lambda>(r, str, s).
     Inr (if r < 0 then -1 else int (length str), str, s))"

definition argraw :: "nat \<Rightarrow> nat \<Rightarrow> 'a kstate_scheme \<Rightarrow> uint64 res" where
  "argraw p n s = (if n \<le> 5 then Inr (tf_get p (TF_a n) s) else Inl (Panic ''argraw''))"

definition argint :: "nat \<Rightarrow> nat \<Rightarrow> 'a kstate_scheme \<Rightarrow> int res" where
  "argint p n s = bindR (argraw p n s) (\<lambda>w. Inr (sint (ucast w :: uint32)))"

definition argaddr :: "nat \<Rightarrow> nat \<Rightarrow> 'a kstate_scheme \<Rightarrow> uint64 res" where
  "argaddr p n s = argraw p n s"

definition argstr :: "nat \<Rightarrow> nat \<Rightarrow> nat \<Rightarrow> 'a kstate_scheme \<Rightarrow> (int \<times> byte list \<times> 'a kstate_scheme) res" where
  "argstr p n mx s = bindR (argaddr p n s) (\<lambda>addr. fetchstr p addr mx s)"

text \<open>The descriptor and the file, or \<open>None\<close> for -1.\<close>

definition argfd :: "nat \<Rightarrow> nat \<Rightarrow> 'a kstate_scheme \<Rightarrow> (int \<times> nat) option res" where
  "argfd p n s =
     bindR (argint p n s) (\<lambda>fd.
     Inr (if fd < 0 \<or> fd \<ge> int NOFILE \<or> ofile (procs s p) (nat fd) = 0 then None
          else Some (fd, ofile (procs s p) (nat fd))))"

definition fdalloc :: "nat \<Rightarrow> nat \<Rightarrow> 'a kstate_scheme \<Rightarrow> int \<times> 'a kstate_scheme" where
  "fdalloc p f s =
     (case find (\<lambda>fd. ofile (procs s p) fd = 0) [0..<NOFILE] of
        Some fd \<Rightarrow> (int fd, upd_proc p (\<lambda>x. x\<lparr>ofile := (ofile x)(fd := f)\<rparr>) s)
      | None \<Rightarrow> (-1, s))"

text \<open>How a system call ends: with a value for \<^verbatim>\<open>a0\<close>, or asleep on a channel, with what it needs to go on.\<close>

datatype sysout = SRet uint64 | SBlock chan int | SExit

definition sret :: "int \<Rightarrow> 'a kstate_scheme \<Rightarrow> (sysout \<times> 'a kstate_scheme) res" where
  "sret v s = Inr (SRet (of_int v), s)"

definition of_out :: "chan \<Rightarrow> pipe_out \<times> 'a kstate_scheme \<Rightarrow> (sysout \<times> 'a kstate_scheme) res" where
  "of_out ch r = (case r of (PRet v, s) \<Rightarrow> sret v s | (PSleep i, s) \<Rightarrow> Inr (SBlock ch i, s))"

end
