(* ===== verification/Xv6_Exec.thy ===== *)
theory Xv6_Exec
  imports Xv6_Args
begin

text \<open>
  Program loading, \<^verbatim>\<open>kernel/exec.c\<close>. The ELF header and the program headers are read into buffers on
  the kernel stack and taken apart as bytes; segments are not loaded but recorded as mapped areas.
  The arguments are a list of strings, each in the page that \<^verbatim>\<open>sys_exec\<close> allocated for it.
\<close>

section \<open>The file format\<close>

definition ELF_MAGIC :: uint32 where "ELF_MAGIC = 0x464C457F"
definition ELF_PROG_LOAD :: uint32 where "ELF_PROG_LOAD = 1"
definition sizeof_elfhdr :: nat where "sizeof_elfhdr = 64"
definition sizeof_proghdr :: nat where "sizeof_proghdr = 56"

record elfhdr =
  e_magic :: uint32
  e_entry :: uint64
  e_phoff :: uint64
  e_phnum :: nat

record proghdr =
  ph_type :: uint32
  ph_flags :: uint32
  ph_off :: uint64
  ph_vaddr :: uint64
  ph_filesz :: uint64
  ph_memsz :: uint64

definition buf_mem :: "byte list \<Rightarrow> memory" where
  "buf_mem bs = wrbytes (\<lambda>_. 0) 0 bs"

definition get_elfhdr :: "byte list \<Rightarrow> elfhdr" where
  "get_elfhdr bs =
     (let m = buf_mem bs in
      \<lparr>e_magic = rd32 m 0, e_entry = rd64 m 24, e_phoff = rd64 m 32, e_phnum = unat (rd16 m 56)\<rparr>)"

definition get_proghdr :: "byte list \<Rightarrow> proghdr" where
  "get_proghdr bs =
     (let m = buf_mem bs in
      \<lparr>ph_type = rd32 m 0, ph_flags = rd32 m 4, ph_off = rd64 m 8, ph_vaddr = rd64 m 16,
       ph_filesz = rd64 m 32, ph_memsz = rd64 m 40\<rparr>)"

definition flags2perm :: "uint32 \<Rightarrow> uint64" where
  "flags2perm flags =
     (let perm = (if flags AND 1 \<noteq> 0 then PTE_X else 0)
      in if flags AND 2 \<noteq> 0 then perm OR PTE_W else perm)"

section \<open>Segments\<close>

record segs =
  textsz :: uint64
  textfilesz :: uint64
  datasz :: uint64
  datafilesz :: uint64
  textinit :: uint32
  textoff :: uint32
  dataoff :: uint32

definition segs0 :: segs where
  "segs0 = \<lparr>textsz = 0, textfilesz = 0, datasz = 0, datafilesz = 0, textinit = 0, textoff = -1, dataoff = -1\<rparr>"

text \<open>What one program header does to the running totals; \<open>None\<close> is \<^verbatim>\<open>goto bad\<close>.\<close>

definition add_segment :: "proghdr \<Rightarrow> segs \<Rightarrow> segs option" where
  "add_segment ph g =
     (if ph_type ph \<noteq> ELF_PROG_LOAD then Some g
      else if ph_memsz ph < ph_filesz ph then None
      else if ph_vaddr ph + ph_memsz ph < ph_vaddr ph then None
      else if ph_vaddr ph mod pgsz \<noteq> 0 then None
      else if flags2perm (ph_flags ph) = PTE_X
      then let g = g\<lparr>textsz := textsz g + ph_memsz ph, textfilesz := textfilesz g + ph_filesz ph\<rparr>
           in Some (if textoff g = -1 then g\<lparr>textinit := ucast (ph_vaddr ph), textoff := ucast (ph_off ph)\<rparr> else g)
      else if flags2perm (ph_flags ph) = PTE_W
      then let g = g\<lparr>datasz := datasz g + ph_memsz ph, datafilesz := datafilesz g + ph_filesz ph\<rparr>
           in Some (if dataoff g = -1 then g\<lparr>dataoff := ucast (ph_off ph)\<rparr> else g)
      else Some g)"

fun read_segments :: "int \<Rightarrow> nat \<Rightarrow> uint32 list \<Rightarrow> segs \<Rightarrow> 'a kstate_scheme \<Rightarrow> (segs option \<times> 'a kstate_scheme) res" where
  "read_segments me ip [] g s = Inr (Some g, s)"
| "read_segments me ip (off # offs) g s =
     bindR (readi local_sink me ip [] off (of_nat sizeof_proghdr) s) (\<lambda>(r, bs, s).
     if r \<noteq> int sizeof_proghdr then Inr (None, s)
     else case add_segment (get_proghdr bs) g of
            None \<Rightarrow> Inr (None, s)
          | Some g \<Rightarrow> read_segments me ip offs g s)"

section \<open>The stack\<close>

text \<open>Pushes the argument strings: the addresses pushed so far, the stack pointer; \<open>None\<close> is \<^verbatim>\<open>goto bad\<close>.\<close>

fun push_args :: "nat \<Rightarrow> nat \<Rightarrow> uint64 \<Rightarrow> byte list list \<Rightarrow> uint64 list \<Rightarrow> uint64 \<Rightarrow> 'a kstate_scheme \<Rightarrow>
    ((uint64 list \<times> uint64) option \<times> 'a kstate_scheme) res" where
  "push_args p pt stackbase [] ustack sp s = Inr (Some (ustack, sp), s)"
| "push_args p pt stackbase (a # argv) ustack sp s =
     (if length ustack \<ge> MAXARG then Inr (None, s)
      else let sp = sp - (of_nat (length a) + 1);
               sp = sp - sp mod 16
           in
        if sp < stackbase then Inr (None, s)
        else bindR (copyout p pt sp (a @ [0]) s) (\<lambda>(r, s).
          if r < 0 then Inr (None, s)
          else push_args p pt stackbase argv (ustack @ [sp]) sp s))"

definition ustack_bytes :: "uint64 list \<Rightarrow> byte list" where
  "ustack_bytes us = concat (map (\<lambda>u. enc_le 8 (unat u)) (us @ [0]))"

text \<open>The stack pointer and the number of arguments; \<open>None\<close> is \<^verbatim>\<open>goto bad\<close>.\<close>

definition build_stack :: "nat \<Rightarrow> nat \<Rightarrow> uint64 \<Rightarrow> byte list list \<Rightarrow> 'a kstate_scheme \<Rightarrow>
    ((uint64 \<times> nat) option \<times> 'a kstate_scheme) res" where
  "build_stack p pt sz argv s =
     (let stackbase = sz - pgsz in
      bindR (push_args p pt stackbase argv [] sz s) (\<lambda>(r, s).
      case r of
        None \<Rightarrow> Inr (None, s)
      | Some (ustack, sp) \<Rightarrow>
          let argc = length ustack;
              sp = sp - (of_nat argc + 1) * 8;
              sp = sp - sp mod 16
          in
          if sp < stackbase then Inr (None, s)
          else bindR (copyout p pt sp (ustack_bytes ustack) s) (\<lambda>(r, s).
            Inr (if r < 0 then None else Some (sp, argc), s))))"

section \<open>exec\<close>

text \<open>The code after \<^verbatim>\<open>bad:\<close>, with the page table, the size and the inode (0 once released).\<close>

definition exec_bad :: "int \<Rightarrow> nat \<Rightarrow> uint64 \<Rightarrow> nat \<Rightarrow> 'a kstate_scheme \<Rightarrow> (int \<times> 'a kstate_scheme) res" where
  "exec_bad me pt sz ip s =
     bindR (if pt \<noteq> 0 then proc_freepagetable pt sz s else Inr s) (\<lambda>s.
     bindR (if ip \<noteq> 0 then bindR (iunlockput me ip s) (end_op me) else Inr s) (\<lambda>s.
     Inr (-1, s)))"

definition last_elem :: "byte list \<Rightarrow> byte list" where
  "last_elem path = rev (takeWhile (\<lambda>c. c \<noteq> slash) (rev path))"

definition exec_commit :: "nat \<Rightarrow> nat \<Rightarrow> uint64 \<Rightarrow> uint64 \<Rightarrow> byte list \<Rightarrow> uint64 \<Rightarrow> uint64 \<Rightarrow> 'a kstate_scheme \<Rightarrow> 'a kstate_scheme res" where
  "exec_commit p pt sz oldsz path entry sp s =
     (let s = tf_set p (TF_a 1) sp s;
          oldpagetable = pagetable (procs s p);
          s = upd_proc p (\<lambda>x. x\<lparr>pname := copy_name (pname x) (last_elem path), pagetable := pt, psz := sz\<rparr>) s;
          s = tf_set p TF_epc entry s;
          s = tf_set p TF_sp sp s
      in proc_freepagetable oldpagetable oldsz s)"

text \<open>From the point where the program headers have been read.\<close>

definition exec_image :: "nat \<Rightarrow> int \<Rightarrow> byte list \<Rightarrow> byte list list \<Rightarrow> nat \<Rightarrow> elfhdr \<Rightarrow> segs \<Rightarrow> nat \<Rightarrow> 'a kstate_scheme \<Rightarrow>
    (int \<times> 'a kstate_scheme) res" where
  "exec_image p me path argv ip elf g pt s =
     (let s = allocvmaelf p (sint (ucast (textsz g) :: uint32)) (sint (ucast (textfilesz g) :: uint32)) ip (sint (textoff g)) (scast (textinit g)) True s;
          s = allocvmaelf p (sint (ucast (datasz g) :: uint32)) (sint (ucast (datafilesz g) :: uint32)) ip (sint (dataoff g))
                (PGROUNDUP (scast (textinit g) + textsz g)) False s;
          (_, s) = idup ip s
      in
      bindR (iunlockput me ip s) (\<lambda>s.
      bindR (end_op me s) (\<lambda>s.
      let s = upd_proc p (\<lambda>x. x\<lparr>pticks := 0\<rparr>) s;
          sz = PGROUNDUP (PGROUNDUP (textsz g) + PGROUNDUP (datasz g));
          oldsz = psz (procs s p)
      in
      bindR (uvmalloc pt sz (sz + 2 * pgsz) PTE_W s) (\<lambda>(sz1, s).
      if sz1 = 0 then exec_bad me pt sz 0 s
      else bindR (uvmclear pt (sz1 - 2 * pgsz) s) (\<lambda>s.
      bindR (build_stack p pt sz1 argv s) (\<lambda>(r, s).
      case r of
        None \<Rightarrow> exec_bad me pt sz1 0 s
      | Some (sp, argc) \<Rightarrow>
          bindR (exec_commit p pt sz1 oldsz path (e_entry elf) sp s) (\<lambda>s. Inr (int argc, s))))))))"

definition exec :: "nat \<Rightarrow> byte list \<Rightarrow> byte list list \<Rightarrow> 'a kstate_scheme \<Rightarrow> (int \<times> 'a kstate_scheme) res" where
  "exec p path argv s =
     (let me = pid (procs s p) in
      bindR (begin_op s) (\<lambda>s.
      bindR (namei me (cwd (procs s p)) path s) (\<lambda>(ip, s).
      if ip = 0 then bindR (end_op me s) (\<lambda>s. Inr (-1, s))
      else bindR (ilock me ip s) (\<lambda>s.
      bindR (readi local_sink me ip [] 0 (of_nat sizeof_elfhdr) s) (\<lambda>(r, bs, s).
      let elf = get_elfhdr bs in
      if r \<noteq> int sizeof_elfhdr \<or> e_magic elf \<noteq> ELF_MAGIC then exec_bad me 0 0 ip s
      else bindR (proc_pagetable p s) (\<lambda>(pt, s).
        if pt = 0 then exec_bad me 0 0 ip s
        else bindR (read_segments me ip (map (\<lambda>i. ucast (e_phoff elf) + of_nat (i * sizeof_proghdr)) [0..<e_phnum elf]) segs0 s) (\<lambda>(g, s).
          case g of
            None \<Rightarrow> exec_bad me pt 0 ip s
          | Some g \<Rightarrow> exec_image p me path argv ip elf g pt s)))))))"

end
