(* ===== verification/Xv6_Sysfile.thy ===== *)
theory Xv6_Sysfile
  imports Xv6_Exec
begin

text \<open>
  The file system calls, \<^verbatim>\<open>kernel/sysfile.c\<close>. A call takes the calling process and gives the value
  for register \<^verbatim>\<open>a0\<close>, or says that the caller blocks. Calls that can block half way take the index
  at which they go on (0 for a fresh call).
\<close>

definition O_RDONLY :: int where "O_RDONLY = 0"
definition O_WRONLY :: uint32 where "O_WRONLY = 1"
definition O_RDWR :: uint32 where "O_RDWR = 2"
definition O_CREATE :: uint32 where "O_CREATE = 0x200"
definition O_TRUNC :: uint32 where "O_TRUNC = 0x400"

section \<open>Calls on descriptors\<close>

definition sys_dup :: "nat \<Rightarrow> 'a kstate_scheme \<Rightarrow> (sysout \<times> 'a kstate_scheme) res" where
  "sys_dup p s =
     bindR (argfd p 0 s) (\<lambda>a.
     case a of
       None \<Rightarrow> sret (-1) s
     | Some (_, f) \<Rightarrow>
         let (fd, s) = fdalloc p f s in
         if fd < 0 then sret (-1) s
         else bindR (filedup f s) (\<lambda>(_, s). sret fd s))"

definition read_chan :: "nat \<Rightarrow> 'a kstate_scheme \<Rightarrow> chan" where
  "read_chan f s = (if ftype (files s f) = FD_PIPE then ChPipeR (fpipe (files s f)) else ChCons)"

definition write_chan :: "nat \<Rightarrow> 'a kstate_scheme \<Rightarrow> chan" where
  "write_chan f s = (if ftype (files s f) = FD_PIPE then ChPipeW (fpipe (files s f)) else ChUart)"

definition sys_read :: "nat \<Rightarrow> int \<Rightarrow> 'a kstate_scheme \<Rightarrow> (sysout \<times> 'a kstate_scheme) res" where
  "sys_read p i s =
     bindR (argaddr p 1 s) (\<lambda>addr.
     bindR (argint p 2 s) (\<lambda>n.
     bindR (argfd p 0 s) (\<lambda>a.
     case a of
       None \<Rightarrow> sret (-1) s
     | Some (_, f) \<Rightarrow> bindR (fileread p f addr n i s) (of_out (read_chan f s)))))"

definition sys_write :: "env \<Rightarrow> nat \<Rightarrow> int \<Rightarrow> 'a kstate_scheme \<Rightarrow> (sysout \<times> 'a kstate_scheme) res" where
  "sys_write env p i s =
     bindR (argaddr p 1 s) (\<lambda>addr.
     bindR (argint p 2 s) (\<lambda>n.
     bindR (argfd p 0 s) (\<lambda>a.
     case a of
       None \<Rightarrow> sret (-1) s
     | Some (_, f) \<Rightarrow> bindR (filewrite env p f addr n i s) (of_out (write_chan f s)))))"

definition sys_close :: "nat \<Rightarrow> 'a kstate_scheme \<Rightarrow> (sysout \<times> 'a kstate_scheme) res" where
  "sys_close p s =
     bindR (argfd p 0 s) (\<lambda>a.
     case a of
       None \<Rightarrow> sret (-1) s
     | Some (fd, f) \<Rightarrow>
         bindR (fileclose p f (upd_proc p (\<lambda>x. x\<lparr>ofile := (ofile x)(nat fd := 0)\<rparr>) s)) (sret 0))"

definition sys_fstat :: "env \<Rightarrow> nat \<Rightarrow> 'a kstate_scheme \<Rightarrow> (sysout \<times> 'a kstate_scheme) res" where
  "sys_fstat env p s =
     bindR (argaddr p 1 s) (\<lambda>st.
     bindR (argfd p 0 s) (\<lambda>a.
     case a of
       None \<Rightarrow> sret (-1) s
     | Some (_, f) \<Rightarrow> bindR (filestat env p f st s) (\<lambda>(r, s). sret r s)))"

section \<open>Links\<close>

definition iput_end :: "int \<Rightarrow> nat \<Rightarrow> int \<Rightarrow> 'a kstate_scheme \<Rightarrow> (sysout \<times> 'a kstate_scheme) res" where
  "iput_end me ip r s = bindR (iunlockput me ip s) (\<lambda>s. bindR (end_op me s) (sret r))"

definition link_bad :: "int \<Rightarrow> nat \<Rightarrow> 'a kstate_scheme \<Rightarrow> (sysout \<times> 'a kstate_scheme) res" where
  "link_bad me ip s =
     bindR (ilock me ip s) (\<lambda>s.
     bindR (iupdate me ip (upd_inode ip (\<lambda>x. x\<lparr>nlink := nlink x - 1\<rparr>) s)) (iput_end me ip (-1)))"

definition sys_link :: "nat \<Rightarrow> 'a kstate_scheme \<Rightarrow> (sysout \<times> 'a kstate_scheme) res" where
  "sys_link p s =
     (let me = pid (procs s p) in
      bindR (argstr p 0 MAXPATH s) (\<lambda>(r, old, s).
      if r < 0 then sret (-1) s
      else bindR (argstr p 1 MAXPATH s) (\<lambda>(r, new, s).
      if r < 0 then sret (-1) s
      else bindR (begin_op s) (\<lambda>s.
      bindR (namei me (cwd (procs s p)) old s) (\<lambda>(ip, s).
      if ip = 0 then bindR (end_op me s) (sret (-1))
      else bindR (ilock me ip s) (\<lambda>s.
      if itype (inodes s ip) = T_DIR then iput_end me ip (-1) s
      else bindR (iupdate me ip (upd_inode ip (\<lambda>x. x\<lparr>nlink := nlink x + 1\<rparr>) s)) (\<lambda>s.
      bindR (iunlock me ip s) (\<lambda>s.
      bindR (nameiparent me (cwd (procs s p)) new (replicate DIRSIZ 0) s) (\<lambda>(dp, name, s).
      if dp = 0 then link_bad me ip s
      else bindR (ilock me dp s) (\<lambda>s.
      bindR (if idev (inodes s dp) \<noteq> idev (inodes s ip) then Inr (-1, s)
             else dirlink me dp name (inum (inodes s ip)) s) (\<lambda>(r, s).
      if r < 0 then bindR (iunlockput me dp s) (link_bad me ip)
      else bindR (iunlockput me dp s) (\<lambda>s.
      bindR (iput me ip s) (\<lambda>s.
      bindR (end_op me s) (sret 0))))))))))))))"

fun dir_empty_from :: "int \<Rightarrow> nat \<Rightarrow> nat list \<Rightarrow> 'a kstate_scheme \<Rightarrow> (bool \<times> 'a kstate_scheme) res" where
  "dir_empty_from me dp [] s = Inr (True, s)"
| "dir_empty_from me dp (off # offs) s =
     bindR (read_dirent ''isdirempty: readi'' me dp off s) (\<lambda>(de, s).
     if de_inum de \<noteq> 0 then Inr (False, s) else dir_empty_from me dp offs s)"

definition isdirempty :: "int \<Rightarrow> nat \<Rightarrow> 'a kstate_scheme \<Rightarrow> (bool \<times> 'a kstate_scheme) res" where
  "isdirempty me dp s = dir_empty_from me dp (drop 2 (dirent_offs (unat (isize (inodes s dp))))) s"

definition dot :: "byte list" where "dot = [46, 0]"
definition dotdot :: "byte list" where "dotdot = [46, 46, 0]"

text \<open>From the point where the directory and the file are locked and the entry may be removed.\<close>

definition unlink_entry :: "int \<Rightarrow> nat \<Rightarrow> nat \<Rightarrow> nat \<Rightarrow> 'a kstate_scheme \<Rightarrow> (sysout \<times> 'a kstate_scheme) res" where
  "unlink_entry me dp ip off s =
     bindR (writei local_source me dp (replicate sizeof_dirent 0) (of_nat off) (of_nat sizeof_dirent) s) (\<lambda>(r, _, s).
     if r \<noteq> int sizeof_dirent then Inl (Panic ''unlink: writei'')
     else bindR (if itype (inodes s ip) = T_DIR
                 then iupdate me dp (upd_inode dp (\<lambda>x. x\<lparr>nlink := nlink x - 1\<rparr>) s) else Inr s) (\<lambda>s.
       bindR (iunlockput me dp s) (\<lambda>s.
       bindR (iupdate me ip (upd_inode ip (\<lambda>x. x\<lparr>nlink := nlink x - 1\<rparr>) s)) (iput_end me ip 0))))"

definition sys_unlink :: "nat \<Rightarrow> 'a kstate_scheme \<Rightarrow> (sysout \<times> 'a kstate_scheme) res" where
  "sys_unlink p s =
     (let me = pid (procs s p) in
      bindR (argstr p 0 MAXPATH s) (\<lambda>(r, path, s).
      if r < 0 then sret (-1) s
      else bindR (begin_op s) (\<lambda>s.
      bindR (nameiparent me (cwd (procs s p)) path (replicate DIRSIZ 0) s) (\<lambda>(dp, name, s).
      if dp = 0 then bindR (end_op me s) (sret (-1))
      else bindR (ilock me dp s) (\<lambda>s.
      if namecmp name dot = 0 \<or> namecmp name dotdot = 0 then iput_end me dp (-1) s
      else bindR (dirlookup me dp name s) (\<lambda>(ip, off, s).
      if ip = 0 then iput_end me dp (-1) s
      else bindR (ilock me ip s) (\<lambda>s.
      if sint (nlink (inodes s ip)) < 1 then Inl (Panic ''unlink: nlink < 1'')
      else bindR (if itype (inodes s ip) = T_DIR then isdirempty me ip s else Inr (True, s)) (\<lambda>(empty, s).
      if \<not> empty then bindR (iunlockput me ip s) (iput_end me dp (-1))
      else unlink_entry me dp ip (the off) s))))))))"

section \<open>Creating files\<close>

definition create_fail :: "int \<Rightarrow> nat \<Rightarrow> nat \<Rightarrow> 'a kstate_scheme \<Rightarrow> (nat \<times> 'a kstate_scheme) res" where
  "create_fail me dp ip s =
     bindR (iupdate me ip (upd_inode ip (\<lambda>x. x\<lparr>nlink := 0\<rparr>) s)) (\<lambda>s.
     bindR (iunlockput me ip s) (\<lambda>s.
     bindR (iunlockput me dp s) (\<lambda>s. Inr (0, s))))"

text \<open>The entries \<^verbatim>\<open>.\<close> and \<^verbatim>\<open>..\<close> of a new directory; negative if one cannot be written.\<close>

definition link_dots :: "int \<Rightarrow> nat \<Rightarrow> nat \<Rightarrow> 'a kstate_scheme \<Rightarrow> (int \<times> 'a kstate_scheme) res" where
  "link_dots me dp ip s =
     bindR (dirlink me ip dot (inum (inodes s ip)) s) (\<lambda>(r, s).
     if r < 0 then Inr (r, s) else dirlink me ip dotdot (inum (inodes s dp)) s)"

definition create :: "nat \<Rightarrow> byte list \<Rightarrow> short \<Rightarrow> short \<Rightarrow> short \<Rightarrow> 'a kstate_scheme \<Rightarrow> (nat \<times> 'a kstate_scheme) res" where
  "create p path type major minor s =
     (let me = pid (procs s p) in
      bindR (nameiparent me (cwd (procs s p)) path (replicate DIRSIZ 0) s) (\<lambda>(dp, name, s).
      if dp = 0 then Inr (0, s)
      else bindR (ilock me dp s) (\<lambda>s.
      bindR (dirlookup me dp name s) (\<lambda>(ip, _, s).
      if ip \<noteq> 0
      then bindR (iunlockput me dp s) (\<lambda>s.
           bindR (ilock me ip s) (\<lambda>s.
           if type = T_FILE \<and> (itype (inodes s ip) = T_FILE \<or> itype (inodes s ip) = T_DEVICE) then Inr (ip, s)
           else bindR (iunlockput me ip s) (\<lambda>s. Inr (0, s))))
      else bindR (ialloc me (idev (inodes s dp)) type s) (\<lambda>(ip, s).
        if ip = 0 then bindR (iunlockput me dp s) (\<lambda>s. Inr (0, s))
        else bindR (ilock me ip s) (\<lambda>s.
        bindR (iupdate me ip (upd_inode ip (\<lambda>x. x\<lparr>imajor := major, iminor := minor, nlink := 1\<rparr>) s)) (\<lambda>s.
        bindR (if type = T_DIR then link_dots me dp ip s else Inr (0, s)) (\<lambda>(r, s).
        if r < 0 then create_fail me dp ip s
        else bindR (dirlink me dp name (inum (inodes s ip)) s) (\<lambda>(r, s).
        if r < 0 then create_fail me dp ip s
        else bindR (if type = T_DIR then iupdate me dp (upd_inode dp (\<lambda>x. x\<lparr>nlink := nlink x + 1\<rparr>) s) else Inr s) (\<lambda>s.
        bindR (iunlockput me dp s) (\<lambda>s. Inr (ip, s))))))))))))"

text \<open>\<^verbatim>\<open>sys_open\<close> once the inode is locked.\<close>

definition open_inode :: "nat \<Rightarrow> int \<Rightarrow> uint32 \<Rightarrow> nat \<Rightarrow> 'a kstate_scheme \<Rightarrow> (sysout \<times> 'a kstate_scheme) res" where
  "open_inode p me omode ip s =
     (if itype (inodes s ip) = T_DEVICE \<and> (sint (imajor (inodes s ip)) < 0 \<or> sint (imajor (inodes s ip)) \<ge> int NDEV)
      then iput_end me ip (-1) s
      else let (f, s) = filealloc s;
               (fd, s) = (if f = 0 then (-1, s) else fdalloc p f s)
           in
        if f = 0 \<or> fd < 0
        then bindR (if f \<noteq> 0 then fileclose p f s else Inr s) (iput_end me ip (-1))
        else let s = upd_file f (\<lambda>x. if itype (inodes s ip) = T_DEVICE
                                     then x\<lparr>ftype := FD_DEVICE, fmajor := imajor (inodes s ip)\<rparr>
                                     else x\<lparr>ftype := FD_INODE, foff := 0\<rparr>) s;
                 s = upd_file f (\<lambda>x. x\<lparr>fip := ip, readable := (omode AND O_WRONLY = 0),
                       writable := (omode AND O_WRONLY \<noteq> 0 \<or> omode AND O_RDWR \<noteq> 0)\<rparr>) s
             in
          bindR (if omode AND O_TRUNC \<noteq> 0 \<and> itype (inodes s ip) = T_FILE then itrunc me ip s else Inr s) (\<lambda>s.
          bindR (iunlock me ip s) (\<lambda>s.
          bindR (end_op me s) (sret fd))))"

definition sys_open :: "nat \<Rightarrow> 'a kstate_scheme \<Rightarrow> (sysout \<times> 'a kstate_scheme) res" where
  "sys_open p s =
     (let me = pid (procs s p) in
      bindR (argint p 1 s) (\<lambda>omode.
      bindR (argstr p 0 MAXPATH s) (\<lambda>(n, path, s).
      if n < 0 then sret (-1) s
      else bindR (begin_op s) (\<lambda>s.
      if (of_int omode :: uint32) AND O_CREATE \<noteq> 0
      then bindR (create p path T_FILE 0 0 s) (\<lambda>(ip, s).
           if ip = 0 then bindR (end_op me s) (sret (-1)) else open_inode p me (of_int omode) ip s)
      else bindR (namei me (cwd (procs s p)) path s) (\<lambda>(ip, s).
           if ip = 0 then bindR (end_op me s) (sret (-1))
           else bindR (ilock me ip s) (\<lambda>s.
             if itype (inodes s ip) = T_DIR \<and> omode \<noteq> O_RDONLY then iput_end me ip (-1) s
             else open_inode p me (of_int omode) ip s))))))"

text \<open>The common end of \<^verbatim>\<open>sys_mkdir\<close> and \<^verbatim>\<open>sys_mknod\<close>: the string fetched and the inode created.\<close>

definition make_node :: "nat \<Rightarrow> short \<Rightarrow> short \<Rightarrow> short \<Rightarrow> 'a kstate_scheme \<Rightarrow> (sysout \<times> 'a kstate_scheme) res" where
  "make_node p type major minor s =
     (let me = pid (procs s p) in
      bindR (argstr p 0 MAXPATH s) (\<lambda>(r, path, s).
      if r < 0 then bindR (end_op me s) (sret (-1))
      else bindR (create p path type major minor s) (\<lambda>(ip, s).
        if ip = 0 then bindR (end_op me s) (sret (-1)) else iput_end me ip 0 s)))"

definition sys_mkdir :: "nat \<Rightarrow> 'a kstate_scheme \<Rightarrow> (sysout \<times> 'a kstate_scheme) res" where
  "sys_mkdir p s = bindR (begin_op s) (make_node p T_DIR 0 0)"

definition sys_mknod :: "nat \<Rightarrow> 'a kstate_scheme \<Rightarrow> (sysout \<times> 'a kstate_scheme) res" where
  "sys_mknod p s =
     bindR (begin_op s) (\<lambda>s.
     bindR (argint p 1 s) (\<lambda>major.
     bindR (argint p 2 s) (\<lambda>minor.
     make_node p T_DEVICE (of_int major) (of_int minor) s)))"

definition sys_chdir :: "nat \<Rightarrow> 'a kstate_scheme \<Rightarrow> (sysout \<times> 'a kstate_scheme) res" where
  "sys_chdir p s =
     (let me = pid (procs s p) in
      bindR (begin_op s) (\<lambda>s.
      bindR (argstr p 0 MAXPATH s) (\<lambda>(r, path, s).
      if r < 0 then bindR (end_op me s) (sret (-1))
      else bindR (namei me (cwd (procs s p)) path s) (\<lambda>(ip, s).
        if ip = 0 then bindR (end_op me s) (sret (-1))
        else bindR (ilock me ip s) (\<lambda>s.
          if itype (inodes s ip) \<noteq> T_DIR then iput_end me ip (-1) s
          else bindR (iunlock me ip s) (\<lambda>s.
            bindR (iput me (cwd (procs s p)) s) (\<lambda>s.
            bindR (end_op me s) (\<lambda>s.
            sret 0 (upd_proc p (\<lambda>x. x\<lparr>cwd := ip\<rparr>) s)))))))))"

section \<open>exec and pipe\<close>

text \<open>The pages and strings of the arguments fetched, and whether all went well; the first argument counts the
  entries of \<^verbatim>\<open>argv\<close> that are left.\<close>

fun fetch_args :: "nat \<Rightarrow> nat \<Rightarrow> uint64 \<Rightarrow> (nat \<times> byte list) list \<Rightarrow> 'a kstate_scheme \<Rightarrow>
    (bool \<times> (nat \<times> byte list) list \<times> 'a kstate_scheme) res" where
  "fetch_args 0 p uargv argv s = Inr (False, argv, s)"
| "fetch_args (Suc k) p uargv argv s =
     bindR (fetchaddr p uargv s) (\<lambda>(r, uarg, s).
     if r < 0 then Inr (False, argv, s)
     else if uarg = 0 then Inr (True, argv, s)
     else let (page, s) = kalloc s in
       if page = 0 then Inr (False, argv, s)
       else bindR (fetchstr p uarg PGSIZE s) (\<lambda>(r, str, s).
         let s = s\<lparr>pmem := wrbytes (pmem s) page (if r < 0 then str else str @ [0])\<rparr> in
         if r < 0 then Inr (False, argv @ [(page, str)], s)
         else fetch_args k p (uargv + 8) (argv @ [(page, str)]) s))"

definition free_args :: "(nat \<times> byte list) list \<Rightarrow> 'a kstate_scheme \<Rightarrow> 'a kstate_scheme res" where
  "free_args argv s = forR (\<lambda>(page, _) s. kfree s page) argv s"

definition sys_exec :: "nat \<Rightarrow> 'a kstate_scheme \<Rightarrow> (sysout \<times> 'a kstate_scheme) res" where
  "sys_exec p s =
     bindR (argaddr p 1 s) (\<lambda>uargv.
     bindR (argstr p 0 MAXPATH s) (\<lambda>(r, path, s).
     if r < 0 then sret (-1) s
     else bindR (fetch_args MAXARG p uargv [] s) (\<lambda>(ok, argv, s).
       if ok
       then bindR (exec p path (map snd argv) s) (\<lambda>(ret, s). bindR (free_args argv s) (sret ret))
       else bindR (free_args argv s) (sret (-1)))))"

definition close_both :: "nat \<Rightarrow> nat \<Rightarrow> nat \<Rightarrow> 'a kstate_scheme \<Rightarrow> (sysout \<times> 'a kstate_scheme) res" where
  "close_both p rfile wfile s = bindR (fileclose p rfile s) (\<lambda>s. bindR (fileclose p wfile s) (sret (-1)))"

definition clear_fd :: "nat \<Rightarrow> int \<Rightarrow> 'a kstate_scheme \<Rightarrow> 'a kstate_scheme" where
  "clear_fd p fd s = upd_proc p (\<lambda>x. x\<lparr>ofile := (ofile x)(nat fd := 0)\<rparr>) s"

definition sys_pipe :: "nat \<Rightarrow> 'a kstate_scheme \<Rightarrow> (sysout \<times> 'a kstate_scheme) res" where
  "sys_pipe p s =
     bindR (argaddr p 0 s) (\<lambda>fdarray.
     bindR (pipealloc p s) (\<lambda>(r, rfile, wfile, s).
     if r < 0 then sret (-1) s
     else let (fd0, s) = fdalloc p rfile s;
              (fd1, s) = (if fd0 < 0 then (-1, s) else fdalloc p wfile s)
          in
       if fd0 < 0 \<or> fd1 < 0 then close_both p rfile wfile (if fd0 \<ge> 0 then clear_fd p fd0 s else s)
       else bindR (copyout p (pagetable (procs s p)) fdarray (int_bytes fd0) s) (\<lambda>(r, s).
         bindR (if r < 0 then Inr (r, s) else copyout p (pagetable (procs s p)) (fdarray + 4) (int_bytes fd1) s) (\<lambda>(r, s).
         if r < 0 then close_both p rfile wfile (clear_fd p fd1 (clear_fd p fd0 s))
         else sret 0 s))))"

end
