(* ===== verification/Xv6_Sched.thy ===== *)
theory Xv6_Sched
  imports Xv6_Proc
begin

text \<open>
  The lottery: \<^verbatim>\<open>kernel/random.c\<close> and \<^verbatim>\<open>scheduler\<close> of \<^verbatim>\<open>kernel/proc.c\<close>. Arithmetic on \<^verbatim>\<open>int\<close> is
  32-bit two's complement. A turn of the scheduler's loop is a function; what a process does between
  being switched to and switching back is the argument \<open>run\<close>.
\<close>

section \<open>Random numbers\<close>

type_synonym int32 = "32 word"

text \<open>\<^verbatim>\<open>x % m\<close> on \<^verbatim>\<open>int\<close>: the remainder has the sign of the dividend.\<close>

definition crem :: "int \<Rightarrow> int \<Rightarrow> int" where
  "crem x m = (if x < 0 then - ((- x) mod m) else x mod m)"

definition random_step :: "int32 \<Rightarrow> int32" where
  "random_step xn = of_int (crem (sint (1103515245 * xn + 12345)) 32768)"

definition NROUNDS :: nat where "NROUNDS = 10"

definition random :: "int32 \<Rightarrow> uint32" where
  "random seed = (random_step ^^ NROUNDS) seed"

definition randomrange :: "int32 \<Rightarrow> int32 \<Rightarrow> int32 \<Rightarrow> int32" where
  "randomrange seed lo hi =
     (let (lo, hi) = (if hi <s lo then (hi, lo) else (lo, hi));
          range = hi - lo + 1
      in random seed mod range + lo)"

section \<open>The scheduler\<close>

definition total_tickets :: "'a kstate_scheme \<Rightarrow> int32" where
  "total_tickets s =
     fold (\<lambda>p t. if pstate (procs s p) = RUNNABLE then t + of_int (tickets (procs s p)) else t) [1..<NPROC + 1] 0"

definition total_ticks :: "'a kstate_scheme \<Rightarrow> int32" where
  "total_ticks s = fold (\<lambda>p t. t + of_int (pticks (procs s p))) [1..<NPROC + 1] 0"

definition dispatch :: "nat \<Rightarrow> 'a kstate_scheme \<Rightarrow> 'a kstate_scheme" where
  "dispatch p s = upd_proc p (\<lambda>x. x\<lparr>pstate := RUNNING, pticks := pticks x + 1\<rparr>) s"

fun draw :: "(nat \<Rightarrow> 'a kstate_scheme \<Rightarrow> 'a kstate_scheme) \<Rightarrow> nat list \<Rightarrow> int32 \<Rightarrow> 'a kstate_scheme \<Rightarrow> 'a kstate_scheme" where
  "draw run [] rnd s = s"
| "draw run (p # ps) rnd s =
     (if 0 <s rnd
      then if pstate (procs s p) = RUNNABLE
        then let s = (if rnd \<le>s of_int (tickets (procs s p)) then run p (dispatch p s) else s)
             in draw run ps (rnd - of_int (tickets (procs s p))) s
        else draw run ps rnd s
      else s)"

definition scheduler_turn :: "(nat \<Rightarrow> 'a kstate_scheme \<Rightarrow> 'a kstate_scheme) \<Rightarrow> 'a kstate_scheme \<Rightarrow> 'a kstate_scheme" where
  "scheduler_turn run s =
     (if total_tickets s <s 1 then s
      else let seed = total_tickets s + total_ticks s;
               rnd = randomrange seed 1 (total_tickets s)
           in draw run [1..<NPROC + 1] rnd s)"

end
