(* ===== verification/Xv6_Sysproc.thy ===== *)
theory Xv6_Sysproc
  imports Xv6_Sysfile Xv6_Sched
begin

text \<open>
  The process system calls, \<^verbatim>\<open>kernel/sysproc.c\<close>, and the dispatch of all system calls, the second part
  of \<^verbatim>\<open>kernel/syscall.c\<close>.
\<close>

section \<open>Calls\<close>

definition sys_exit :: "nat \<Rightarrow> 'a kstate_scheme \<Rightarrow> (sysout \<times> 'a kstate_scheme) res" where
  "sys_exit p s = bindR (argint p 0 s) (\<lambda>n. bindR (exit p n s) (\<lambda>s. Inr (SExit, s)))"

definition sys_getpid :: "nat \<Rightarrow> 'a kstate_scheme \<Rightarrow> (sysout \<times> 'a kstate_scheme) res" where
  "sys_getpid p s = sret (pid (procs s p)) s"

definition sys_fork :: "nat \<Rightarrow> 'a kstate_scheme \<Rightarrow> (sysout \<times> 'a kstate_scheme) res" where
  "sys_fork p s = bindR (fork p s) (\<lambda>(r, s). sret r s)"

definition sys_wait :: "nat \<Rightarrow> 'a kstate_scheme \<Rightarrow> (sysout \<times> 'a kstate_scheme) res" where
  "sys_wait p s = bindR (argaddr p 0 s) (\<lambda>addr. bindR (wait p addr s) (of_out (ChProc p)))"

definition sys_sbrk :: "nat \<Rightarrow> 'a kstate_scheme \<Rightarrow> (sysout \<times> 'a kstate_scheme) res" where
  "sys_sbrk p s =
     bindR (argint p 0 s) (\<lambda>n.
     let addr = psz (procs s p) in
     bindR (growproc p n s) (\<lambda>(r, s). if r < 0 then sret (-1) s else Inr (SRet addr, s)))"

text \<open>\<open>ticks0\<close> is the value of \<^verbatim>\<open>ticks\<close> at the call; one test of the loop.\<close>

definition sys_sleep :: "nat \<Rightarrow> uint32 \<Rightarrow> 'a kstate_scheme \<Rightarrow> (sysout \<times> 'a kstate_scheme) res" where
  "sys_sleep p ticks0 s =
     bindR (argint p 0 s) (\<lambda>n.
     if kticks s - ticks0 < of_int n
     then (if killed p s then sret (-1) s else Inr (SBlock ChTicks (int (unat ticks0)), s))
     else sret 0 s)"

definition sys_kill :: "nat \<Rightarrow> 'a kstate_scheme \<Rightarrow> (sysout \<times> 'a kstate_scheme) res" where
  "sys_kill p s = bindR (argint p 0 s) (\<lambda>victim. let (r, s) = kill victim s in sret r s)"

definition sys_uptime :: "nat \<Rightarrow> 'a kstate_scheme \<Rightarrow> (sysout \<times> 'a kstate_scheme) res" where
  "sys_uptime p s = Inr (SRet (ucast (kticks s)), s)"

definition sys_settickets :: "nat \<Rightarrow> 'a kstate_scheme \<Rightarrow> (sysout \<times> 'a kstate_scheme) res" where
  "sys_settickets p s =
     bindR (argint p 0 s) (\<lambda>n. if n < 1 then sret (-1) s else sret 0 (upd_proc p (\<lambda>x. x\<lparr>tickets := n\<rparr>) s))"

definition sys_getpinfo :: "nat \<Rightarrow> 'a kstate_scheme \<Rightarrow> (sysout \<times> 'a kstate_scheme) res" where
  "sys_getpinfo p s = bindR (argaddr p 0 s) (\<lambda>ps. bindR (pinfo p ps s) (\<lambda>(r, s). sret r s))"

definition sys_mmap :: "nat \<Rightarrow> 'a kstate_scheme \<Rightarrow> (sysout \<times> 'a kstate_scheme) res" where
  "sys_mmap p s =
     bindR (argaddr p 0 s) (\<lambda>_.
     bindR (argint p 1 s) (\<lambda>len.
     bindR (argint p 2 s) (\<lambda>prot.
     bindR (argint p 3 s) (\<lambda>flags.
     bindR (argint p 5 s) (\<lambda>offset.
     bindR (argfd p 4 s) (\<lambda>a.
     case a of
       None \<Rightarrow> Inr (SRet MAP_FAILED, s)
     | Some (fd, f) \<Rightarrow>
         if prot \<noteq> PROT_READ \<and> prot \<noteq> PROT_WRITE \<and> prot \<noteq> PROT_RW then Inr (SRet MAP_FAILED, s)
         else if prot = PROT_EXEC then Inr (SRet MAP_FAILED, s)
         else if flags \<noteq> MAP_SHARED \<and> flags \<noteq> MAP_PRIVATE then Inr (SRet MAP_FAILED, s)
         else if \<not> readable (files s f) then Inr (SRet MAP_FAILED, s)
         else if flags = MAP_SHARED \<and> (prot = PROT_WRITE \<or> prot = PROT_RW) \<and> \<not> writable (files s f) then Inr (SRet MAP_FAILED, s)
         else if len < 0 then Inr (SRet MAP_FAILED, s)
         else let (addr, s) = allocvma p len prot flags f fd offset s in Inr (SRet addr, s)))))))"

definition sys_munmap :: "nat \<Rightarrow> 'a kstate_scheme \<Rightarrow> (sysout \<times> 'a kstate_scheme) res" where
  "sys_munmap p s =
     bindR (argaddr p 0 s) (\<lambda>addr.
     bindR (argint p 1 s) (\<lambda>sz.
     if addr = 0 \<or> addr mod pgsz \<noteq> 0 then sret (-1) s
     else if sz < 0 \<or> sz mod int PGSIZE \<noteq> 0 then sret (-1) s
     else if sz = 0 then sret 0 s
     else bindR (deallocvma p addr sz s) (\<lambda>(r, s). sret r s)))"

definition sys_getpagefaults :: "nat \<Rightarrow> 'a kstate_scheme \<Rightarrow> (sysout \<times> 'a kstate_scheme) res" where
  "sys_getpagefaults p s = sret (page_faults (procs s p)) s"

section \<open>Dispatch\<close>

text \<open>The table \<^verbatim>\<open>syscalls\<close>. \<open>resume\<close> is what a blocked call left behind, \<open>None\<close> at the first attempt.\<close>

definition syscalls :: "env \<Rightarrow> int option \<Rightarrow> int \<Rightarrow> (nat \<Rightarrow> 'a kstate_scheme \<Rightarrow> (sysout \<times> 'a kstate_scheme) res) option" where
  "syscalls env resume num =
     (let i = (case resume of None \<Rightarrow> 0 | Some i \<Rightarrow> i) in
      if num = 1 then Some sys_fork
      else if num = 2 then Some sys_exit
      else if num = 3 then Some sys_wait
      else if num = 4 then Some sys_pipe
      else if num = 5 then Some (\<lambda>p. sys_read p i)
      else if num = 6 then Some sys_kill
      else if num = 7 then Some sys_exec
      else if num = 8 then Some (sys_fstat env)
      else if num = 9 then Some sys_chdir
      else if num = 10 then Some sys_dup
      else if num = 11 then Some sys_getpid
      else if num = 12 then Some sys_sbrk
      else if num = 13 then Some (\<lambda>p s. sys_sleep p (case resume of None \<Rightarrow> kticks s | Some t \<Rightarrow> of_int t) s)
      else if num = 14 then Some sys_uptime
      else if num = 15 then Some sys_open
      else if num = 16 then Some (\<lambda>p. sys_write env p i)
      else if num = 17 then Some sys_mknod
      else if num = 18 then Some sys_unlink
      else if num = 19 then Some sys_link
      else if num = 20 then Some sys_mkdir
      else if num = 21 then Some sys_close
      else if num = 22 then Some sys_settickets
      else if num = 23 then Some sys_getpinfo
      else if num = 24 then Some sys_mmap
      else if num = 25 then Some sys_munmap
      else if num = 26 then Some sys_getpagefaults
      else None)"

definition syscall :: "env \<Rightarrow> int option \<Rightarrow> nat \<Rightarrow> 'a kstate_scheme \<Rightarrow> (sysout \<times> 'a kstate_scheme) res" where
  "syscall env resume p s =
     (let num = sint (ucast (tf_get p (TF_a 7) s) :: uint32) in
      case syscalls env resume num of
        None \<Rightarrow> Inr (SRet (- 1), tf_set p (TF_a 0) (- 1) s)
      | Some f \<Rightarrow>
          bindR (f p s) (\<lambda>(r, s).
          case r of SRet v \<Rightarrow> Inr (SRet v, tf_set p (TF_a 0) v s) | _ \<Rightarrow> Inr (r, s)))"

end
