(* ===== verification/Xv6_Trap.thy ===== *)
theory Xv6_Trap
  imports Xv6_Sysproc
begin

text \<open>
  Traps, \<^verbatim>\<open>kernel/trap.c\<close>: system calls, page faults and interrupts. What the hardware presents at a trap
  (its registers, the interrupt that the controller hands out, the input waiting in the UART) is an
  argument. A disk request is complete when \<^verbatim>\<open>virtio_disk_rw\<close> returns, so a disk interrupt changes
  nothing here; the driver is in \<open>Xv6_Virtio\<close>.
\<close>

section \<open>The hart\<close>

definition SSTATUS_SPP :: uint64 where "SSTATUS_SPP = 0x100"
definition SSTATUS_SPIE :: uint64 where "SSTATUS_SPIE = 0x20"
definition SSTATUS_SIE :: uint64 where "SSTATUS_SIE = 0x2"
definition UART0_IRQ :: int where "UART0_IRQ = 10"
definition VIRTIO0_IRQ :: int where "VIRTIO0_IRQ = 1"

record hart = env +
  scause :: uint64
  stval :: uint64
  sepc :: uint64
  sstatus :: uint64
  satp :: uint64
  hartid :: uint64
  irq :: int                         \<comment> \<open>what \<^verbatim>\<open>plic_claim()\<close> answers\<close>
  rx :: "byte list"                  \<comment> \<open>what \<^verbatim>\<open>uartgetc()\<close> answers before -1\<close>
  tx_ready :: "bool list"            \<comment> \<open>the answers of the status register to \<^verbatim>\<open>uartstart\<close>\<close>
  usertrap_addr :: uint64            \<comment> \<open>where the linker puts \<^verbatim>\<open>usertrap\<close>\<close>

definition MAKE_SATP :: "nat \<Rightarrow> uint64" where
  "MAKE_SATP pt = push_bit 60 8 OR drop_bit 12 (of_nat pt)"

section \<open>Page faults\<close>

text \<open>A load or store fault: the flag says whether it was solved.\<close>

definition page_fault :: "nat \<Rightarrow> uint64 \<Rightarrow> uint64 \<Rightarrow> 'a kstate_scheme \<Rightarrow> (bool \<times> 'a kstate_scheme) res" where
  "page_fault p cause addr s =
     (let phy = walkaddr (pagetable (procs s p)) addr s in
      if phy \<noteq> 0 \<and> cause = 15
      then (case find_vma p addr s of
              None \<Rightarrow> Inr (False, s)
            | Some _ \<Rightarrow> bindR (cow_fault p addr phy s) (\<lambda>s. Inr (True, s)))
      else if in_vma addr (ptext (procs s p))
      then bindR (allocPhysicalVMA (ptext (procs s p)) p addr (PTE_R OR PTE_X OR PTE_U) s) (\<lambda>s. Inr (True, s))
      else if in_vma addr (pdatav (procs s p))
      then bindR (allocPhysicalVMA (pdatav (procs s p)) p addr (PTE_R OR PTE_W OR PTE_U) s) (\<lambda>s. Inr (True, s))
      else case find_vma p addr s of
             None \<Rightarrow> Inr (False, s)
           | Some i \<Rightarrow>
               let v = vmas s (pvmas (procs s p) i) in
               bindR (allocPhysicalVMA v p addr (prot_pte (vprot v) OR PTE_U) s) (\<lambda>s. Inr (True, s)))"

text \<open>The three page faults, as \<^verbatim>\<open>usertrap\<close> and \<^verbatim>\<open>kerneltrap\<close> treat them.\<close>

definition handle_fault :: "nat \<Rightarrow> uint64 \<Rightarrow> uint64 \<Rightarrow> 'a kstate_scheme \<Rightarrow> 'a kstate_scheme res" where
  "handle_fault p cause addr s =
     (if cause = 12
      then (if in_vma addr (ptext (procs s p))
            then allocPhysicalVMA (ptext (procs s p)) p addr (PTE_R OR PTE_X OR PTE_U) s else Inr s)
      else bindR (page_fault p cause addr s) (\<lambda>(solved, s). Inr (if solved then s else setkilled p s)))"

section \<open>Interrupts\<close>

definition clockintr :: "nat \<Rightarrow> 'a kstate_scheme \<Rightarrow> 'a kstate_scheme" where
  "clockintr p s = wakeup ChTicks p (s\<lparr>kticks := kticks s + 1\<rparr>)"

definition uart_interrupt :: "hart \<Rightarrow> nat \<Rightarrow> 'a kstate_scheme \<Rightarrow> 'a kstate_scheme res" where
  "uart_interrupt h p s =
     bindR (uartintr (consoleintr (put_all (procdump s))) (rx h) (tx_ready h) (cons s)) (\<lambda>(c, wk).
     Inr (wake_all p wk (s\<lparr>cons := c\<rparr>)))"

definition devintr :: "hart \<Rightarrow> nat \<Rightarrow> 'a kstate_scheme \<Rightarrow> (int \<times> 'a kstate_scheme) res" where
  "devintr h p s =
     (if scause h AND 0x8000000000000000 \<noteq> 0 \<and> scause h AND 0xff = 9
      then bindR (if irq h = UART0_IRQ then uart_interrupt h p s else Inr s) (\<lambda>s. Inr (1, s))
      else if scause h = 0x8000000000000001
      then Inr (2, if ucast (hartid h) = (0 :: uint32) then clockintr p s else s)
      else Inr (0, s))"

section \<open>Traps from user space\<close>

text \<open>What the return to user space loads: \<^verbatim>\<open>stvec\<close>, \<^verbatim>\<open>sstatus\<close>, \<^verbatim>\<open>sepc\<close> and the user page table.\<close>

record userregs =
  u_sstatus :: uint64
  u_sepc :: uint64
  u_satp :: uint64

datatype trapout =
    ToUser userregs
  | Yielded                \<comment> \<open>back in \<^verbatim>\<open>usertrapret\<close> when the process runs again\<close>
  | Blocked chan int       \<comment> \<open>asleep in a system call\<close>
  | Exited

definition usertrapret :: "hart \<Rightarrow> nat \<Rightarrow> 'a kstate_scheme \<Rightarrow> userregs \<times> 'a kstate_scheme" where
  "usertrapret h p s =
     (let s = tf_set p TF_kernel_satp (satp h) s;
          s = tf_set p TF_kernel_sp (kstack (procs s p) + pgsz) s;
          s = tf_set p TF_kernel_trap (usertrap_addr h) s;
          s = tf_set p TF_kernel_hartid (hartid h) s
      in (\<lparr>u_sstatus = (sstatus h AND NOT SSTATUS_SPP) OR SSTATUS_SPIE,
           u_sepc = tf_get p TF_epc s,
           u_satp = MAKE_SATP (pagetable (procs s p))\<rparr>, s))"

definition do_exit :: "nat \<Rightarrow> 'a kstate_scheme \<Rightarrow> (trapout \<times> 'a kstate_scheme) res" where
  "do_exit p s = bindR (exit p (-1) s) (\<lambda>s. Inr (Exited, s))"

text \<open>The end of \<^verbatim>\<open>usertrap\<close>.\<close>

definition user_leave :: "hart \<Rightarrow> int \<Rightarrow> nat \<Rightarrow> 'a kstate_scheme \<Rightarrow> (trapout \<times> 'a kstate_scheme) res" where
  "user_leave h which_dev p s =
     (if killed p s then do_exit p s
      else if which_dev = 2 then Inr (Yielded, yield p s)
      else let (u, s) = usertrapret h p s in Inr (ToUser u, s))"

text \<open>The system call, fresh or gone on with after a sleep.\<close>

definition user_syscall :: "hart \<Rightarrow> int option \<Rightarrow> nat \<Rightarrow> 'a kstate_scheme \<Rightarrow> (trapout \<times> 'a kstate_scheme) res" where
  "user_syscall h resume p s =
     bindR (syscall (env.truncate h) resume p s) (\<lambda>(r, s).
     case r of
       SRet _ \<Rightarrow> user_leave h 0 p s
     | SBlock ch i \<Rightarrow> Inr (Blocked ch i, sleep_on p ch s)
     | SExit \<Rightarrow> Inr (Exited, s))"

definition usertrap :: "hart \<Rightarrow> nat \<Rightarrow> 'a kstate_scheme \<Rightarrow> (trapout \<times> 'a kstate_scheme) res" where
  "usertrap h p s =
     (if sstatus h AND SSTATUS_SPP \<noteq> 0 then Inl (Panic ''usertrap: not from user mode'')
      else let s = tf_set p TF_epc (sepc h) s in
        if scause h = 8
        then (if killed p s then do_exit p s
              else user_syscall h None p (tf_set p TF_epc (tf_get p TF_epc s + 4) s))
        else if scause h = 12 \<or> scause h = 13 \<or> scause h = 15
        then bindR (handle_fault p (scause h) (stval h) s) (user_leave h 0 p)
        else bindR (devintr h p s) (\<lambda>(which_dev, s).
          user_leave h which_dev p (if which_dev = 0 then setkilled p s else s)))"

section \<open>Traps from the kernel\<close>

text \<open>\<open>p = 0\<close>: the hart runs no process. Then a page fault reads fields of a null pointer and faults again
  without end.\<close>

definition kerneltrap :: "hart \<Rightarrow> nat \<Rightarrow> 'a kstate_scheme \<Rightarrow> 'a kstate_scheme res" where
  "kerneltrap h p s =
     (if sstatus h AND SSTATUS_SPP = 0 then Inl (Panic ''kerneltrap: not from supervisor mode'')
      else if sstatus h AND SSTATUS_SIE \<noteq> 0 then Inl (Panic ''kerneltrap: interrupts enabled'')
      else bindR (if scause h = 12 \<or> scause h = 13 \<or> scause h = 15
                  then (if p = 0 then Inl Diverges else handle_fault p (scause h) (stval h) s)
                  else Inr s) (\<lambda>s.
        bindR (devintr h p s) (\<lambda>(which_dev, s).
        if which_dev = 0 then Inl (Panic ''kerneltrap'')
        else Inr (if which_dev = 2 \<and> p \<noteq> 0 \<and> pstate (procs s p) = RUNNING then yield p s else s))))"

end
