(* ===== verification/Xv6_Zero.thy ===== *)
theory Xv6_Zero
  imports Xv6_Kstate Xv6_Crash
begin

text \<open>
  The state before \<^verbatim>\<open>main\<close> runs: the kernel's globals as the loader leaves them, all zero except
  \<^verbatim>\<open>nextpid\<close> and \<^verbatim>\<open>first\<close>, with a given disk. It is the starting point of the concrete runs in the
  theories above this one.
\<close>

definition zero_file :: kfile where
  "zero_file = \<lparr>ftype = FD_NONE, fref = 0, readable = False, writable = False, fpipe = 0, fip = 0, foff = 0, fmajor = 0\<rparr>"

definition zero_vma :: vma where
  "zero_vma = \<lparr>used = False, mfile = 0, vfd = 0, vip = 0, vaddr = 0, vprot = 0, vflags = 0, vsize = 0, vfilesize = 0, voffset = 0\<rparr>"

definition zero_proc :: proc where
  "zero_proc =
     \<lparr>pstate = UNUSED, pchan = None, pkilled = False, xstate = 0, pid = 0, nmp = 0, pvmas = (\<lambda>_. 0), ptext = zero_vma,
      pdatav = zero_vma, page_faults = 0, parent = 0, tickets = 0, pticks = 0, kstack = 0, psz = 0, pagetable = 0,
      trapframe = 0, pcontext = \<lparr>ctx_ra = 0, ctx_sp = 0, ctx_s = (\<lambda>_. 0)\<rparr>, ofile = (\<lambda>_. 0), cwd = 0,
      pname = replicate 16 0\<rparr>"

definition zero_inode :: inode where
  "zero_inode =
     \<lparr>idev = 0, inum = 0, iref = 0, ilk = \<lparr>locked = False, spid = 0\<rparr>, ivalid = False, itype = 0, imajor = 0, iminor = 0,
      nlink = 0, isize = 0, addrs = (\<lambda>_. 0)\<rparr>"

definition zero_pipe :: pipe where
  "zero_pipe = \<lparr>pdata = (\<lambda>_. 0), nread = 0, nwrite = 0, readopen = False, writeopen = False\<rparr>"

definition zero_sb :: superblock where
  "zero_sb = \<lparr>sb_magic = 0, sb_size = 0, sb_nblocks = 0, sb_ninodes = 0, sb_nlog = 0, sb_logstart = 0, sb_inodestart = 0,
      sb_bmapstart = 0\<rparr>"

definition zero_console :: console where
  "zero_console = \<lparr>uart_tx_buf = (\<lambda>_. 0), uart_tx_w = 0, uart_tx_r = 0, regwrites = [], cbuf = (\<lambda>_. 0), cr = 0, cw = 0, ce = 0,
      panicked = False\<rparr>"

definition fstate0 :: "(nat \<Rightarrow> block) \<Rightarrow> fstate" where
  "fstate0 D = logst.extend ((logst0 D)\<lparr>lstart := 0, lsize := 0, ldev := 0\<rparr>) \<lparr>sb = zero_sb, inodes = (\<lambda>_. zero_inode)\<rparr>"

definition kstate0 :: "(nat \<Rightarrow> block) \<Rightarrow> kstate" where
  "kstate0 D = fstate.extend (fstate0 D)
     \<lparr>files = (\<lambda>_. zero_file), pipes = (\<lambda>_. zero_pipe), procs = (\<lambda>_. zero_proc), vmas = (\<lambda>_. zero_vma), nextpid = 1,
      initproc = 0, kticks = 0, trampoline_pa = KERNBASE, forkret_addr = 0, fs_first = True, cons = zero_console\<rparr>"

lemmas zero_defs = fstate.defs logst.defs bcache.defs phys.defs fstate0_def logst0_def bcache0_def phys0_def

lemma kstate0_sel [simp]:
  "procs (kstate0 D) = (\<lambda>_. zero_proc)" "files (kstate0 D) = (\<lambda>_. zero_file)" "vmas (kstate0 D) = (\<lambda>_. zero_vma)"
  "inodes (kstate0 D) = (\<lambda>_. zero_inode)" "bufs (kstate0 D) = (\<lambda>_. zero_buf)" "pmem (kstate0 D) = (\<lambda>_. 0)"
  "freelist (kstate0 D) = None" "rref (kstate0 D) = (\<lambda>_. 0)" "kend (kstate0 D) = KERNBASE" "dsk (kstate0 D) = D"
  "woken (kstate0 D) = []" "nextpid (kstate0 D) = 1" "initproc (kstate0 D) = 0" "pipes (kstate0 D) = (\<lambda>_. zero_pipe)"
  "cons (kstate0 D) = zero_console" "kticks (kstate0 D) = 0" "sb (kstate0 D) = zero_sb"
  by (simp_all add: kstate0_def zero_defs)

lemma zero_sel [simp]:
  "pstate zero_proc = UNUSED" "pid zero_proc = 0" "\<not> pkilled zero_proc" "tickets zero_proc = 0" "pticks zero_proc = 0"
  "ofile zero_proc = (\<lambda>_. 0)" "pagetable zero_proc = 0" "trapframe zero_proc = 0" "pvmas zero_proc = (\<lambda>_. 0)"
  "ptext zero_proc = zero_vma" "pdatav zero_proc = zero_vma" "pchan zero_proc = None" "psz zero_proc = 0" "parent zero_proc = 0"
  "fref zero_file = 0" "ftype zero_file = FD_NONE" "iref zero_inode = 0" "\<not> ivalid zero_inode" "ilk zero_inode = \<lparr>locked = False, spid = 0\<rparr>"
  "\<not> used zero_vma" "vsize zero_vma = 0" "vaddr zero_vma = 0"
  by (simp_all add: zero_proc_def zero_file_def zero_inode_def zero_vma_def)

end
