(* ===== verification/Xv6_Lottery.thy ===== *)
theory Xv6_Lottery
  imports Xv6_Sched Xv6_Zero
begin

text \<open>
  Correctness of the lottery of \<open>Xv6_Sched\<close>. The reference is the list of all tickets, in the order of the
  process table, each naming its holder: drawing number \<open>r\<close> runs the holder of the ticket at position \<open>r\<close>.
  Shown: the loop of \<^verbatim>\<open>scheduler\<close> agrees with the reference, so that each runnable process wins for
  as many draws as it has tickets; the number drawn lies within the range asked for; a turn of the
  scheduler runs the winner first, and only the winner unless it has lowered its tickets while it ran.
  The limits of the 32-bit arithmetic and of the generator are
  shown as well.
\<close>

section \<open>The tickets\<close>

definition runnable :: "'a kstate_scheme \<Rightarrow> nat \<Rightarrow> bool" where
  "runnable s p \<longleftrightarrow> pstate (procs s p) = RUNNABLE"

fun lots :: "'a kstate_scheme \<Rightarrow> nat list \<Rightarrow> nat list" where
  "lots s [] = []"
| "lots s (p # ps) = (if runnable s p then replicate (nat (tickets (procs s p))) p else []) @ lots s ps"

definition tickets_ok :: "'a kstate_scheme \<Rightarrow> bool" where
  "tickets_ok s \<longleftrightarrow> (\<forall>p. runnable s p \<longrightarrow> 1 \<le> tickets (procs s p)) \<and> length (lots s [1..<NPROC + 1]) < 2 ^ 31"

lemma lots_holder: "w \<in> set (lots s ps) \<Longrightarrow> w \<in> set ps \<and> runnable s w"
  by (induction ps) (auto split: if_splits)

lemma lots_range: "w \<in> set (lots s [1..<NPROC + 1]) \<Longrightarrow> w \<in> {1..NPROC} \<and> runnable s w"
  using lots_holder[of w s "[1..<NPROC + 1]"] by (simp del: upt_Suc add: less_Suc_eq_le)

lemma count_lots:
  "distinct ps \<Longrightarrow> count_list (lots s ps) p = (if p \<in> set ps \<and> runnable s p then nat (tickets (procs s p)) else 0)"
proof (induction ps)
  case (Cons q ps)
  have "count_list (replicate n q) p = (if p = q then n else 0)" for n by (induction n) auto
  with Cons show ?case by auto
qed simp

section \<open>Signed 32-bit numbers\<close>

lemma sint_small: "0 \<le> i \<Longrightarrow> i < 2 ^ 31 \<Longrightarrow> sint (of_int i :: int32) = i"
  by (subst signed_of_int) (simp add: signed_take_bit_int_eq_self_iff)

lemma sint_diff_small:
  assumes "0 \<le> i" "i < 2 ^ 31" "0 \<le> j" "j < 2 ^ 31"
  shows "sint (of_int i - of_int j :: int32) = i - j"
proof -
  have "of_int i - of_int j = (of_int (i - j) :: int32)" by simp
  moreover have "sint (of_int (i - j) :: int32) = i - j"
    by (subst signed_of_int) (use assms in \<open>simp add: signed_take_bit_int_eq_self_iff\<close>)
  ultimately show ?thesis by simp
qed

lemma signed_compare: "(a <s b) = (sint a < sint b)" "(a \<le>s b) = (sint a \<le> sint b)" for a b :: int32
  by (simp_all add: word_sless_alt word_sle_eq)

section \<open>The draw\<close>

lemma draw_stops: "\<not> 0 <s rnd \<Longrightarrow> draw run ps rnd s = s"
  by (cases ps) auto

lemma lots_append [simp]: "lots s (ps @ qs) = lots s ps @ lots s qs"
  by (induction ps) auto

text \<open>The scan reaches the holder \<open>w\<close> of the ticket drawn with the number \<open>k\<close> of that ticket among its
  own, runs it, and goes on with what the tickets that \<open>w\<close> then has leave of \<open>k\<close>.\<close>

lemma draw_lots:
  assumes ok: "\<forall>p. runnable s p \<longrightarrow> 1 \<le> tickets (procs s p)"
    and "length (lots s ps) < 2 ^ 31" and "1 \<le> r" and "r \<le> length (lots s ps)"
  shows "\<exists>qs w qs' k s'. ps = qs @ w # qs' \<and> k = r - length (lots s qs) \<and> s' = run w (dispatch w s) \<and>
    w = lots s ps ! (r - 1) \<and> 1 \<le> k \<and> int k \<le> tickets (procs s w) \<and>
    draw run ps (of_int (int r)) s = draw run qs' (of_int (int k) - of_int (tickets (procs s' w))) s'"
  using assms(2-)
proof (induction ps arbitrary: r)
  case (Cons p ps)
  have pos: "0 <s (of_int (int r) :: int32)"
    unfolding signed_compare using Cons.prems sint_small[of "int r"] by simp
  define t where "t = (if runnable s p then tickets (procs s p) else 0)"
  have t: "0 \<le> t" "t < 2 ^ 31" "runnable s p \<longrightarrow> t = tickets (procs s p)" "length (lots s [p]) = nat t"
    using ok Cons.prems(1) by (auto simp: t_def split: if_splits)
  have le: "(of_int (int r) \<le>s (of_int t :: int32)) = (int r \<le> t)"
    unfolding signed_compare using Cons.prems t sint_small[of "int r"] sint_small[of t] by simp
  show ?case
  proof (cases "int r \<le> t")
    case True
    then have p: "runnable s p" using Cons.prems(2) by (auto simp: t_def split: if_splits)
    have "r - 1 < nat t" using True Cons.prems(2) by linarith
    then have "lots s (p # ps) ! (r - 1) = p" using p t(3) by (simp add: nth_append)
    moreover have "draw run (p # ps) (of_int (int r)) s =
        draw run ps (of_int (int r) - of_int (tickets (procs (run p (dispatch p s)) p))) (run p (dispatch p s))"
      using p pos le True t(3) by (simp add: runnable_def Let_def)
    ultimately show ?thesis
      by - (rule exI[of _ "[]"], rule exI[of _ p], rule exI[of _ ps], rule exI[of _ r],
        rule exI[of _ "run p (dispatch p s)"], use True p t(3) Cons.prems(2) in simp)
  next
    case False
    define r' where "r' = r - nat t"
    have r': "of_int (int r) - of_int t = (of_int (int r') :: int32)" using False t by (simp add: r'_def of_nat_diff)
    have step: "draw run (p # ps) (of_int (int r)) s = draw run ps (of_int (int r')) s"
      using pos le False r' t(3) by (auto simp: runnable_def Let_def t_def split: if_splits)
    have len: "length (lots s (p # ps)) = nat t + length (lots s ps)" using t(4) by simp
    then have "length (lots s ps) < 2 ^ 31" "1 \<le> r'" "r' \<le> length (lots s ps)"
      using Cons.prems False unfolding r'_def by linarith+
    from Cons.IH[OF this] obtain qs w qs' k s' where ih: "ps = qs @ w # qs'" "k = r' - length (lots s qs)"
      "s' = run w (dispatch w s)" "w = lots s ps ! (r' - 1)" "1 \<le> k" "int k \<le> tickets (procs s w)"
      "draw run ps (of_int (int r')) s = draw run qs' (of_int (int k) - of_int (tickets (procs s' w))) s'" by blast
    have "lots s (p # ps) ! (r - 1) = w"
      using False t ih(4) by (auto simp: nth_append r'_def t_def diff_commute)
    moreover have "k = r - length (lots s (p # qs))" using ih(2) t(4) by (simp add: r'_def)
    moreover have "p # ps = (p # qs) @ w # qs'" using ih(1) by simp
    ultimately show ?thesis using ih(3,5,6,7) unfolding step by blast
  qed
qed simp

text \<open>On the whole table; and the scan ends there when \<open>w\<close> has kept at least \<open>k\<close> tickets.\<close>

lemma draw_table:
  assumes "tickets_ok s" and "1 \<le> r" and "r \<le> length (lots s [1..<NPROC + 1])"
    and "w = lots s [1..<NPROC + 1] ! (r - 1)" and "k = r - length (lots s [1..<w])" and "s' = run w (dispatch w s)"
  shows "w \<in> {1..NPROC} \<and> runnable s w \<and> 1 \<le> k \<and> int k \<le> tickets (procs s w) \<and>
    draw run [1..<NPROC + 1] (of_int (int r)) s =
      draw run [w + 1..<NPROC + 1] (of_int (int k) - of_int (tickets (procs s' w))) s'"
proof -
  have "w \<in> set (lots s [1..<NPROC + 1])" unfolding assms(4) using assms(2,3) by (intro nth_mem) simp
  then have w: "w \<in> {1..NPROC}" "runnable s w" using lots_range by blast+
  from draw_lots[of s "[1..<NPROC + 1]" r run] assms(1-3) obtain qs qs' where
    q: "[1..<NPROC + 1] = qs @ w # qs'" and rest: "1 \<le> r - length (lots s qs)"
    "int (r - length (lots s qs)) \<le> tickets (procs s w)"
    "draw run [1..<NPROC + 1] (of_int (int r)) s =
      draw run qs' (of_int (int (r - length (lots s qs))) - of_int (tickets (procs s' w))) s'"
    unfolding tickets_ok_def assms(4,6) by blast
  have "[1..<NPROC + 1] = [1..<w] @ w # [w + 1..<NPROC + 1]"
    using w(1) upt_add_eq_append[of 1 w "NPROC + 1 - w"] by (simp add: upt_conv_Cons)
  moreover have "distinct (qs @ w # qs')" by (subst q[symmetric]) (rule distinct_upt)
  then have "w \<notin> set qs" "w \<notin> set qs'" by auto
  ultimately have "qs = [1..<w] \<and> qs' = [w + 1..<NPROC + 1]"
    using q append_Cons_eq_iff[of w qs qs' "[1..<w]" "[w + 1..<NPROC + 1]"] by (simp only: simp_thms)
  then show ?thesis using w rest unfolding assms(5) by metis
qed

lemma draw_rest_stops:
  assumes "int k \<le> t" "t < 2 ^ 31"
  shows "draw run ps (of_int (int k) - of_int t) s = s"
proof (rule draw_stops)
  show "\<not> 0 <s (of_int (int k) - of_int t :: int32)"
    unfolding signed_compare using assms sint_diff_small[of "int k" t] by simp
qed

text \<open>The totals that the scheduler computes in 32 bits.\<close>

lemma total_tickets_sum:
  "total_tickets s = of_int (\<Sum>p\<leftarrow>filter (runnable s) [1..<NPROC + 1]. tickets (procs s p))"
proof -
  have "fold (\<lambda>p t. if pstate (procs s p) = RUNNABLE then t + of_int (tickets (procs s p)) else t) ps t =
        t + of_int (\<Sum>p\<leftarrow>filter (runnable s) ps. tickets (procs s p))" for ps and t :: int32
    by (induction ps arbitrary: t) (auto simp: runnable_def)
  from this[of _ 0] show ?thesis by (simp add: total_tickets_def)
qed

lemma length_lots:
  "\<forall>p. runnable s p \<longrightarrow> 1 \<le> tickets (procs s p) \<Longrightarrow>
     int (length (lots s ps)) = (\<Sum>p\<leftarrow>filter (runnable s) ps. tickets (procs s p))"
  by (induction ps) auto

lemma total_tickets_lots:
  assumes "tickets_ok s"
  shows "total_tickets s = of_int (int (length (lots s [1..<NPROC + 1])))"
    and "sint (total_tickets s) = int (length (lots s [1..<NPROC + 1]))"
proof -
  show eq: "total_tickets s = of_int (int (length (lots s [1..<NPROC + 1])))"
    using assms length_lots[of s] by (simp add: tickets_ok_def total_tickets_sum)
  show "sint (total_tickets s) = int (length (lots s [1..<NPROC + 1]))"
    unfolding eq using assms by (intro sint_small) (auto simp: tickets_ok_def)
qed

section \<open>The generator\<close>

lemma crem_bound: "0 < m \<Longrightarrow> \<bar>crem x m\<bar> < m"
  by (simp add: crem_def)

lemma random_small: "\<bar>sint (random seed)\<bar> < 32768"
proof -
  have c: "\<bar>crem x 32768\<bar> < 32768" for x by (rule crem_bound) simp
  have "sint (of_int (crem x 32768) :: int32) = crem x 32768" for x
    by (subst signed_of_int) (use c[of x] in \<open>simp add: signed_take_bit_int_eq_self_iff abs_less_iff\<close>)
  then have "\<bar>sint (random_step xn)\<bar> < 32768" for xn using c by (simp add: random_step_def)
  moreover have "random seed = random_step ((random_step ^^ 9) seed)"
    by (simp add: random_def NROUNDS_def eval_nat_numeral)
  ultimately show ?thesis by simp
qed

lemma randomrange_mod:
  assumes "lo \<le>s hi" and "hi - lo + 1 \<noteq> 0"
  shows "sint lo \<le> sint (randomrange seed lo hi) \<and> sint (randomrange seed lo hi) \<le> sint hi"
proof -
  define r where "r = random seed mod (hi - lo + 1)"
  have le: "sint lo \<le> sint hi" using assms(1) by (simp add: signed_compare)
  have rng: "- (2 ^ 31) \<le> sint x \<and> sint x < 2 ^ 31" for x :: int32
    using sint_ge[of x] sint_lt[of x] by simp
  have d: "uint (hi - lo) = sint hi - sint lo"
  proof -
    have "hi - lo = of_int (sint hi - sint lo)" by simp
    then have "uint (hi - lo) = (sint hi - sint lo) mod 2 ^ 32" by (simp only: uint_word_of_int) simp
    then show ?thesis using le rng[of hi] rng[of lo] by simp
  qed
  have "uint (hi - lo + 1) = uint (hi - lo) + 1"
  proof -
    have "uint (hi - lo) + 1 \<noteq> 2 ^ 32"
    proof
      assume "uint (hi - lo) + 1 = 2 ^ 32"
      then have "uint (hi - lo + 1) = 0" by (simp add: uint_word_ariths(1))
      with assms(2) show False by (simp add: uint_0_iff)
    qed
    moreover have "uint (hi - lo) < 2 ^ 32" using uint_lt2p[of "hi - lo"] by simp
    ultimately show ?thesis by (simp add: uint_word_ariths(1))
  qed
  then have "uint r < sint hi - sint lo + 1"
    using d uint_mod[of "random seed" "hi - lo + 1"] pos_mod_bound[of "uint (hi - lo + 1)" "uint (random seed)"] uint_ge_0[of "hi - lo"]
    by (simp add: r_def)
  then have r: "0 \<le> uint r" "uint r \<le> sint hi - sint lo" by auto
  have "randomrange seed lo hi = r + lo"
    using le by (simp add: randomrange_def r_def signed_compare not_less)
  also have "\<dots> = of_int (uint r + sint lo)" by simp
  finally have eq: "randomrange seed lo hi = of_int (uint r + sint lo)" .
  have "- (2 ^ 31) \<le> uint r + sint lo" "uint r + sint lo < 2 ^ 31"
    using r rng[of hi] rng[of lo] by linarith+
  then have "sint (randomrange seed lo hi) = uint r + sint lo"
    unfolding eq by (subst signed_of_int) (simp add: signed_take_bit_int_eq_self_iff)
  with r show ?thesis by simp
qed

section \<open>Properties\<close>

text \<open>C29. The loop of the scheduler implements the lottery. Drawing number \<open>r\<close> runs the holder \<open>w\<close> of ticket \<open>r\<close>
  first; nobody before \<open>w\<close> in the table runs. What follows depends on the tickets that \<open>w\<close> has when it
  comes back, since the loop reads them again: with the number \<open>k\<close> of the drawn ticket among those of \<open>w\<close>,
  the scan goes on behind \<open>w\<close> with \<open>k\<close> less these tickets, so that nobody else runs when \<open>w\<close> has not
  lowered its tickets below \<open>k\<close>. Among all numbers each process is drawn as often as it holds tickets,
  or not at all when it is not runnable.\<close>

theorem scheduler_draw_fair:
  assumes "tickets_ok s" and "1 \<le> r" and "r \<le> length (lots s [1..<NPROC + 1])"
    and "w = lots s [1..<NPROC + 1] ! (r - 1)" and "k = r - length (lots s [1..<w])" and "s' = run w (dispatch w s)"
  shows "w \<in> {1..NPROC} \<and> runnable s w \<and> 1 \<le> k \<and> int k \<le> tickets (procs s w) \<and>
    draw run [1..<NPROC + 1] (of_int (int r)) s =
      draw run [w + 1..<NPROC + 1] (of_int (int k) - of_int (tickets (procs s' w))) s' \<and>
    (int k \<le> tickets (procs s' w) \<and> tickets (procs s' w) < 2 ^ 31 \<longrightarrow>
      draw run [1..<NPROC + 1] (of_int (int r)) s = s') \<and>
    count_list (lots s [1..<NPROC + 1]) p = (if p \<in> {1..NPROC} \<and> runnable s p then nat (tickets (procs s p)) else 0)"
proof -
  have "count_list (lots s [1..<NPROC + 1]) p =
      (if p \<in> {1..NPROC} \<and> runnable s p then nat (tickets (procs s p)) else 0)"
    by (subst count_lots) (auto simp: less_Suc_eq_le)
  then show ?thesis using draw_table[where run = run, OF assms] draw_rest_stops[of k "tickets (procs s' w)"] by metis
qed

text \<open>\<^verbatim>\<open>randomrange\<close> stays within the two bounds it is given, in either order and for every seed, unless they span
  all 32-bit numbers (then the range is 0 and the division undefined).\<close>

theorem randomrange_bounds:
  assumes "hi - lo + 1 \<noteq> 0" and "lo - hi + 1 \<noteq> 0"
  shows "min (sint lo) (sint hi) \<le> sint (randomrange seed lo hi) \<and>
         sint (randomrange seed lo hi) \<le> max (sint lo) (sint hi)"
proof (cases "hi <s lo")
  case True
  then have "randomrange seed lo hi = randomrange seed hi lo" by (auto simp: randomrange_def signed_compare)
  with True randomrange_mod[of hi lo seed] assms(2) show ?thesis by (simp add: signed_compare)
next
  case False
  with randomrange_mod[of lo hi seed] assms(1) show ?thesis by (simp add: signed_compare not_less)
qed

theorem randomrange_bounds_witness:
  "1 \<le> sint (randomrange 7 1 5) \<and> sint (randomrange 7 1 5) \<le> 5"
  using randomrange_bounds[of "5 :: int32" 1 7] by simp

text \<open>C30. Progress: when some process is runnable and the tickets in play sum up to less than $2^{31}$, one turn of the
  scheduler's loop runs a runnable process \<open>w\<close>, with a drawn ticket \<open>k\<close> among those of \<open>w\<close>, and then goes on
  with the rest of the table and \<open>k\<close> less the tickets that \<open>w\<close> has left. The turn runs \<open>w\<close> only when \<open>w\<close> did
  not lower its tickets while it ran; \<^verbatim>\<open>settickets\<close> lets it, and then the turn may run another process.\<close>

theorem scheduler_turn_runs_one:
  assumes ok: "tickets_ok s" and p: "p \<in> {1..NPROC}" "runnable s p"
  shows "\<exists>w k s'. w \<in> {1..NPROC} \<and> runnable s w \<and> 1 \<le> k \<and> int k \<le> tickets (procs s w) \<and> s' = run w (dispatch w s) \<and>
    scheduler_turn run s = draw run [w + 1..<NPROC + 1] (of_int (int k) - of_int (tickets (procs s' w))) s' \<and>
    (tickets (procs s w) \<le> tickets (procs s' w) \<and> tickets (procs s' w) < 2 ^ 31 \<longrightarrow> scheduler_turn run s = s')"
proof -
  define L where "L = lots s [1..<NPROC + 1]"
  have "1 \<le> tickets (procs s p)" using ok p by (simp add: tickets_ok_def)
  then have "count_list L p \<noteq> 0" using p unfolding L_def by (subst count_lots) auto
  then have ne: "1 \<le> length L" by (cases L) auto
  note total = total_tickets_lots[OF ok, folded L_def]
  define rnd where "rnd = randomrange (total_tickets s + total_ticks s) 1 (total_tickets s)"
  have "1 \<le> sint rnd \<and> sint rnd \<le> int (length L)"
  proof -
    have "total_tickets s \<noteq> 0" using total(2) ne by auto
    moreover have "1 \<le>s total_tickets s" unfolding signed_compare using total(2) ne by simp
    ultimately show ?thesis
      using randomrange_mod[of 1 "total_tickets s" "total_tickets s + total_ticks s"] total(2) by (simp add: rnd_def)
  qed
  then have r: "1 \<le> nat (sint rnd)" "nat (sint rnd) \<le> length L" by linarith+
  have "int (nat (sint rnd)) = sint rnd" using r(1) by linarith
  then have "rnd = of_int (int (nat (sint rnd)))" by simp
  moreover have "\<not> total_tickets s <s 1" unfolding signed_compare using total(2) ne by auto
  ultimately have turn: "scheduler_turn run s = draw run [1..<NPROC + 1] (of_int (int (nat (sint rnd)))) s"
    by (simp add: scheduler_turn_def rnd_def[symmetric] Let_def)
  obtain w k s' where w: "w = L ! (nat (sint rnd) - 1)" "k = nat (sint rnd) - length (lots s [1..<w])"
    "s' = run w (dispatch w s)" by blast
  note t = draw_table[where run = run, OF ok r(1) r(2)[unfolded L_def] w(1)[unfolded L_def] w(2,3)]
  moreover have "scheduler_turn run s = s'" if "tickets (procs s w) \<le> tickets (procs s' w)" "tickets (procs s' w) < 2 ^ 31"
    unfolding turn using t that draw_rest_stops[of k "tickets (procs s' w)"] by (metis order_trans)
  ultimately show ?thesis using turn w(3) by metis
qed

text \<open>A machine with two runnable processes.\<close>

definition two_procs :: "int \<Rightarrow> int \<Rightarrow> kstate" where
  "two_procs t u =
     upd_proc 1 (\<lambda>x. x\<lparr>pstate := RUNNABLE, tickets := t\<rparr>) (upd_proc 2 (\<lambda>x. x\<lparr>pstate := RUNNABLE, tickets := u\<rparr>) (kstate0 (\<lambda>_ _. 0)))"

lemma two_procs_sel:
  "runnable (two_procs t u) p \<longleftrightarrow> p = 1 \<or> p = 2" "tickets (procs (two_procs t u) 1) = t" "tickets (procs (two_procs t u) 2) = u"
  by (auto simp: two_procs_def runnable_def upd_proc_def)

lemma two_procs_lots: "lots (two_procs t u) [1..<NPROC + 1] = replicate (nat t) 1 @ replicate (nat u) 2"
proof -
  have "lots (two_procs t u) ps = []" if "\<forall>p\<in>set ps. 3 \<le> p" for ps
    using that by (induction ps) (auto simp: two_procs_sel)
  from this[of "[3..<NPROC + 1]"] have rest: "lots (two_procs t u) [3..<NPROC + 1] = []" by (simp del: upt_Suc)
  have "[1..<NPROC + 1] = 1 # 2 # [3..<NPROC + 1]" by (simp add: NPROC_def upt_conv_Cons del: upt_Suc)
  then show ?thesis using rest two_procs_sel(2,3)[of t u] by (simp add: two_procs_sel(1) del: upt_Suc)
qed

lemma two_procs_ok: "1 \<le> t \<Longrightarrow> 1 \<le> u \<Longrightarrow> t + u < 2 ^ 31 \<Longrightarrow> tickets_ok (two_procs t u)"
  unfolding tickets_ok_def two_procs_lots using two_procs_sel(2,3)[of t u] by (auto simp: two_procs_sel)

theorem scheduler_draw_fair_witness:
  "draw (\<lambda>p s. s) [1..<NPROC + 1] (of_int (int 4)) (two_procs 3 2) = dispatch 2 (two_procs 3 2) \<and>
   count_list (lots (two_procs 3 2) [1..<NPROC + 1]) 1 = 3"
proof -
  have L: "lots (two_procs 3 2) [1..<NPROC + 1] = [1, 1, 1, 2, 2]"
    unfolding two_procs_lots by (simp add: eval_nat_numeral)
  have ok: "tickets_ok (two_procs 3 2)" by (rule two_procs_ok) simp_all
  have t: "int 1 \<le> tickets (procs (dispatch 2 (two_procs 3 2)) 2) \<and> tickets (procs (dispatch 2 (two_procs 3 2)) 2) < 2 ^ 31"
    by (simp add: dispatch_def upd_proc_def two_procs_sel(3))
  have "lots (two_procs 3 2) [1..<2] = [1, 1, 1]"
    using two_procs_sel(2)[of 3 2] by (simp add: two_procs_sel(1) upt_conv_Cons eval_nat_numeral)
  then have "1 = 4 - length (lots (two_procs 3 2) [1..<2])" "2 = lots (two_procs 3 2) [1..<NPROC + 1] ! (4 - 1)"
    "4 \<le> length (lots (two_procs 3 2) [1..<NPROC + 1])" unfolding L by simp_all
  from scheduler_draw_fair[where run = "\<lambda>p s. s", OF ok one_le_numeral this(3,2,1) refl] t
  have "draw (\<lambda>p s. s) [1..<NPROC + 1] (of_int (int 4)) (two_procs 3 2) = dispatch 2 (two_procs 3 2)" by blast
  then show ?thesis unfolding L by (simp del: draw.simps upt_Suc)
qed

theorem scheduler_turn_runs_one_witness:
  "\<exists>w k s'. w \<in> {1..NPROC} \<and> runnable (two_procs 3 2) w \<and> 1 \<le> k \<and> int k \<le> tickets (procs (two_procs 3 2) w) \<and>
    s' = dispatch w (two_procs 3 2) \<and> scheduler_turn (\<lambda>p s. s) (two_procs 3 2) = s'"
proof -
  have "tickets_ok (two_procs 3 2)" by (rule two_procs_ok) simp_all
  moreover have "1 \<in> {1..NPROC}" "runnable (two_procs 3 2) 1" by (simp_all add: NPROC_def two_procs_sel(1))
  ultimately obtain w k s' where w: "w \<in> {1..NPROC}" "runnable (two_procs 3 2) w" "1 \<le> k"
    "int k \<le> tickets (procs (two_procs 3 2) w)" "s' = dispatch w (two_procs 3 2)"
    "tickets (procs (two_procs 3 2) w) \<le> tickets (procs s' w) \<and> tickets (procs s' w) < 2 ^ 31 \<longrightarrow>
      scheduler_turn (\<lambda>p s. s) (two_procs 3 2) = s'"
    using scheduler_turn_runs_one[of "two_procs 3 2" 1 "\<lambda>p s. s"] by blast
  then have "tickets (procs s' w) = tickets (procs (two_procs 3 2) w)" "tickets (procs s' w) < 2 ^ 31"
    using two_procs_sel(2,3)[of 3 2] by (auto simp: dispatch_def upd_proc_def two_procs_sel(1))
  with w show ?thesis by (metis order_refl)
qed

text \<open>The sum of the tickets overflows: with two runnable processes that hold $2^{30}$ tickets each, a number that
  \<^verbatim>\<open>settickets\<close> accepts, the scheduler finds no process to run, turn after turn.\<close>

theorem tickets_overflow_stops_scheduling:
  assumes "p \<in> {1..NPROC}" "q \<in> {1..NPROC}" "p \<noteq> q" and "\<And>r. runnable s r \<longleftrightarrow> r = p \<or> r = q"
    and "tickets (procs s p) = 2 ^ 30" and "tickets (procs s q) = 2 ^ 30"
  shows "scheduler_turn run s = s"
proof -
  have "{r \<in> {1..<NPROC + 1}. runnable s r} = {p, q}" unfolding assms(4) using assms(1,2) by auto
  then have "set (filter (runnable s) [1..<NPROC + 1]) = {p, q}" by (simp only: set_filter set_upt)
  moreover have "distinct (filter (runnable s) [1..<NPROC + 1])" by simp
  ultimately have "(\<Sum>r\<leftarrow>filter (runnable s) [1..<NPROC + 1]. tickets (procs s r)) = (\<Sum>r\<in>{p, q}. tickets (procs s r))"
    by (metis sum_list_distinct_conv_sum_set)
  then have "total_tickets s = of_int (2 ^ 31)" using assms(3,5,6) by (simp add: total_tickets_sum)
  then have "sint (total_tickets s) = - (2 ^ 31)" by simp
  then show ?thesis by (simp add: scheduler_turn_def signed_compare)
qed

theorem tickets_overflow_stops_scheduling_witness:
  "scheduler_turn (\<lambda>p s. s) (two_procs (2 ^ 30) (2 ^ 30)) = two_procs (2 ^ 30) (2 ^ 30)"
proof (rule tickets_overflow_stops_scheduling)
  show "(1 :: nat) \<in> {1..NPROC}" "(2 :: nat) \<in> {1..NPROC}" by (simp_all add: NPROC_def)
qed (simp_all add: two_procs_sel del: One_nat_def)

text \<open>The generator reaches few numbers: with more than 65535 tickets in play there is a ticket that is never drawn,
  whatever the seed.\<close>

theorem some_ticket_never_drawn:
  assumes "65535 < T" and "T < 2 ^ 31"
  shows "\<exists>r \<in> {1..T}. \<forall>seed. sint (randomrange seed 1 (of_int T)) \<noteq> r"
proof -
  define f where "f v = sint ((of_int v :: int32) mod (of_int T - 1 + 1) + 1)" for v
  have T: "sint (of_int T :: int32) = T" using assms by (intro sint_small) auto
  have "randomrange seed 1 (of_int T) = random seed mod (of_int T - 1 + 1) + 1" for seed
    using assms T by (simp add: randomrange_def signed_compare)
  then have f: "sint (randomrange seed 1 (of_int T)) = f (sint (random seed))" for seed by (simp add: f_def)
  have sub: "range (\<lambda>seed. sint (randomrange seed 1 (of_int T))) \<subseteq> f ` {- 32767..32767}"
  proof safe
    fix seed
    have "sint (random seed) \<in> {- 32767..32767}" using random_small[of seed] by (simp add: abs_less_iff)
    then show "sint (randomrange seed 1 (of_int T)) \<in> f ` {- 32767..32767}" unfolding f by (rule imageI)
  qed
  have "card (range (\<lambda>seed. sint (randomrange seed 1 (of_int T)))) \<le> card (f ` {- 32767..32767})"
    by (rule card_mono[OF _ sub]) simp
  also have "\<dots> \<le> card {- 32767..32767 :: int}" by (rule card_image_le) simp
  also have "\<dots> < card {1..T}" using assms by simp
  finally have "\<not> {1..T} \<subseteq> range (\<lambda>seed. sint (randomrange seed 1 (of_int T)))"
    using card_mono[OF finite_subset[OF sub]] by (meson finite_atLeastAtMost_int finite_imageI not_le)
  then obtain r where "r \<in> {1..T}" "r \<notin> range (\<lambda>seed. sint (randomrange seed 1 (of_int T)))" by blast
  then show ?thesis by (intro bexI[of _ r]) (auto simp: eq_commute)
qed

theorem some_ticket_never_drawn_witness:
  "\<exists>r \<in> {1..100000}. \<forall>seed. sint (randomrange seed 1 100000) \<noteq> r"
  using some_ticket_never_drawn[of 100000] by simp

end
