(* ===== verification/Xv6_Path.thy ===== *)
theory Xv6_Path
  imports Xv6_Fs
begin

text \<open>
  Path names. \<^verbatim>\<open>skipelem\<close> and the loop of \<^verbatim>\<open>namex\<close> in \<open>Xv6_Fs\<close> walk over a character array; the
  reference splits the path at its slashes, drops the empty pieces and walks over the list of names.
  Shown: both agree, in every outcome, whatever the buffer for names held before.
\<close>

section \<open>Names in buffers\<close>

text \<open>What a buffer of \<^verbatim>\<open>DIRSIZ\<close> bytes says.\<close>

definition cname :: "byte list \<Rightarrow> byte list" where
  "cname name = takeWhile (\<lambda>b. b \<noteq> 0) (take DIRSIZ name)"

definition name_buf :: "byte list \<Rightarrow> byte list" where
  "name_buf e = take DIRSIZ (e @ replicate DIRSIZ 0)"

lemma takeWhile_pad: "takeWhile (\<lambda>b. b \<noteq> (0 :: byte)) (xs @ replicate n 0) = takeWhile (\<lambda>b. b \<noteq> 0) xs"
  by (induction xs) (auto simp: takeWhile_replicate)

lemma takeWhile_stop: "(0 :: byte) \<notin> set xs \<Longrightarrow> takeWhile (\<lambda>b. b \<noteq> 0) (xs @ 0 # ys) = xs"
  by (induction xs) auto

lemma cname_name_buf: "0 \<notin> set e \<Longrightarrow> cname (name_buf e) = take DIRSIZ e"
proof -
  assume "0 \<notin> set e"
  then have nz: "0 \<notin> set (take DIRSIZ e)" by (meson in_set_takeD)
  have "take DIRSIZ (take DIRSIZ (e @ replicate DIRSIZ 0)) = take DIRSIZ e @ replicate (DIRSIZ - length e) 0"
    by (simp add: min_def)
  then have "cname (name_buf e) = takeWhile (\<lambda>b. b \<noteq> 0) (take DIRSIZ e)"
    by (simp only: cname_def name_buf_def takeWhile_pad)
  with nz show ?thesis by (auto simp: takeWhile_eq_all_conv)
qed

lemma cprefix_array:
  assumes "\<And>i. i < n \<Longrightarrow> m (a + i) = (if i < length xs then xs ! i else 0)"
  shows "cprefix m a n = takeWhile (\<lambda>b. b \<noteq> 0) (take n xs)"
proof -
  have "rdbytes m a n = take n xs @ replicate (n - length xs) 0"
    using assms by (intro nth_equalityI) (auto simp: nth_append min_def)
  then show ?thesis by (simp add: cprefix_def takeWhile_pad)
qed

lemma namecmp_zero_iff: "length xs \<le> 16 \<Longrightarrow> namecmp xs ys = 0 \<longleftrightarrow> cname xs = cname ys"
proof -
  assume l: "length xs \<le> 16"
  have "cprefix (pair_mem xs ys) 0 DIRSIZ = cname xs" unfolding cname_def
    using l by (intro cprefix_array) (auto simp: pair_mem_def wrbytes_def DIRSIZ_def)
  moreover have "cprefix (pair_mem xs ys) 16 DIRSIZ = cname ys" unfolding cname_def
    using l by (intro cprefix_array) (auto simp: pair_mem_def wrbytes_def DIRSIZ_def)
  ultimately show ?thesis by (simp add: namecmp_def strncmp_zero_iff)
qed

text \<open>A directory lookup depends on a name only as far as the name goes.\<close>

lemma dirlookup_cname:
  assumes "cname xs = cname ys" "length xs \<le> 16" "length ys \<le> 16"
  shows "dirlookup me dp xs s = dirlookup me dp ys s"
proof -
  have "dirlookup_loop me dp xs offs s = dirlookup_loop me dp ys offs s" for offs
    by (induction offs arbitrary: s) (auto simp: namecmp_zero_iff assms intro!: bindR_cong)
  then show ?thesis by (simp add: dirlookup_def)
qed

section \<open>Elements\<close>

fun split_slash :: "byte list \<Rightarrow> byte list list" where
  "split_slash [] = [[]]"
| "split_slash (c # cs) =
     (if c = slash then [] # split_slash cs
      else case split_slash cs of [] \<Rightarrow> [[c]] | e # es \<Rightarrow> (c # e) # es)"

definition path_elems :: "byte list \<Rightarrow> byte list list" where
  "path_elems path = filter (\<lambda>e. e \<noteq> []) (split_slash path)"

lemma split_slash_ne [simp]: "split_slash p \<noteq> []"
  by (induction p) (auto split: list.splits)

lemma path_elems_Nil [simp]: "path_elems [] = []"
  by (simp add: path_elems_def)

lemma path_elems_slash [simp]: "path_elems (slash # p) = path_elems p"
  by (simp add: path_elems_def)

lemma path_elems_skip: "path_elems (dropWhile (\<lambda>c. c = slash) p) = path_elems p"
  by (induction p) auto

lemma split_slash_elem:
  "split_slash p = takeWhile (\<lambda>c. c \<noteq> slash) p #
     (case dropWhile (\<lambda>c. c \<noteq> slash) p of [] \<Rightarrow> [] | _ # q \<Rightarrow> split_slash q)"
  by (induction p) (auto split: list.splits)

lemma path_elems_elem:
  assumes "p \<noteq> []" "hd p \<noteq> slash"
  shows "path_elems p = takeWhile (\<lambda>c. c \<noteq> slash) p # path_elems (dropWhile (\<lambda>c. c \<noteq> slash) p)"
proof -
  have "takeWhile (\<lambda>c. c \<noteq> slash) p \<noteq> []" using assms by (cases p) auto
  moreover have "path_elems (dropWhile (\<lambda>c. c \<noteq> slash) p) =
      filter (\<lambda>e. e \<noteq> []) (case dropWhile (\<lambda>c. c \<noteq> slash) p of [] \<Rightarrow> [] | _ # q \<Rightarrow> split_slash q)"
  proof (cases "dropWhile (\<lambda>c. c \<noteq> slash) p")
    case (Cons c q)
    then have "c = slash" using hd_dropWhile[of "\<lambda>c. c \<noteq> slash" p] by auto
    with Cons show ?thesis by (simp add: path_elems_def)
  next
    case Nil
    show ?thesis unfolding Nil by simp
  qed
  ultimately show ?thesis by (simp add: path_elems_def split_slash_elem[of p])
qed

lemma path_elems_empty: "p = [] \<or> hd p \<noteq> slash \<Longrightarrow> path_elems p = [] \<longleftrightarrow> p = []"
  by (cases "p = []") (simp_all add: path_elems_elem)

lemma skipelem_elems:
  assumes "length name = DIRSIZ" "0 \<notin> set path"
  shows "case skipelem path name of
           None \<Rightarrow> path_elems path = []
         | Some (path', name') \<Rightarrow>
             (\<exists>e. path_elems path = e # path_elems path' \<and> cname name' = take DIRSIZ e \<and> 0 \<notin> set e) \<and>
             length name' = DIRSIZ \<and> 0 \<notin> set path' \<and> (path' = [] \<longleftrightarrow> path_elems path' = [])"
proof -
  define p where "p = dropWhile (\<lambda>c. c = slash) path"
  define e where "e = takeWhile (\<lambda>c. c \<noteq> slash) p"
  define r where "r = dropWhile (\<lambda>c. c = slash) (dropWhile (\<lambda>c. c \<noteq> slash) p)"
  define name' where "name' = (if length e \<ge> DIRSIZ then take DIRSIZ e else e @ 0 # drop (length e + 1) name)"
  have skip: "skipelem path name = (if p = [] then None else Some (r, name'))"
    by (simp add: skipelem_def Let_def p_def e_def r_def name'_def)
  have path: "path_elems path = path_elems p" by (simp add: p_def path_elems_skip)
  have sub: "set p \<subseteq> set path" "set e \<subseteq> set p" "set r \<subseteq> set p"
    by (auto simp: p_def e_def r_def dest!: set_dropWhileD set_takeWhileD)
  then have nz: "0 \<notin> set e" "0 \<notin> set r" using assms(2) by auto
  have len: "length name' = DIRSIZ" using assms(1) by (auto simp: name'_def)
  have cname: "cname name' = take DIRSIZ e"
    using nz(1) takeWhile_stop[of e]
    by (auto simp: cname_def name'_def takeWhile_eq_all_conv take_Cons' dest: in_set_takeD)
  have "r = [] \<or> hd r \<noteq> slash" using hd_dropWhile[of "\<lambda>c. c = slash"] by (auto simp: r_def)
  then have re: "r = [] \<longleftrightarrow> path_elems r = []" using path_elems_empty by blast
  show ?thesis
  proof (cases "p = []")
    case True
    then show ?thesis using path by (simp add: skip)
  next
    case False
    then have "hd p \<noteq> slash" using hd_dropWhile[of "\<lambda>c. c = slash" path] by (simp add: p_def)
    from path_elems_elem[OF False this] have "path_elems path = e # path_elems r"
      by (simp add: path e_def r_def path_elems_skip)
    then show ?thesis using False len cname nz re by (simp add: skip)
  qed
qed

section \<open>The walk\<close>

text \<open>Walking over a list of names: the inode, and the last name when the walk stops at its parent.\<close>

fun walk_names :: "int \<Rightarrow> byte list list \<Rightarrow> bool \<Rightarrow> nat \<Rightarrow> 'a fstate_scheme \<Rightarrow> (nat \<times> byte list \<times> 'a fstate_scheme) res" where
  "walk_names me [] parent ip s =
     (if parent then bindR (iput me ip s) (\<lambda>s. Inr (0, [], s)) else Inr (ip, [], s))"
| "walk_names me (e # es) parent ip s =
     bindR (ilock me ip s) (\<lambda>s.
     if itype (inodes s ip) \<noteq> T_DIR then bindR (iunlockput me ip s) (\<lambda>s. Inr (0, [], s))
     else if parent \<and> es = [] then bindR (iunlock me ip s) (\<lambda>s. Inr (ip, take DIRSIZ e, s))
     else bindR (dirlookup me ip (name_buf e) s) (\<lambda>(next, _, s).
          if next = 0 then bindR (iunlockput me ip s) (\<lambda>s. Inr (0, [], s))
          else bindR (iunlockput me ip s) (walk_names me es parent next)))"

definition name_out :: "bool \<Rightarrow> nat \<times> byte list \<times> 's \<Rightarrow> (nat \<times> byte list \<times> 's) res" where
  "name_out parent r = (case r of (ip, name, s) \<Rightarrow> Inr (ip, if parent \<and> ip \<noteq> 0 then cname name else [], s))"

lemma name_out_app [simp]: "name_out parent (ip, name, s) = Inr (ip, if parent \<and> ip \<noteq> 0 then cname name else [], s)"
  by (simp add: name_out_def)

lemma namex_loop_Nil: "namex_loop me [] False name ip s = Inr (ip, name, s)"
  by (simp add: namex_loop.simps[of me "[]"] skipelem_def)

lemma namex_loop_elems:
  "length name = DIRSIZ \<Longrightarrow> 0 \<notin> set path \<Longrightarrow>
   bindR (namex_loop me path parent name ip s) (name_out parent) = walk_names me (path_elems path) parent ip s"
proof (induction me path parent name ip s rule: namex_loop.induct)
  case (1 me path parent name ip s)
  show ?case
  proof (cases "skipelem path name")
    case None
    then have "path_elems path = []" using skipelem_elems[OF 1(2,3)] by simp
    then show ?thesis using None by (simp add: namex_loop.simps[of me path] bindR_assoc)
  next
    case (Some pn)
    then obtain path' name' where sk: "skipelem path name = Some (path', name')" by (cases pn) auto
    then obtain e where e: "path_elems path = e # path_elems path'" "cname name' = take DIRSIZ e" "0 \<notin> set e"
      and n: "length name' = DIRSIZ" "0 \<notin> set path'" "path' = [] \<longleftrightarrow> path_elems path' = []"
      using skipelem_elems[OF 1(2,3)] by auto
    have look: "dirlookup me ip name' t = dirlookup me ip (name_buf e) t" for t
      using e(2) n(1) cname_name_buf[OF e(3)] by (intro dirlookup_cname) (simp_all add: DIRSIZ_def name_buf_def)
    have ip: "ip \<noteq> 0" if "ilock me ip s = Inr t" for t using that by (cases "ip = 0") (auto simp: ilock_def)
    have IH: "bindR (namex_loop me path' parent name' nx u) (name_out parent) = walk_names me (path_elems path') parent nx u"
      if "ilock me ip s = Inr t" "\<not> itype (inodes t ip) \<noteq> T_DIR" "\<not> (parent \<and> path' = [])"
        "dirlookup me ip name' t = Inr (nx, x, t')" "nx \<noteq> 0" "iunlockput me ip t' = Inr u" for t nx x t' u
      using 1(1)[OF sk refl that(1-4) refl refl that(5,6) n(1,2)] .
    show ?thesis
      unfolding namex_loop.simps[of me path] sk e(1)
      using ip e(2) n(3) by (auto simp: bindR_assoc look[symmetric] IH namex_loop_Nil intro!: bindR_cong split: prod.splits)
  qed
qed

text \<open>C31. Path lookup is the walk over the names of the path: splitting at slashes, dropping empty pieces and cutting
  each name to \<^verbatim>\<open>DIRSIZ\<close> bytes. This holds for every path and every state, including errors and the
  name that \<^verbatim>\<open>nameiparent\<close> reports, and does not depend on what the name buffer held.\<close>

theorem namex_walks_elements:
  assumes "length name = DIRSIZ" and "0 \<notin> set path"
  shows "bindR (namex me cwd path parent name s) (name_out parent) =
         bindR (if path \<noteq> [] \<and> hd path = slash then iget ROOTDEV ROOTINO s else Inr (idup cwd s)) (\<lambda>(ip, s).
         walk_names me (path_elems path) parent ip s)"
  unfolding namex_def bindR_assoc
  by (intro bindR_cong refl) (auto simp: namex_loop_elems[OF assms])

theorem namex_walks_elements_witness:
  "path_elems [47, 47, 97, 98, 47, 47, 99, 47] = [[97, 98], [99]] \<and>
   (\<forall>s :: fstate. bindR (namex 1 0 [47, 47, 97, 98, 47, 47, 99, 47] False (replicate DIRSIZ 7) s) (name_out False) =
      bindR (iget ROOTDEV ROOTINO s) (\<lambda>(ip, s). walk_names 1 [[97, 98], [99]] False ip s))"
proof (intro conjI allI)
  show e: "path_elems [47, 47, 97, 98, 47, 47, 99, 47] = [[97, 98], [99]]" by (simp add: path_elems_def slash_def)
  fix s :: fstate
  from namex_walks_elements[of "replicate DIRSIZ 7" "[47, 47, 97, 98, 47, 47, 99, 47]" 1 0 False s]
  show "bindR (namex 1 0 [47, 47, 97, 98, 47, 47, 99, 47] False (replicate DIRSIZ 7) s) (name_out False) =
      bindR (iget ROOTDEV ROOTINO s) (\<lambda>(ip, s). walk_names 1 [[97, 98], [99]] False ip s)"
    unfolding e by (simp add: slash_def)
qed

end
