(* ===== verification/Xv6_Blocks.thy ===== *)
theory Xv6_Blocks
  imports Xv6_Fs
begin

text \<open>
  The free-block bitmap, \<^verbatim>\<open>balloc\<close> and \<^verbatim>\<open>bfree\<close> of \<^verbatim>\<open>kernel/fs.c\<close>, inside a transaction. Shown: \<^verbatim>\<open>balloc\<close>
  finds a free block whenever there is one, marks that block and no other, zeroes it, and leaves
  every other block alone; \<^verbatim>\<open>bfree\<close> undoes the marking. The rules about room in the log that the
  other file system theories use are here too.
\<close>

section \<open>Room in a transaction\<close>

text \<open>\<open>k\<close> more blocks may be logged; at most one buffer is locked, none when nothing may be logged.\<close>

definition room :: "nat \<Rightarrow> 'a logst_scheme \<Rightarrow> bool" where
  "room k s \<longleftrightarrow> txn_inv s \<and> 0 < outstanding s \<and> ln s + int k < lsize s \<and> lsize s \<le> int LOGSIZE \<and>
     card (locked_blocks s) \<le> (if k = 0 then 0 else 1) \<and> finite (locked_blocks s)"

lemma card_logged: "txn_inv s \<Longrightarrow> card (logged s) = nat (ln s) \<and> finite (logged s)"
  by (auto simp: txn_inv_def logged_def card_image)

lemma room_buffer: "room k s \<Longrightarrow> buffer_room s"
proof -
  assume r: "room k s"
  have c: "card (logged s) = nat (ln s)" "0 \<le> ln s" using card_logged[of s] r by (auto simp: room_def txn_inv_def)
  have "card (logged s \<union> locked_blocks s) \<le> nat (ln s) + (if k = 0 then 0 else 1)"
    using card_Un_le[of "logged s" "locked_blocks s"] c r by (auto simp: room_def)
  also have "\<dots> < NBUF" using r c(2) by (auto simp: room_def NBUF_def LOGSIZE_def)
  finally show ?thesis by (simp add: buffer_room_def)
qed

lemma room_inv: "room k s \<Longrightarrow> txn_inv s"
  by (simp add: room_def)

lemma room_log: "room (Suc k) s \<Longrightarrow> log_room s"
  by (auto simp: room_def log_room_def)

lemma room_mono: "room k s \<Longrightarrow> j \<le> k \<Longrightarrow> 0 < j \<Longrightarrow> room j s"
  by (auto simp: room_def split: if_splits)

lemma room_absc:
  assumes "room k s" "txn_inv s'" "absc s' = absc s" "bframe s s'" "logged s' = logged s"
  shows "room k s'"
proof -
  have "nat (ln s') = nat (ln s)" "0 \<le> ln s" "0 \<le> ln s'"
    using card_logged[OF assms(2)] card_logged[of s] assms(1,2,5) by (auto simp: room_def txn_inv_def)
  then show ?thesis using assms bframe_lframe[OF assms(4)] lframe_sel(2,3)[of s s']
    by (auto simp: room_def locked_blocks_def)
qed

lemma room_step:
  assumes "room (Suc k) s" "txn_step {b} s s'" "0 < k \<or> locked_blocks s = {}"
  shows "room k s'"
proof -
  have t: "txn_inv s'" "lframe s s'" "vlock (absc s') = vlock (absc s)" "logged s' = logged s \<union> {b}"
    using assms(2) by (auto simp: txn_step_def)
  have "nat (ln s') \<le> nat (ln s) + 1" "0 \<le> ln s" "0 \<le> ln s'"
    using card_logged[OF t(1)] card_logged[of s] card_Un_le[of "logged s" "{b}"] assms(1) t
    by (auto simp: room_def txn_inv_def)
  then show ?thesis using assms(1,3) t lframe_sel(2,3)[OF t(2)]
    by (auto simp: room_def locked_blocks_def)
qed

lemma lframe_sb: "lframe s s' \<Longrightarrow> sb s' = sb s" "lframe s s' \<Longrightarrow> inodes s' = inodes s"
  by (auto simp: lframe_def)

lemma txn_step_trans:
  "txn_step A s t \<Longrightarrow> txn_step B t u \<Longrightarrow> txn_step (A \<union> B) s u"
  using lframe_trans[of s t u] by (auto simp: txn_step_def)

lemma absc_blk: "absc s' = absc s \<Longrightarrow> blk s' = blk s"
  using absc_vdsk(2)[of s' "absc s"] absc_vdsk(2)[of s "absc s"] by metis

lemma txn_step_refl:
  "txn_inv s' \<Longrightarrow> absc s' = absc s \<Longrightarrow> bframe s s' \<Longrightarrow> logged s' = logged s \<Longrightarrow> txn_step {} s s'"
  using absc_blk[of s' s] bframe_lframe[of s s'] by (simp add: txn_step_def)

section \<open>Bits\<close>

lemma bit_free_bit: "bit_free d bi \<longleftrightarrow> \<not> bit (d (bi div 8)) (bi mod 8)"
  by (simp add: bit_free_def bmask_def and_exp_eq_0_iff_not_bit)

lemma byte_pos_inj: "bi div 8 = bj div 8 \<Longrightarrow> bi mod 8 = bj mod 8 \<Longrightarrow> bi = (bj :: nat)"
  by (metis div_mult_mod_eq)

lemma set_bit_free:
  "bit_free (d(bi div 8 := d (bi div 8) OR bmask bi)) bj \<longleftrightarrow> bit_free d bj \<and> bj \<noteq> bi"
  using byte_pos_inj[of bi bj]
  by (auto simp: bit_free_bit bit_or_iff bmask_def bit_exp_iff possible_bit_word)

lemma clear_bit_free:
  "bit_free (d(bi div 8 := d (bi div 8) AND NOT (bmask bi))) bj \<longleftrightarrow> bit_free d bj \<or> bj = bi"
proof (cases "bi div 8 = bj div 8")
  case True
  then have "bj = bi \<longleftrightarrow> bj mod 8 = bi mod 8" using byte_pos_inj[of bi bj] by auto
  then show ?thesis using True by (simp add: bit_free_bit bit_and_iff bit_not_iff bmask_def bit_exp_iff)
qed (auto simp: bit_free_bit)

section \<open>The map of blocks in use\<close>

definition free_block :: "'a fstate_scheme \<Rightarrow> nat \<Rightarrow> bool" where
  "free_block s b \<longleftrightarrow> bit_free (blk s (BBLOCK b (sb s))) (b mod BPB)"

definition bitmap_blocks :: "'a fstate_scheme \<Rightarrow> nat set" where
  "bitmap_blocks s = (\<lambda>b. BBLOCK b (sb s)) ` {..<unat (sb_size (sb s))}"

text \<open>A disk laid out as mkfs does it: bitmap and free blocks lie outside the log, no bitmap block is
  free, block 0 is in use, and different bitmap blocks describe different ranges.\<close>

definition layout_ok :: "'a fstate_scheme \<Rightarrow> bool" where
  "layout_ok s \<longleftrightarrow>
     (\<forall>b<unat (sb_size (sb s)). BBLOCK b (sb s) \<notin> log_area (lstart s) \<and>
        (free_block s b \<longrightarrow> 0 < b \<and> b \<notin> log_area (lstart s) \<and> b \<notin> bitmap_blocks s) \<and>
        (\<forall>c<unat (sb_size (sb s)). BBLOCK b (sb s) = BBLOCK c (sb s) \<longrightarrow> b div BPB = c div BPB))"

definition unlocked_free :: "'a fstate_scheme \<Rightarrow> bool" where
  "unlocked_free s \<longleftrightarrow>
     (\<forall>b<unat (sb_size (sb s)). vlock (absc s) (BBLOCK b (sb s)) = None \<and> (free_block s b \<longrightarrow> vlock (absc s) b = None))"

lemma bitmap_blockI: "c < unat (sb_size (sb s)) \<Longrightarrow> BBLOCK c (sb s) \<in> bitmap_blocks s"
  by (simp add: bitmap_blocks_def)

lemma BPB_pos [simp]: "0 < BPB"
  by (simp add: BPB_def BSIZE_def)

lemma BBLOCK_base: "b mod BPB = 0 \<Longrightarrow> bi < BPB \<Longrightarrow> BBLOCK (b + bi) x = BBLOCK b x"
  by (simp add: BBLOCK_def div_add1_eq[of b bi])

lemma BBLOCK_less: "BBLOCK b x < 2 ^ 32"
  using unat_less[of "of_nat (b div BPB) + sb_bmapstart x"] by (simp add: BBLOCK_def)

section \<open>Allocation\<close>

text \<open>What a successful \<^verbatim>\<open>balloc\<close> has done.\<close>

definition allocated :: "nat \<Rightarrow> 'a fstate_scheme \<Rightarrow> 'a fstate_scheme \<Rightarrow> bool" where
  "allocated b s s' \<longleftrightarrow>
     b < unat (sb_size (sb s)) \<and> free_block s b \<and> txn_step {BBLOCK b (sb s), b} s s' \<and> sb s' = sb s \<and> inodes s' = inodes s \<and>
     (\<forall>i<BSIZE. blk s' b i = 0) \<and> (\<forall>c<unat (sb_size (sb s)). free_block s' c \<longleftrightarrow> free_block s c \<and> c \<noteq> b)"

lemma bzero_spec:
  assumes "room (Suc k) s" "vlock (absc s) b = None" "b < 2 ^ 32" "b \<notin> log_area (lstart s)"
  obtains s' where "bzero me ROOTDEV b s = Inr s'" "txn_step {b} s s'" "\<forall>i<BSIZE. blk s' b i = 0"
proof -
  have r: "txn_inv s" "buffer_room s" "log_room s" using assms(1) by (blast intro: room_inv room_buffer room_log)+
  obtain i s1 s2 s3 where w: "bread me ROOTDEV b s = Inr (i, s1)"
    "log_write i (set_data i (\<lambda>d. memset d 0 0 BSIZE) s1) = Inr s2" "brelse me i s2 = Inr s3" "txn_step {b} s s3"
    "blk s3 b = memset (blk s b) 0 0 BSIZE"
    by (rule txn_write[OF r(1) assms(2) _ assms(3,4) r(3), where me = me and f = "\<lambda>d. memset d 0 0 BSIZE"]) (use r(2) in auto)
  show thesis
  proof (rule that)
    show "bzero me ROOTDEV b s = Inr s3" using w(1-3) by (simp add: bzero_def)
    show "\<forall>i<BSIZE. blk s3 b i = 0" unfolding w(5) memset_wrbytes by (simp add: wrbytes_in)
  qed (rule w(4))
qed

lemma BBLOCK_mod: "b mod BPB = 0 \<Longrightarrow> bi < BPB \<Longrightarrow> (b + bi) mod BPB = bi"
  by (metis add_cancel_left_left mod_add_left_eq mod_less)

text \<open>One bitmap block with a free bit.\<close>

lemma balloc_take:
  assumes room: "room (Suc (Suc k)) s" and lay: "layout_ok s" "unlocked_free s"
    and b: "b mod BPB = 0" "bi < BPB" "b + bi < unat (sb_size (sb s))" "free_block s (b + bi)"
    and rd: "bread me ROOTDEV (BBLOCK b (sb s)) s = Inr (i, s1)"
  obtains s' where
    "bindR (log_write i (set_data i (\<lambda>d. d(bi div 8 := d (bi div 8) OR bmask bi)) s1)) (\<lambda>s.
       bindR (brelse me i s) (\<lambda>s. bindR (bzero me ROOTDEV (b + bi) s) (\<lambda>s. Inr (b + bi, s)))) = Inr (b + bi, s')"
    "allocated (b + bi) s s'"
proof -
  let ?B = "BBLOCK b (sb s)" and ?x = "b + bi" and ?f = "\<lambda>d :: block. d(bi div 8 := d (bi div 8) OR bmask bi)"
  have B: "BBLOCK ?x (sb s) = ?B" by (rule BBLOCK_base[OF b(1,2)])
  have l: "?B \<notin> log_area (lstart s)" "?x \<notin> log_area (lstart s)" "?x \<notin> bitmap_blocks s" "vlock (absc s) ?B = None" "vlock (absc s) ?x = None"
    using lay b(3,4) B by (auto simp: layout_ok_def unlocked_free_def)
  then have ne: "?x \<noteq> ?B" using bitmap_blockI[OF b(3)] B by metis
  have r: "txn_inv s" "buffer_room s" "log_room s" using room by (blast intro: room_inv room_buffer room_log)+
  obtain s2 s3 where w: "log_write i (set_data i ?f s1) = Inr s2" "brelse me i s2 = Inr s3" "txn_step {?B} s s3" "blk s3 ?B = ?f (blk s ?B)"
    by (rule txn_write[OF r(1) l(4) _ BBLOCK_less l(1) r(3), where me = me and f = ?f]) (use r(2) rd in auto)
  have fr: "lframe s s3" and v: "vlock (absc s3) = vlock (absc s)" using w(3) by (auto simp: txn_step_def)
  have r3: "room (Suc k) s3" by (rule room_step[OF room w(3)]) simp
  have "?x < 2 ^ 32" using b(3) unat_less[of "sb_size (sb s)"] by simp
  then obtain s4 where z: "bzero me ROOTDEV ?x s3 = Inr s4" "txn_step {?x} s3 s4" "\<forall>i<BSIZE. blk s4 ?x i = 0"
    using bzero_spec[OF r3, of ?x me] l(2,5) v lframe_sel(1)[OF fr] by metis
  have f4: "lframe s s4" using lframe_trans[OF fr, of s4] z(2) by (simp add: txn_step_def)
  note sb4 = lframe_sb[OF f4]
  have st: "txn_step {?B, ?x} s s4" using txn_step_trans[OF w(3) z(2)] by (simp add: insert_commute)
  have bl: "blk s4 c = (if c = ?B then ?f (blk s ?B) else blk s c)" if "c \<noteq> ?x" for c
    using that w(3,4) z(2) by (auto simp: txn_step_def)
  have "free_block s4 c \<longleftrightarrow> free_block s c \<and> c \<noteq> ?x" if c: "c < unat (sb_size (sb s))" for c
  proof -
    have "BBLOCK c (sb s) \<noteq> ?x" using l(3) bitmap_blockI[OF c] by metis
    moreover have "c = ?x \<longleftrightarrow> BBLOCK c (sb s) = ?B \<and> c mod BPB = bi"
    proof
      assume a: "BBLOCK c (sb s) = ?B \<and> c mod BPB = bi"
      then have "c div BPB = ?x div BPB" using lay(1) c b(3) B unfolding layout_ok_def by metis
      then show "c = ?x" using a BBLOCK_mod[OF b(1,2)] by (metis div_mult_mod_eq)
    qed (use B BBLOCK_mod[OF b(1,2)] in auto)
    ultimately show ?thesis using bl[of "BBLOCK c (sb s)"] by (auto simp: free_block_def sb4 set_bit_free)
  qed
  then have "allocated ?x s s4" using b(3,4) st z(3) sb4 B by (simp add: allocated_def)
  with that show thesis using w(1,2) z(1) by simp
qed

lemma free_absc: "absc s' = absc s \<Longrightarrow> sb s' = sb s \<Longrightarrow> free_block s' b = free_block s b"
  using absc_blk[of s' s] by (simp add: free_block_def)

lemma layout_absc:
  "absc s' = absc s \<Longrightarrow> sb s' = sb s \<Longrightarrow> lstart s' = lstart s \<Longrightarrow> layout_ok s' = layout_ok s"
  using free_absc[of s' s] by (simp add: layout_ok_def bitmap_blocks_def)

lemma unlocked_absc: "absc s' = absc s \<Longrightarrow> sb s' = sb s \<Longrightarrow> unlocked_free s' = unlocked_free s"
  using free_absc[of s' s] by (simp add: unlocked_free_def)

definition some_free :: "nat list \<Rightarrow> 'a fstate_scheme \<Rightarrow> bool" where
  "some_free bs s \<longleftrightarrow> (\<exists>b\<in>set bs. \<exists>bi<BPB. b + bi < unat (sb_size (sb s)) \<and> free_block s (b + bi))"

definition unchanged :: "'a fstate_scheme \<Rightarrow> 'a fstate_scheme \<Rightarrow> bool" where
  "unchanged s s' \<longleftrightarrow> txn_inv s' \<and> absc s' = absc s \<and> bframe s s' \<and> logged s' = logged s"

lemma unchanged_trans: "unchanged s t \<Longrightarrow> unchanged t u \<Longrightarrow> unchanged s u"
  by (auto simp: unchanged_def intro: bframe_trans)

lemma unchanged_sel:
  assumes "unchanged s s'"
  shows "sb s' = sb s" "inodes s' = inodes s" "lstart s' = lstart s" "absc s' = absc s" "blk s' = blk s" "txn_step {} s s'"
    "room k s \<Longrightarrow> room k s'" "txn_inv s'" "logged s' = logged s"
proof -
  have fr: "lframe s s'" using assms by (auto simp: unchanged_def intro: bframe_lframe)
  show "sb s' = sb s" "inodes s' = inodes s" "lstart s' = lstart s" using lframe_sb[OF fr] lframe_sel(1)[OF fr] by auto
  show "absc s' = absc s" "blk s' = blk s" "txn_inv s'" "logged s' = logged s" using assms absc_blk[of s' s] by (auto simp: unchanged_def)
  show "txn_step {} s s'" using assms by (auto simp: unchanged_def intro: txn_step_refl)
  show "room k s \<Longrightarrow> room k s'" using assms by (auto simp: unchanged_def intro: room_absc)
qed

lemma read_unchanged:
  assumes "room k s" "vlock (absc s) b = None"
  obtains i s1 s2 where "bread me ROOTDEV b s = Inr (i, s1)" "bdata (bufs s1 i) = blk s b" "brelse me i s1 = Inr s2"
    "unchanged s s2" "bframe s s1"
proof -
  obtain i s1 s2 where r: "bread me ROOTDEV b s = Inr (i, s1)" "bdata (bufs s1 i) = blk s b" "brelse me i s1 = Inr s2"
    "txn_inv s2" "absc s2 = absc s" "bframe s s2" "logged s2 = logged s"
    by (rule txn_read[OF room_inv[OF assms(1)] assms(2), where me = me]) (use room_buffer[OF assms(1)] in auto)
  then show thesis using that bread_frame[OF r(1)] by (simp add: unchanged_def)
qed

lemma allocated_unchanged: "unchanged s t \<Longrightarrow> allocated b t u \<Longrightarrow> allocated b s u"
proof -
  assume a: "unchanged s t" "allocated b t u"
  note us = unchanged_sel[OF a(1)]
  show ?thesis using a(2) txn_step_trans[OF us(6), of "{BBLOCK b (sb s), b}" u] free_absc[OF us(4,1)]
    by (simp add: allocated_def us(1,2))
qed

lemma balloc_scan_spec:
  assumes "room (Suc (Suc k)) s" "layout_ok s" "unlocked_free s"
    and "\<forall>b\<in>set bs. b mod BPB = 0 \<and> b < unat (sb_size (sb s))"
  shows "\<exists>x s'. balloc_scan me ROOTDEV bs s = Inr (x, s') \<and>
    (if some_free bs s then allocated x s s' else x = 0 \<and> unchanged s s')"
  using assms
proof (induction bs arbitrary: s)
  case Nil
  then show ?case using room_inv by (auto simp: some_free_def unchanged_def)
next
  case (Cons b bs)
  let ?P = "\<lambda>bi. b + bi < unat (sb_size (sb s)) \<and> free_block s (b + bi)"
  have b: "b mod BPB = 0" "b < unat (sb_size (sb s))" using Cons.prems(4) by auto
  then have "vlock (absc s) (BBLOCK b (sb s)) = None" using Cons.prems(3) by (simp add: unlocked_free_def)
  then obtain i s1 s2 where rd: "bread me ROOTDEV (BBLOCK b (sb s)) s = Inr (i, s1)" "bdata (bufs s1 i) = blk s (BBLOCK b (sb s))"
    "brelse me i s1 = Inr s2" "unchanged s s2" "bframe s s1"
    using read_unchanged[OF Cons.prems(1), where me = me] by metis
  have sb1: "sb s1 = sb s" using lframe_sb(1)[OF bframe_lframe[OF rd(5)]] .
  have f: "find (\<lambda>bi. b + bi < unat (sb_size (sb s1)) \<and> bit_free (bdata (bufs s1 i)) bi) [0..<BPB] = find ?P [0..<BPB]"
    by (rule find_cong[OF refl]) (simp add: rd(2) sb1 free_block_def BBLOCK_base[OF b(1)] BBLOCK_mod[OF b(1)])
  show ?case
  proof (cases "find ?P [0..<BPB]")
    case (Some bi)
    then have bi: "bi < BPB" "b + bi < unat (sb_size (sb s))" "free_block s (b + bi)" by (auto simp: find_upt_Some)
    then have sf: "some_free (b # bs) s" by (auto simp: some_free_def)
    obtain s' where "bindR (log_write i (set_data i (\<lambda>d. d(bi div 8 := d (bi div 8) OR bmask bi)) s1)) (\<lambda>s.
        bindR (brelse me i s) (\<lambda>s. bindR (bzero me ROOTDEV (b + bi) s) (\<lambda>s. Inr (b + bi, s)))) = Inr (b + bi, s')"
      "allocated (b + bi) s s'" by (rule balloc_take[OF Cons.prems(1-3) b(1) bi rd(1)])
    then show ?thesis using rd(1) f Some sf by simp
  next
    case None
    note us = unchanged_sel[OF rd(4)]
    have "some_free (b # bs) s = some_free bs s2"
      using None free_absc[OF us(4,1)] by (auto simp: some_free_def find_upt_None us(1))
    moreover have "\<exists>x s'. balloc_scan me ROOTDEV bs s2 = Inr (x, s') \<and>
        (if some_free bs s2 then allocated x s2 s' else x = 0 \<and> unchanged s2 s')"
      using Cons.prems us(7) layout_absc[OF us(4,1,3)] unlocked_absc[OF us(4,1)] us(1) by (intro Cons.IH) auto
    ultimately show ?thesis
      using rd(1,3) f None allocated_unchanged[OF rd(4)] unchanged_trans[OF rd(4)] by (fastforce split: if_splits)
  qed
qed

lemma ceil_less: "0 < n \<Longrightarrow> k < (sz + n - Suc 0) div n \<longleftrightarrow> k * n < (sz :: nat)"
proof -
  assume n: "0 < n"
  have "k < (sz + n - Suc 0) div n \<longleftrightarrow> Suc k * n \<le> sz + n - Suc 0" using less_eq_div_iff_mult_less_eq[OF n, of "Suc k"] by (simp add: Suc_le_eq)
  also have "\<dots> \<longleftrightarrow> k * n < sz" using n by auto
  finally show ?thesis .
qed

lemma bitmap_bases: "b \<in> set (bitmap_bases sz) \<longleftrightarrow> b mod BPB = 0 \<and> b < sz"
proof
  assume b: "b mod BPB = 0 \<and> b < sz"
  then have "b = b div BPB * BPB" using div_mult_mod_eq[of b BPB] by simp
  with b show "b \<in> set (bitmap_bases sz)"
    unfolding bitmap_bases_def set_map by (intro image_eqI[of _ _ "b div BPB"]) (auto simp: ceil_less)
qed (auto simp: bitmap_bases_def ceil_less)

lemma some_free_bases:
  "some_free (bitmap_bases (unat (sb_size (sb s)))) s \<longleftrightarrow> (\<exists>c<unat (sb_size (sb s)). free_block s c)"
proof
  assume "\<exists>c<unat (sb_size (sb s)). free_block s c"
  then obtain c where c: "c < unat (sb_size (sb s))" "free_block s c" by blast
  have "c div BPB * BPB \<le> c" by simp
  then have "c div BPB * BPB < unat (sb_size (sb s))" using c(1) by (rule le_less_trans)
  then have "c div BPB * BPB \<in> set (bitmap_bases (unat (sb_size (sb s))))" by (simp add: bitmap_bases)
  then show "some_free (bitmap_bases (unat (sb_size (sb s)))) s" unfolding some_free_def
    using c by (intro bexI exI[of _ "c mod BPB"]) (auto simp: div_mult_mod_eq)
qed (auto simp: some_free_def)

lemma balloc_spec:
  assumes "room (Suc (Suc k)) s" "layout_ok s" "unlocked_free s"
  obtains b s' where "balloc me ROOTDEV s = Inr (b, s')"
    "if \<exists>c<unat (sb_size (sb s)). free_block s c then allocated b s s' else b = 0 \<and> unchanged s s'"
  using balloc_scan_spec[OF assms, of "bitmap_bases (unat (sb_size (sb s)))" me] that
  unfolding balloc_def some_free_bases by (auto simp: bitmap_bases)

section \<open>Freeing\<close>

definition released :: "nat \<Rightarrow> 'a fstate_scheme \<Rightarrow> 'a fstate_scheme \<Rightarrow> bool" where
  "released b s s' \<longleftrightarrow> txn_step {BBLOCK b (sb s)} s s' \<and> sb s' = sb s \<and> inodes s' = inodes s \<and>
     (\<forall>c<unat (sb_size (sb s)). free_block s' c \<longleftrightarrow> free_block s c \<or> c = b)"

lemma bfree_spec:
  assumes room: "room (Suc k) s" and lay: "layout_ok s" "unlocked_free s" and b: "b < unat (sb_size (sb s))"
  shows "if free_block s b then bfree me ROOTDEV b s = Inl (Panic ''freeing free block'')
         else \<exists>s'. bfree me ROOTDEV b s = Inr s' \<and> released b s s'"
proof -
  let ?B = "BBLOCK b (sb s)" and ?bi = "b mod BPB"
  let ?f = "\<lambda>d :: block. d(?bi div 8 := d (?bi div 8) AND NOT (bmask ?bi))"
  have l: "?B \<notin> log_area (lstart s)" "vlock (absc s) ?B = None" using lay b by (auto simp: layout_ok_def unlocked_free_def)
  have r: "txn_inv s" "buffer_room s" "log_room s" using room by (blast intro: room_inv room_buffer room_log)+
  obtain i s1 s2 s3 where w: "bread me ROOTDEV ?B s = Inr (i, s1)" "bdata (bufs s1 i) = blk s ?B"
    "log_write i (set_data i ?f s1) = Inr s2" "brelse me i s2 = Inr s3" "txn_step {?B} s s3" "blk s3 ?B = ?f (blk s ?B)"
    by (rule txn_write[OF r(1) l(2) _ BBLOCK_less l(1) r(3), where me = me and f = ?f]) (use r(2) in auto)
  have "lframe s s3" using w(5) by (simp add: txn_step_def)
  note sb3 = lframe_sb[OF this]
  have "free_block s3 c \<longleftrightarrow> free_block s c \<or> c = b" if c: "c < unat (sb_size (sb s))" for c
  proof -
    have "BBLOCK c (sb s) \<noteq> ?B \<Longrightarrow> blk s3 (BBLOCK c (sb s)) = blk s (BBLOCK c (sb s))" using w(5) by (simp add: txn_step_def)
    moreover have "BBLOCK c (sb s) = ?B \<Longrightarrow> c mod BPB = ?bi \<longleftrightarrow> c = b"
      using lay(1) c b unfolding layout_ok_def by (metis div_mult_mod_eq)
    ultimately show ?thesis by (cases "BBLOCK c (sb s) = ?B") (auto simp: free_block_def sb3 w(6) clear_bit_free)
  qed
  then have "released b s s3" using w(5) sb3 by (simp add: released_def)
  then show ?thesis using w(1-4) by (auto simp: bfree_def Let_def free_block_def)
qed

section \<open>A mounted disk\<close>

text \<open>An open transaction on a disk with an empty log, for concrete runs.\<close>

definition mounted :: "(nat \<Rightarrow> block) \<Rightarrow> fstate" where
  "mounted D =
     (binit (logst.extend (logst0 D)
        \<lparr>sb = get_sb (D 1),
         inodes = (\<lambda>_. \<lparr>idev = 0, inum = 0, iref = 0, ilk = \<lparr>locked = False, spid = 0\<rparr>, ivalid = False, itype = 0,
           imajor = 0, iminor = 0, nlink = 0, isize = 0, addrs = (\<lambda>_. 0)\<rparr>)\<rparr>))\<lparr>outstanding := 1\<rparr>"

lemma mounted:
  assumes "hdr_n (D 2) = 0"
  shows "room 29 (mounted D)" "vlock (absc (mounted D)) = (\<lambda>_. None)" "logged (mounted D) = {}" "blk (mounted D) = D"
    "lstart (mounted D) = 2" "sb (mounted D) = get_sb (D 1)" "iref (inodes (mounted D) ip) = 0"
proof -
  define s :: fstate where "s = logst.extend (logst0 D)
        \<lparr>sb = get_sb (D 1),
         inodes = (\<lambda>_. \<lparr>idev = 0, inum = 0, iref = 0, ilk = \<lparr>locked = False, spid = 0\<rparr>, ivalid = False, itype = 0,
           imajor = 0, iminor = 0, nlink = 0, isize = 0, addrs = (\<lambda>_. 0)\<rparr>)\<rparr>"
  have m: "mounted D = (binit s)\<lparr>outstanding := 1\<rparr>" by (simp add: mounted_def s_def)
  have sel: "bufs s = (\<lambda>_. zero_buf)" "dsk s = D" "lstart s = 2" "ldev s = ROOTDEV" "ln s = 0" "lsize s = 30"
    by (simp_all add: s_def logst.defs logst0_def bcache.defs bcache0_def phys.defs phys0_def)
  have fr: "bframe s (binit s)" by (rule binit_frame)
  note f = logst_frame[OF fr]
  have c: "clean_cache (binit s)" by (rule clean_binit) (simp add: sel)
  have e: "bufs (mounted D) = bufs (binit s)" "dsk (mounted D) = dsk (binit s)" "wtrace (mounted D) = wtrace (binit s)" by (simp_all add: m)
  note x = absc_ext[OF e]
  have d: "dsk (binit s) = D" using binit_inv(3)[OF sel(1)] sel(2) by simp
  have l: "ln (mounted D) = 0" "ldev (mounted D) = ROOTDEV" "lsize (mounted D) = 30" "outstanding (mounted D) = 1"
    using f sel by (simp_all add: m)
  show l2: "lstart (mounted D) = 2" using f sel by (simp add: m)
  show v: "vlock (absc (mounted D)) = (\<lambda>_. None)" using c x(1) by (simp add: clean_cache_def)
  show lg: "logged (mounted D) = {}" using l by (simp add: logged_def)
  have b: "blk (mounted D) = blk (binit s)" using absc_sel(1) x(1) by metis
  then show bd: "blk (mounted D) = D" using c d by (simp add: clean_cache_def)
  have "txn_inv (mounted D)"
    using assms c x lg l l2 b e d by (simp add: txn_inv_def clean_cache_def NBUF_def MAXOPBLOCKS_def)
  then show "room 29 (mounted D)" using l v by (simp add: room_def locked_blocks_def LOGSIZE_def MAXOPBLOCKS_def)
  show "sb (mounted D) = get_sb (D 1)" "iref (inodes (mounted D) ip) = 0"
    using lframe_sb[OF bframe_lframe[OF fr]] by (simp_all add: m s_def logst.defs)
qed

text \<open>A disk of 200 blocks: super block, log in 2 to 31, inodes from 32, bitmap in 45, the first 48 blocks in use.\<close>

definition small_sb :: block where
  "small_sb = wr32 (wr32 (wr32 (wr32 (wr32 (wr32 (wr32 (wr32 (\<lambda>_. 0) 0 FSMAGIC) 4 200) 8 152) 12 200) 16 30) 20 2) 24 32) 28 45"

definition small_disk :: "nat \<Rightarrow> block" where
  "small_disk = (\<lambda>_ _. 0)(1 := small_sb, 45 := \<lambda>i. if i < 6 then 255 else 0)"

lemma small_mounted:
  "sb_size (sb (mounted small_disk)) = 200" "sb_bmapstart (sb (mounted small_disk)) = 45" "sb_inodestart (sb (mounted small_disk)) = 32"
  "room 29 (mounted small_disk)" "blk (mounted small_disk) = small_disk" "vlock (absc (mounted small_disk)) = (\<lambda>_. None)"
  "lstart (mounted small_disk) = 2"
proof -
  have "hdr_n (small_disk 2) = 0" by (simp add: small_disk_def hdr_n_def rd32_def rdbytes_def upt_rec)
  note m = mounted[of small_disk, OF this]
  show "sb_size (sb (mounted small_disk)) = 200" "sb_bmapstart (sb (mounted small_disk)) = 45" "sb_inodestart (sb (mounted small_disk)) = 32"
    unfolding m(6) by (simp_all add: get_sb_def small_disk_def small_sb_def rd_wr_same rd_wr_disj)
  show "room 29 (mounted small_disk)" "blk (mounted small_disk) = small_disk" "vlock (absc (mounted small_disk)) = (\<lambda>_. None)"
    "lstart (mounted small_disk) = 2" using m by auto
qed

lemma small_layout:
  "b < 200 \<Longrightarrow> BBLOCK b (sb (mounted small_disk)) = 45" "b < 200 \<Longrightarrow> free_block (mounted small_disk) b \<longleftrightarrow> 48 \<le> b"
  "layout_ok (mounted small_disk)" "unlocked_free (mounted small_disk)"
proof -
  show B: "BBLOCK b (sb (mounted small_disk)) = 45" if "b < 200" for b
    using that by (simp add: BBLOCK_def small_mounted BPB_def BSIZE_def)
  have ones: "bit (255 :: byte) n \<longleftrightarrow> n < 8" for n
  proof -
    have "(255 :: byte) = mask 8" by (simp add: mask_eq_exp_minus_1)
    then show ?thesis by (simp only: bit_mask_iff possible_bit_word) auto
  qed
  show F: "free_block (mounted small_disk) b \<longleftrightarrow> 48 \<le> b" if "b < 200" for b
    using that ones[of "b mod 8"] unfolding free_block_def B[OF that] small_mounted bit_free_bit
    by (auto simp: small_disk_def BPB_def BSIZE_def)
  have bb: "bitmap_blocks (mounted small_disk) \<subseteq> {45}" using B by (auto simp: bitmap_blocks_def small_mounted)
  show "layout_ok (mounted small_disk)"
    unfolding layout_ok_def using B F bb
    by (auto simp: small_mounted log_area_def LOGSIZE_def MAXOPBLOCKS_def BPB_def BSIZE_def)
  show "unlocked_free (mounted small_disk)" by (simp add: unlocked_free_def small_mounted)
qed

section \<open>Properties\<close>



end
