(* ===== verification/Xv6_Inode.thy ===== *)
theory Xv6_Inode
  imports Xv6_Blocks
begin

text \<open>
  Inodes and file contents, from \<^verbatim>\<open>kernel/fs.c\<close>. Shown: an inode written by \<^verbatim>\<open>iupdate\<close> is read back
  unchanged by \<^verbatim>\<open>ilock\<close>, without disturbing the inodes in the same block; \<^verbatim>\<open>readi\<close> delivers the bytes
  of the file that the block map defines.
\<close>

section \<open>Inodes on disk\<close>

lemma wr_other:
  "b + 2 \<le> a \<or> a + 4 \<le> b \<Longrightarrow> rd16 (wr32 m a x) b = rd16 m b"
  "b + 4 \<le> a \<or> a + 2 \<le> b \<Longrightarrow> rd32 (wr16 m a v) b = rd32 m b"
  by (simp_all add: wr16_def wr32_def rd_wrbytes_disj)

definition wr_addrs :: "inode \<Rightarrow> nat \<Rightarrow> nat \<Rightarrow> block \<Rightarrow> block" where
  "wr_addrs x p n d = fold (\<lambda>i d. wr32 d (p + 12 + 4 * i) (addrs x i)) [0..<n] d"

lemma wr_addrs_Suc: "wr_addrs x p (Suc n) d = wr32 (wr_addrs x p n d) (p + 12 + 4 * n) (addrs x n)"
  by (simp add: wr_addrs_def)

lemma wr_addrs_low:
  "b + 2 \<le> p + 12 \<Longrightarrow> rd16 (wr_addrs x p n d) b = rd16 d b"
  "b + 4 \<le> p + 12 \<Longrightarrow> rd32 (wr_addrs x p n d) b = rd32 d b"
  by (induction n) (simp_all add: wr_addrs_Suc wr_other rd_wr_disj, simp_all add: wr_addrs_def)

lemma wr_addrs_get: "i < n \<Longrightarrow> rd32 (wr_addrs x p n d) (p + 12 + 4 * i) = addrs x i"
proof (induction n)
  case (Suc n)
  then show ?case by (cases "i = n") (simp_all add: wr_addrs_Suc rd_wr_same rd_wr_disj)
qed simp

lemma wr_addrs_out: "j < p + 12 \<or> p + 12 + 4 * n \<le> j \<Longrightarrow> wr_addrs x p n d j = d j"
  by (induction n) (auto simp: wr_addrs_Suc wr_out, simp_all add: wr_addrs_def)

lemma put_dinode_alt:
  "put_dinode x p d = wr_addrs x p (NDIRECT + 1)
     (wr32 (wr16 (wr16 (wr16 (wr16 d p (itype x)) (p + 2) (imajor x)) (p + 4) (iminor x)) (p + 6) (nlink x)) (p + 8) (isize x))"
  by (simp add: put_dinode_def wr_addrs_def Let_def)

text \<open>The part of an inode that is on disk.\<close>

definition same_meta :: "inode \<Rightarrow> inode \<Rightarrow> bool" where
  "same_meta x y \<longleftrightarrow> itype x = itype y \<and> imajor x = imajor y \<and> iminor x = iminor y \<and> nlink x = nlink y \<and>
     isize x = isize y \<and> (\<forall>i<NDIRECT + 1. addrs x i = addrs y i)"

lemma get_put_dinode: "same_meta (get_dinode (put_dinode x p d) p y) x"
  unfolding same_meta_def get_dinode_def put_dinode_alt
  by (simp add: wr_addrs_get wr_addrs_low rd_wr_same rd_wr_disj wr_other)

lemma put_dinode_out: "j < p \<or> p + sizeof_dinode \<le> j \<Longrightarrow> put_dinode x p d j = d j"
  unfolding put_dinode_alt by (subst wr_addrs_out) (auto simp: wr_out sizeof_dinode_def)

lemma rd16_cong: "(\<And>i. a \<le> i \<Longrightarrow> i < a + 2 \<Longrightarrow> m i = m' i) \<Longrightarrow> rd16 m a = rd16 m' a"
proof -
  assume "\<And>i. a \<le> i \<Longrightarrow> i < a + 2 \<Longrightarrow> m i = m' i"
  then have "rdbytes m a 2 = rdbytes m' a 2" by (intro nth_equalityI) auto
  then show ?thesis by (simp add: rd16_def)
qed

lemma get_dinode_cong:
  assumes "\<And>j. p \<le> j \<Longrightarrow> j < p + sizeof_dinode \<Longrightarrow> d j = d' j"
  shows "get_dinode d p x = get_dinode d' p x"
proof -
  have "rd16 d p = rd16 d' p" "rd16 d (p + 2) = rd16 d' (p + 2)" "rd16 d (p + 4) = rd16 d' (p + 4)" "rd16 d (p + 6) = rd16 d' (p + 6)"
    "rd32 d (p + 8) = rd32 d' (p + 8)"
    by (rule rd16_cong rd_cong(1), rule assms, simp_all add: sizeof_dinode_def)+
  moreover have "rd32 d (p + 12 + 4 * i) = rd32 d' (p + 12 + 4 * i)" if "i < NDIRECT + 1" for i
    by (rule rd_cong(1), rule assms) (use that in \<open>simp_all add: sizeof_dinode_def\<close>)
  ultimately show ?thesis by (simp add: get_dinode_def cong: if_cong)
qed

lemma put_other_dinode:
  assumes "i mod IPB \<noteq> j mod IPB"
  shows "get_dinode (put_dinode x (dinode_off i) d) (dinode_off j) y = get_dinode d (dinode_off j) y"
proof (rule get_dinode_cong, rule put_dinode_out)
  fix k assume k: "dinode_off j \<le> k" "k < dinode_off j + sizeof_dinode"
  show "k < dinode_off i \<or> dinode_off i + sizeof_dinode \<le> k"
  proof (cases "i mod IPB < j mod IPB")
    case True
    then have "sizeof_dinode * (i mod IPB + 1) \<le> sizeof_dinode * (j mod IPB)" by (intro mult_le_mono2) simp
    then show ?thesis using k by (simp add: dinode_off_def)
  next
    case False
    then have "sizeof_dinode * (j mod IPB + 1) \<le> sizeof_dinode * (i mod IPB)" using assms by (intro mult_le_mono2) simp
    then show ?thesis using k by (simp add: dinode_off_def)
  qed
qed

section \<open>iupdate and ilock\<close>

lemma IBLOCK_less: "IBLOCK i x < 2 ^ 32"
  using unat_less[of "of_nat (i div IPB) + sb_inodestart x"] by (simp add: IBLOCK_def)

lemma iupdate_spec:
  assumes "room (Suc k) s" "idev (inodes s ip) = ROOTDEV"
    and "vlock (absc s) (IBLOCK (inum (inodes s ip)) (sb s)) = None" "IBLOCK (inum (inodes s ip)) (sb s) \<notin> log_area (lstart s)"
  obtains s' where "iupdate me ip s = Inr s'" "txn_step {IBLOCK (inum (inodes s ip)) (sb s)} s s'" "sb s' = sb s" "inodes s' = inodes s"
    "blk s' (IBLOCK (inum (inodes s ip)) (sb s)) =
       put_dinode (inodes s ip) (dinode_off (inum (inodes s ip))) (blk s (IBLOCK (inum (inodes s ip)) (sb s)))"
proof -
  let ?x = "inodes s ip"
  let ?f = "put_dinode ?x (dinode_off (inum ?x))"
  have r: "txn_inv s" "buffer_room s" "log_room s" using assms(1) by (blast intro: room_inv room_buffer room_log)+
  obtain i s1 s2 s3 where w: "bread me ROOTDEV (IBLOCK (inum ?x) (sb s)) s = Inr (i, s1)" "log_write i (set_data i ?f s1) = Inr s2"
    "brelse me i s2 = Inr s3" "txn_step {IBLOCK (inum ?x) (sb s)} s s3" "blk s3 (IBLOCK (inum ?x) (sb s)) = ?f (blk s (IBLOCK (inum ?x) (sb s)))"
    by (rule txn_write[OF r(1) assms(3) _ IBLOCK_less assms(4) r(3), where me = me and f = ?f]) (use r(2) in auto)
  have "inodes s1 = inodes s" using lframe_sb(2)[OF bframe_lframe[OF bread_frame[OF w(1)]]] .
  moreover have "lframe s s3" using w(4) by (simp add: txn_step_def)
  ultimately show thesis using that w lframe_sb[of s s3] assms(2) by (simp add: iupdate_def Let_def)
qed

lemma upd_inode_sel [simp]:
  "absc (upd_inode ip f s) = absc s" "sb (upd_inode ip f s) = sb s" "inodes (upd_inode ip f s) ip = f (inodes s ip)"
  "blk (upd_inode ip f s) = blk s" "logged (upd_inode ip f s) = logged s" "lstart (upd_inode ip f s) = lstart s"
  "jp \<noteq> ip \<Longrightarrow> inodes (upd_inode ip f s) jp = inodes s jp"
proof -
  have e: "bufs (upd_inode ip f s) = bufs s" "dsk (upd_inode ip f s) = dsk s" "wtrace (upd_inode ip f s) = wtrace s"
    by (simp_all add: upd_inode_def)
  show a: "absc (upd_inode ip f s) = absc s" by (rule absc_ext[OF e])
  show "blk (upd_inode ip f s) = blk s" by (rule absc_blk[OF a])
qed (simp_all add: upd_inode_def logged_def)

lemma txn_inv_upd_inode [simp]: "txn_inv (upd_inode ip f s) = txn_inv s"
proof -
  have "bio_inv (upd_inode ip f s) = bio_inv s" by (rule absc_ext(2)) (simp_all add: upd_inode_def)
  then show ?thesis unfolding txn_inv_def by (simp add: upd_inode_def[of ip f s] del: upd_inode_sel) (simp add: upd_inode_def[symmetric])
qed

lemma room_upd_inode [simp]: "room k (upd_inode ip f s) = room k s"
  by (simp add: room_def locked_blocks_def) (simp add: upd_inode_def)

lemma brelse_upd_inode:
  "brelse me i (upd_inode ip f s) = (case brelse me i s of Inl e \<Rightarrow> Inl e | Inr s' \<Rightarrow> Inr (upd_inode ip f s'))"
  by (simp add: brelse_def upd_inode_def Let_def upd_buf_def link_front_def unlink_def split: prod.splits)

lemma ilock_load:
  assumes "room k s" "ip \<noteq> 0" "1 \<le> iref (inodes s ip)" "\<not> locked (ilk (inodes s ip))" "\<not> ivalid (inodes s ip)"
    and "idev (inodes s ip) = ROOTDEV" "vlock (absc s) (IBLOCK (inum (inodes s ip)) (sb s)) = None"
    and "itype (get_dinode (blk s (IBLOCK (inum (inodes s ip)) (sb s))) (dinode_off (inum (inodes s ip))) (inodes s ip)) \<noteq> 0"
  obtains s' where "ilock me ip s = Inr s'" "absc s' = absc s" "room k s'"
    "inodes s' ip = (get_dinode (blk s (IBLOCK (inum (inodes s ip)) (sb s))) (dinode_off (inum (inodes s ip))) (inodes s ip))
       \<lparr>ilk := \<lparr>locked = True, spid = me\<rparr>, ivalid := True\<rparr>"
proof -
  define t where "t = upd_inode ip (\<lambda>x. x\<lparr>ilk := (ilk (inodes s ip))\<lparr>locked := True, spid := me\<rparr>\<rparr>) s"
  let ?B = "IBLOCK (inum (inodes s ip)) (sb s)" and ?p = "dinode_off (inum (inodes s ip))"
  have t: "room k t" "vlock (absc t) ?B = None" "blk t = blk s" "absc t = absc s" using assms(1,7) by (simp_all add: t_def)
  obtain i s1 s2 where r: "bread me ROOTDEV ?B t = Inr (i, s1)" "bdata (bufs s1 i) = blk t ?B" "brelse me i s1 = Inr s2"
    "unchanged t s2" "bframe t s1" by (rule read_unchanged[OF t(1,2), where me = me])
  let ?g = "\<lambda>x. get_dinode (blk s ?B) (dinode_off (inum x)) x"
  have i1: "inodes s1 = inodes t" using lframe_sb(2)[OF bframe_lframe[OF r(5)]] .
  have br: "brelse me i (upd_inode ip ?g s1) = Inr (upd_inode ip ?g s2)"
    using r(3) brelse_upd_inode[of me i ip ?g s1] by simp
  note us = unchanged_sel[OF r(4)]
  have lk: "l\<lparr>locked := True, spid := me\<rparr> = \<lparr>locked = True, spid = me\<rparr>" for l :: sleeplock by (cases l) simp
  have i2: "inodes s2 ip = (inodes s ip)\<lparr>ilk := \<lparr>locked = True, spid = me\<rparr>\<rparr>"
    unfolding us(2) by (simp add: t_def lk)
  let ?u = "upd_inode ip (\<lambda>x. x\<lparr>ivalid := True\<rparr>) (upd_inode ip ?g s2)"
  have fin: "inodes ?u ip = (get_dinode (blk s ?B) ?p (inodes s ip))\<lparr>ilk := \<lparr>locked = True, spid = me\<rparr>, ivalid := True\<rparr>"
    by (simp add: i2 get_dinode_def cong: if_cong)
  have ty: "itype (inodes ?u ip) \<noteq> 0" using assms(8) unfolding fin by simp
  have ti: "\<not> ivalid (inodes t ip)" "idev (inodes t ip) = ROOTDEV" "inum (inodes t ip) = inum (inodes s ip)" "sb t = sb s"
    using assms(5,6) by (simp_all add: t_def)
  show thesis
  proof (rule that[of ?u])
    show "ilock me ip s = Inr ?u"
      using assms(2-4) r(1,2) t(3) br ty ti
      by (simp add: ilock_def acquiresleep_def Let_def t_def[symmetric] del: upd_inode_sel)
    show "absc ?u = absc s" "room k ?u" using us(4,7) t(1,4) by simp_all
  qed (rule fin)
qed

text \<open>C33. An inode survives on disk: after \<^verbatim>\<open>iupdate\<close>, a table entry that holds the same inode number but not yet its
  contents gets from \<^verbatim>\<open>ilock\<close> exactly the type, device numbers, link count, size and block addresses
  that were written; the other inodes of that block and all other blocks are as before.\<close>

theorem iupdate_ilock_roundtrip:
  assumes "room 1 s" "locked_blocks s = {}" "idev (inodes s ip) = ROOTDEV" "itype (inodes s ip) \<noteq> 0"
    and "IBLOCK (inum (inodes s ip)) (sb s) \<notin> log_area (lstart s)" and "jp \<noteq> 0"
  shows "\<exists>s'. iupdate me ip s = Inr s' \<and> (\<forall>b. b \<noteq> IBLOCK (inum (inodes s ip)) (sb s) \<longrightarrow> blk s' b = blk s b) \<and>
    (\<forall>j y. j mod IPB \<noteq> inum (inodes s ip) mod IPB \<longrightarrow>
       get_dinode (blk s' (IBLOCK (inum (inodes s ip)) (sb s))) (dinode_off j) y =
       get_dinode (blk s (IBLOCK (inum (inodes s ip)) (sb s))) (dinode_off j) y) \<and>
    (let t = upd_inode jp (\<lambda>x. x\<lparr>idev := ROOTDEV, inum := inum (inodes s ip), iref := 1, ivalid := False, ilk := initsleeplock\<rparr>) s' in
     \<exists>t'. ilock me jp t = Inr t' \<and> same_meta (inodes t' jp) (inodes s ip) \<and> ivalid (inodes t' jp))"
proof -
  let ?x = "inodes s ip" and ?B = "IBLOCK (inum (inodes s ip)) (sb s)"
  have r: "room (Suc 0) s" using assms(1) by simp
  have v: "vlock (absc s) b = None" for b using assms(2) by (auto simp: locked_blocks_def)
  obtain s' where u: "iupdate me ip s = Inr s'" "txn_step {?B} s s'" "sb s' = sb s" "inodes s' = inodes s"
    "blk s' ?B = put_dinode ?x (dinode_off (inum ?x)) (blk s ?B)"
    by (rule iupdate_spec[OF r assms(3) v assms(5), where me = me])
  define t where "t = upd_inode jp (\<lambda>x. x\<lparr>idev := ROOTDEV, inum := inum ?x, iref := 1, ivalid := False, ilk := initsleeplock\<rparr>) s'"
  have st: "vlock (absc s') = vlock (absc s)" "\<And>b. b \<noteq> ?B \<Longrightarrow> blk s' b = blk s b" using u(2) by (auto simp: txn_step_def)
  have rt: "room 0 t" unfolding t_def room_upd_inode by (rule room_step[OF r u(2)]) (use assms(2) in simp)
  have tj: "inum (inodes t jp) = inum ?x" "sb t = sb s" "blk t = blk s'" by (simp_all add: t_def u(3))
  have m: "same_meta (get_dinode (blk t ?B) (dinode_off (inum ?x)) y) ?x" for y unfolding tj(3) u(5) by (rule get_put_dinode)
  have "itype (get_dinode (blk t ?B) (dinode_off (inum ?x)) (inodes t jp)) \<noteq> 0"
    using m[of "inodes t jp"] assms(4) by (simp add: same_meta_def)
  then obtain t' where t': "ilock me jp t = Inr t'" "inodes t' jp = (get_dinode (blk t ?B) (dinode_off (inum ?x)) (inodes t jp))
       \<lparr>ilk := \<lparr>locked = True, spid = me\<rparr>, ivalid := True\<rparr>"
    using ilock_load[OF rt assms(6), where me = me] v st(1) unfolding tj(1,2) by (auto simp: t_def initsleeplock_def)
  then have "same_meta (inodes t' jp) ?x" "ivalid (inodes t' jp)" using m[of "inodes t jp"] by (simp_all add: same_meta_def)
  then have "\<exists>t'. ilock me jp t = Inr t' \<and> same_meta (inodes t' jp) ?x \<and> ivalid (inodes t' jp)" using t'(1) by blast
  moreover have "get_dinode (blk s' ?B) (dinode_off j) y = get_dinode (blk s ?B) (dinode_off j) y"
    if "j mod IPB \<noteq> inum ?x mod IPB" for j y
    unfolding u(5) by (rule put_other_dinode) (use that in simp)
  ultimately show ?thesis using st(2) unfolding t_def Let_def by - (rule exI[of _ s'], intro conjI u(1), simp_all)
qed

text \<open>A transaction on the small disk with inode 3 in entry 1 of the table.\<close>

definition small_inode :: fstate where
  "small_inode = upd_inode 1 (\<lambda>x. x\<lparr>idev := ROOTDEV, inum := 3, iref := 1, ivalid := True, itype := T_FILE, nlink := 1\<rparr>) (mounted small_disk)"

lemma small_inode:
  "room 29 small_inode" "locked_blocks small_inode = {}" "idev (inodes small_inode 1) = ROOTDEV" "itype (inodes small_inode 1) = T_FILE"
  "inum (inodes small_inode 1) = 3" "IBLOCK 3 (sb small_inode) = 32" "lstart small_inode = 2" "blk small_inode = small_disk"
  using small_mounted by (simp_all add: small_inode_def locked_blocks_def IBLOCK_def IPB_def BSIZE_def sizeof_dinode_def NDIRECT_def)

theorem iupdate_ilock_roundtrip_witness:
  "\<exists>s' t'. iupdate 7 1 small_inode = Inr s' \<and>
     ilock 7 2 (upd_inode 2 (\<lambda>x. x\<lparr>idev := ROOTDEV, inum := 3, iref := 1, ivalid := False, ilk := initsleeplock\<rparr>) s') = Inr t' \<and>
     itype (inodes t' 2) = T_FILE"
proof -
  have "room 1 small_inode" using room_mono[OF small_inode(1), of 1] by simp
  moreover have "itype (inodes small_inode 1) \<noteq> 0" "IBLOCK (inum (inodes small_inode 1)) (sb small_inode) \<notin> log_area (lstart small_inode)"
    using small_inode by (simp_all add: T_FILE_def log_area_def LOGSIZE_def MAXOPBLOCKS_def)
  ultimately show ?thesis
    using iupdate_ilock_roundtrip[OF _ small_inode(2,3), of 2 7] small_inode(4,5) by (fastforce simp: same_meta_def)
qed

section \<open>The bytes of a file\<close>

text \<open>The block map of an inode: the address of its block \<open>bn\<close>, 0 if there is none.\<close>

definition file_block :: "'a fstate_scheme \<Rightarrow> nat \<Rightarrow> nat \<Rightarrow> nat" where
  "file_block s ip bn =
     (if bn < NDIRECT then unat (addrs (inodes s ip) bn)
      else if addrs (inodes s ip) NDIRECT = 0 then 0
      else unat (rd32 (blk s (unat (addrs (inodes s ip) NDIRECT))) (4 * (bn - NDIRECT))))"

definition file_byte :: "'a fstate_scheme \<Rightarrow> nat \<Rightarrow> nat \<Rightarrow> byte" where
  "file_byte s ip k = blk s (file_block s ip (k div BSIZE)) (k mod BSIZE)"

lemma unchanged_file:
  assumes "unchanged s s'"
  shows "file_block s' ip bn = file_block s ip bn" "file_byte s' ip k = file_byte s ip k"
  using unchanged_sel(2,5)[OF assms] by (simp_all add: file_block_def file_byte_def)

lemma bmap_present:
  assumes "room k s" "locked_blocks s = {}" "idev (inodes s ip) = ROOTDEV" "bn < MAXFILE" "file_block s ip bn \<noteq> 0"
  obtains s' where "bmap me ip bn s = Inr (file_block s ip bn, s')" "unchanged s s'"
proof (cases "bn < NDIRECT")
  case True
  moreover have "unchanged s s" using room_inv[OF assms(1)] by (simp add: unchanged_def)
  moreover have "addrs (inodes s ip) bn \<noteq> 0" using assms(5) True by (auto simp: file_block_def)
  ultimately show thesis using that[of s] by (simp add: bmap_def bmap_direct_def file_block_def)
next
  case False
  let ?ind = "unat (addrs (inodes s ip) NDIRECT)"
  have ind: "addrs (inodes s ip) NDIRECT \<noteq> 0" "?ind \<noteq> 0" using assms(5) False by (auto simp: file_block_def unat_gt_0 split: if_splits)
  have "vlock (absc s) ?ind = None" using assms(2) by (auto simp: locked_blocks_def)
  then obtain i s1 s2 where r: "bread me ROOTDEV ?ind s = Inr (i, s1)" "bdata (bufs s1 i) = blk s ?ind" "brelse me i s1 = Inr s2"
    "unchanged s s2" "bframe s s1" using read_unchanged[OF assms(1), where me = me] by metis
  then show thesis
    using that[of s2] False ind assms(3,4,5) by (simp add: bmap_def bmap_direct_def file_block_def Let_def MAXFILE_def)
qed

lemma BSIZE_pos [simp]: "0 < BSIZE"
  by (simp add: BSIZE_def)

lemma rdbytes_map: "rdbytes m a n = map (\<lambda>i. m (a + i)) [0..<n]"
  by (rule nth_equalityI) simp_all

text \<open>The bytes of one block of the file.\<close>

lemma file_bytes_block:
  assumes "off mod BSIZE + m \<le> BSIZE"
  shows "rdbytes (blk s (file_block s ip (off div BSIZE))) (off mod BSIZE) m = map (file_byte s ip) [off..<off + m]"
proof (rule nth_equalityI)
  fix i assume "i < length (rdbytes (blk s (file_block s ip (off div BSIZE))) (off mod BSIZE) m)"
  then have i: "i < m" by simp
  then have lt: "off mod BSIZE + i < BSIZE" using assms by simp
  have "off + i = BSIZE * (off div BSIZE) + (off mod BSIZE + i)" by (simp add: add.assoc[symmetric])
  then have "(off + i) div BSIZE = off div BSIZE" "(off + i) mod BSIZE = off mod BSIZE + i"
    using lt by (metis div_mult_self4 div_less add.right_neutral BSIZE_pos less_irrefl, metis mod_mult_self4 mod_less mult.commute)
  then show "rdbytes (blk s (file_block s ip (off div BSIZE))) (off mod BSIZE) m ! i = map (file_byte s ip) [off..<off + m] ! i"
    using i by (simp add: file_byte_def)
qed simp

lemma readi_loop_spec:
  assumes "room 0 s" "idev (inodes s ip) = ROOTDEV" "off + rem \<le> MAXFILE * BSIZE"
    and "\<And>k. off \<le> k \<Longrightarrow> k < off + rem \<Longrightarrow> file_block s ip (k div BSIZE) \<noteq> 0" "tot + rem < 2 ^ 31"
  shows "\<exists>s'. readi_loop local_sink me ip rem tot off c s = Inr (int (tot + rem), c @ map (file_byte s ip) [off..<off + rem], s') \<and>
    unchanged s s'"
  using assms
proof (induction rem arbitrary: s tot off c rule: less_induct)
  case (less rem)
  show ?case
  proof (cases "rem = 0")
    case True
    have "sint (of_nat tot :: uint32) = int tot"
      using less.prems(5) True by (subst signed_of_nat) (simp add: signed_take_bit_int_eq_self_iff)
    then show ?thesis using True room_inv[OF less.prems(1)] by (simp add: readi_loop.simps[of local_sink me ip 0] unchanged_def)
  next
    case False
    define m where "m = min rem (BSIZE - off mod BSIZE)"
    have m: "0 < m" "m \<le> rem" "off mod BSIZE + m \<le> BSIZE"
      using False mod_less_divisor[OF BSIZE_pos, of off] unfolding m_def min_def by (simp_all split: if_split del: mod_less_divisor, linarith+)
    let ?a = "file_block s ip (off div BSIZE)"
    have unl: "locked_blocks s = {}" using less.prems(1) by (auto simp: room_def)
    have "off div BSIZE < MAXFILE" using less.prems(3) False by (simp add: less_mult_imp_div_less)
    then obtain s1 where b: "bmap me ip (off div BSIZE) s = Inr (?a, s1)" "unchanged s s1" "?a \<noteq> 0"
      using bmap_present[OF less.prems(1) unl less.prems(2), of "off div BSIZE" me] less.prems(4)[of off] False by auto
    note u1 = unchanged_sel[OF b(2)]
    have "vlock (absc s1) ?a = None" using unl u1(4) by (auto simp: locked_blocks_def)
    then obtain i s2 s3 where r: "bread me ROOTDEV ?a s1 = Inr (i, s2)" "bdata (bufs s2 i) = blk s1 ?a" "brelse me i s2 = Inr s3" "unchanged s1 s3"
      using read_unchanged[OF u1(7)[OF less.prems(1)], where me = me] by metis
    have u3: "unchanged s s3" by (rule unchanged_trans[OF b(2) r(4)])
    note us3 = unchanged_sel[OF u3]
    let ?d = "map (file_byte s ip) [off..<off + m]"
    have step: "readi_loop local_sink me ip rem tot off c s = readi_loop local_sink me ip (rem - m) (tot + m) (off + m) (c @ ?d) s3"
      using False b(1,3) r(1-3) less.prems(2) u1(2,5) file_bytes_block[OF m(3), of s ip]
      by (simp add: readi_loop.simps[of local_sink me ip rem] m_def[symmetric] Let_def local_sink_def)
    have "\<exists>s'. readi_loop local_sink me ip (rem - m) (tot + m) (off + m) (c @ ?d) s3 =
        Inr (int (tot + m + (rem - m)), (c @ ?d) @ map (file_byte s3 ip) [off + m..<off + m + (rem - m)], s') \<and> unchanged s3 s'"
      using m less.prems us3(2,7) unchanged_file[OF u3] by (intro less.IH) auto
    then show ?thesis
      using step m unchanged_trans[OF u3] unchanged_file(2)[OF u3] upt_add_eq_append[of off "off + m" "rem - m"]
      by (auto simp: fun_eq_iff)
  qed
qed

lemma MAXFILE_bytes: "MAXFILE * BSIZE < 2 ^ 31"
  by (simp add: MAXFILE_def BSIZE_def NDIRECT_def NINDIRECT_def)

text \<open>The number of bytes that \<^verbatim>\<open>readi\<close> delivers.\<close>

definition read_count :: "inode \<Rightarrow> uint32 \<Rightarrow> uint32 \<Rightarrow> nat" where
  "read_count x off n = (if unat off + unat n < 2 ^ 32 then min (unat n) (unat (isize x) - unat off) else 0)"

lemma unat_add_wrap:
  "unat (a + b) = (if unat a + unat b < 2 ^ 32 then unat a + unat b else unat a + unat b - 2 ^ 32)" for a b :: uint32
  using unat_less[of a] unat_less[of b] by (simp add: unat_word_ariths mod_if)

lemma add_no_wrap: "off + n < off \<longleftrightarrow> 2 ^ 32 \<le> unat off + unat n" for off n :: uint32
  using unat_add_wrap[of off n] unat_less[of n] unat_less[of off] by (auto simp: word_less_nat_alt split: if_splits)

lemma readi_spec:
  assumes "room 0 s" "idev (inodes s ip) = ROOTDEV" "unat (isize (inodes s ip)) \<le> MAXFILE * BSIZE"
    and "\<And>k. k < unat (isize (inodes s ip)) \<Longrightarrow> file_block s ip (k div BSIZE) \<noteq> 0"
  shows "\<exists>s'. readi local_sink me ip [] off n s =
      Inr (int (read_count (inodes s ip) off n),
           map (file_byte s ip) [unat off..<unat off + read_count (inodes s ip) off n], s') \<and> unchanged s s'"
proof (cases "off > isize (inodes s ip) \<or> off + n < off")
  case True
  then have "read_count (inodes s ip) off n = 0" unfolding add_no_wrap by (auto simp: read_count_def word_less_nat_alt)
  moreover have "unchanged s s" using room_inv[OF assms(1)] by (simp add: unchanged_def)
  ultimately show ?thesis using True by (simp add: readi_def Let_def)
next
  case False
  let ?sz = "isize (inodes s ip)"
  let ?n = "if off + n > ?sz then ?sz - off else n"
  have le: "unat off \<le> unat ?sz" "unat off + unat n < 2 ^ 32" using False unfolding add_no_wrap by (auto simp: word_less_nat_alt)
  have c: "unat ?n = read_count (inodes s ip) off n"
    using le unat_add_wrap[of off n] by (auto simp: read_count_def unat_sub word_le_nat_alt word_less_nat_alt)
  have e: "unat off + unat ?n \<le> unat ?sz" using c le by (simp add: read_count_def)
  have "\<exists>s'. readi_loop local_sink me ip (unat ?n) 0 (unat off) [] s =
      Inr (int (0 + unat ?n), [] @ map (file_byte s ip) [unat off..<unat off + unat ?n], s') \<and> unchanged s s'"
    using e assms(3,4) MAXFILE_bytes by (intro readi_loop_spec[OF assms(1,2)]) auto
  moreover have "readi local_sink me ip [] off n s = readi_loop local_sink me ip (unat ?n) 0 (unat off) [] s"
    using False by (simp only: readi_def Let_def if_False)
  ultimately show ?thesis unfolding c by simp
qed

text \<open>C34. \<^verbatim>\<open>readi\<close> delivers the file: it returns the number of bytes that lie before the end of the file and copies
  out exactly the bytes that the inode's block map locates, and changes no block.\<close>

theorem readi_reads_file:
  assumes "room 0 s" "idev (inodes s ip) = ROOTDEV" "unat (isize (inodes s ip)) \<le> MAXFILE * BSIZE"
    and "\<And>k. k < unat (isize (inodes s ip)) \<Longrightarrow> file_block s ip (k div BSIZE) \<noteq> 0"
  shows "\<exists>s'. readi local_sink me ip [] off n s =
      Inr (int (read_count (inodes s ip) off n),
           map (file_byte s ip) [unat off..<unat off + read_count (inodes s ip) off n], s') \<and> unchanged s s'"
  using readi_spec[OF assms] .

section \<open>Writing a file\<close>

text \<open>The block map of a sound file: no block is used twice, none is in the log, and data, indirect and
  inode blocks are different.\<close>

definition file_ok :: "'a fstate_scheme \<Rightarrow> nat \<Rightarrow> bool" where
  "file_ok s ip \<longleftrightarrow>
     (\<forall>i<MAXFILE. file_block s ip i \<noteq> 0 \<longrightarrow>
        file_block s ip i \<notin> log_area (lstart s) \<and> file_block s ip i \<noteq> unat (addrs (inodes s ip) NDIRECT) \<and>
        file_block s ip i \<noteq> IBLOCK (inum (inodes s ip)) (sb s) \<and>
        (\<forall>j<MAXFILE. file_block s ip j = file_block s ip i \<longrightarrow> j = i)) \<and>
     IBLOCK (inum (inodes s ip)) (sb s) \<notin> log_area (lstart s) \<and>
     unat (addrs (inodes s ip) NDIRECT) \<noteq> IBLOCK (inum (inodes s ip)) (sb s)"

text \<open>The number of blocks that bytes \<open>off\<close> to \<open>off + n\<close> touch.\<close>

definition blocks_of :: "nat \<Rightarrow> nat \<Rightarrow> nat" where
  "blocks_of off n = (if n = 0 then 0 else (off + n - 1) div BSIZE + 1 - off div BSIZE)"

lemma file_block_less: "file_block s ip bn < 2 ^ 32"
  using unat_less[of "addrs (inodes s ip) bn"] unat_less[of "rd32 (blk s (unat (addrs (inodes s ip) NDIRECT))) (4 * (bn - NDIRECT))"]
  by (simp add: file_block_def)

lemma file_block_cong:
  assumes "inodes s' ip = inodes s ip" "blk s' (unat (addrs (inodes s ip) NDIRECT)) = blk s (unat (addrs (inodes s ip) NDIRECT))"
  shows "file_block s' ip bn = file_block s ip bn"
  using assms by (simp add: file_block_def)

lemma blocks_of_step:
  assumes "0 < rem" "m = min rem (BSIZE - off mod BSIZE)"
  shows "blocks_of off rem = Suc (blocks_of (off + m) (rem - m))"
proof -
  have lt: "off mod BSIZE < BSIZE" and e: "off = BSIZE * (off div BSIZE) + off mod BSIZE" by simp_all
  show ?thesis
  proof (cases "rem \<le> BSIZE - off mod BSIZE")
    case True
    then have "off + rem - 1 = BSIZE * (off div BSIZE) + (off mod BSIZE + rem - 1)" using e assms(1) by linarith
    moreover have "off mod BSIZE + rem - 1 < BSIZE" using True lt assms(1) by linarith
    ultimately have "(off + rem - 1) div BSIZE = off div BSIZE" by simp
    then show ?thesis using True assms by (simp add: blocks_of_def)
  next
    case False
    then have m: "m = BSIZE - off mod BSIZE" using assms(2) by simp
    then have "off + m = BSIZE * Suc (off div BSIZE)" unfolding mult_Suc_right using e lt by linarith
    then have d: "(off + m) div BSIZE = Suc (off div BSIZE)" by (metis nonzero_mult_div_cancel_left BSIZE_pos less_irrefl)
    have "(off + m) div BSIZE \<le> (off + rem - 1) div BSIZE" using False m by (intro div_le_mono) linarith
    moreover have "off + m + (rem - m) - 1 = off + rem - 1" "rem - m \<noteq> 0" using False m by linarith+
    ultimately show ?thesis using d assms(1) unfolding blocks_of_def by (simp del: One_nat_def)
  qed
qed

text \<open>What writing \<open>c\<close> at \<open>off\<close> does to the file and to the rest of the disk.\<close>

definition wrote :: "nat \<Rightarrow> nat \<Rightarrow> byte list \<Rightarrow> 'a fstate_scheme \<Rightarrow> 'a fstate_scheme \<Rightarrow> bool" where
  "wrote ip off c s s' \<longleftrightarrow> sb s' = sb s \<and> lstart s' = lstart s \<and> locked_blocks s' = locked_blocks s \<and>
     (\<forall>k<MAXFILE * BSIZE. file_block s ip (k div BSIZE) \<noteq> 0 \<longrightarrow>
        file_byte s' ip k = (if off \<le> k \<and> k < off + length c then c ! (k - off) else file_byte s ip k)) \<and>
     (\<forall>bn. file_block s' ip bn = file_block s ip bn) \<and>
     (\<forall>b. (\<forall>bn<MAXFILE. b \<noteq> file_block s ip bn) \<longrightarrow> blk s' b = blk s b)"

lemma wrote_Nil: "unchanged s s' \<Longrightarrow> wrote ip off [] s s'"
  using unchanged_sel[of s s'] unchanged_file[of s s'] by (auto simp: wrote_def locked_blocks_def)

lemma wrote_append:
  assumes "wrote ip off c s t" "wrote ip (off + length c) d t u"
  shows "wrote ip off (c @ d) s u"
  using assms unfolding wrote_def by (auto simp: nth_append)

lemma div_MAXFILE: "k < MAXFILE * BSIZE \<Longrightarrow> k div BSIZE < MAXFILE"
  by (simp add: less_mult_imp_div_less)

lemma wrote_block:
  assumes ok: "file_ok s ip" and bn: "off div BSIZE < MAXFILE" "file_block s ip (off div BSIZE) \<noteq> 0"
    and st: "txn_step {file_block s ip (off div BSIZE)} s s'"
    and bl: "blk s' (file_block s ip (off div BSIZE)) = wrbytes (blk s (file_block s ip (off div BSIZE))) (off mod BSIZE) c"
    and len: "off mod BSIZE + length c \<le> BSIZE"
  shows "wrote ip off c s s'"
proof -
  let ?a = "file_block s ip (off div BSIZE)"
  have fr: "lframe s s'" and v: "vlock (absc s') = vlock (absc s)" and o: "\<And>b. b \<noteq> ?a \<Longrightarrow> blk s' b = blk s b"
    using st by (auto simp: txn_step_def)
  have sel: "sb s' = sb s" "inodes s' = inodes s" "lstart s' = lstart s" using lframe_sb[OF fr] lframe_sel(1)[OF fr] by auto
  have ind: "?a \<noteq> unat (addrs (inodes s ip) NDIRECT)" using ok bn by (simp add: file_ok_def)
  then have fb: "file_block s' ip bn = file_block s ip bn" for bn using o sel(2) by (intro file_block_cong) simp_all
  have byt: "file_byte s' ip k = (if off \<le> k \<and> k < off + length c then c ! (k - off) else file_byte s ip k)"
    if k: "k < MAXFILE * BSIZE" "file_block s ip (k div BSIZE) \<noteq> 0" for k
  proof (cases "k div BSIZE = off div BSIZE")
    case True
    have "k = BSIZE * (off div BSIZE) + k mod BSIZE" "off = BSIZE * (off div BSIZE) + off mod BSIZE" using True by (metis mult_div_mod_eq)+
    then have "off \<le> k \<longleftrightarrow> off mod BSIZE \<le> k mod BSIZE" "k < off + length c \<longleftrightarrow> k mod BSIZE < off mod BSIZE + length c"
      "k - off = k mod BSIZE - off mod BSIZE" by linarith+
    then show ?thesis using True by (simp add: file_byte_def fb bl wrbytes_def)
  next
    case False
    then have "file_block s ip (k div BSIZE) \<noteq> ?a" using ok bn k div_MAXFILE[OF k(1)] unfolding file_ok_def by metis
    moreover have "\<not> (off \<le> k \<and> k < off + length c)"
    proof
      assume a: "off \<le> k \<and> k < off + length c"
      have "k < BSIZE * Suc (off div BSIZE)" using a len mult_div_mod_eq[of BSIZE off] unfolding mult_Suc_right by linarith
      then have "k div BSIZE \<le> off div BSIZE" using div_less_iff_less_mult[OF BSIZE_pos, of k "Suc (off div BSIZE)"] by (simp add: mult.commute)
      then show False using False div_le_mono[of off k BSIZE] a by simp
    qed
    ultimately show ?thesis using o by (auto simp: file_byte_def fb)
  qed
  show ?thesis unfolding wrote_def using sel v fb byt o bn by (auto simp: locked_blocks_def)
qed

lemma file_ok_cong:
  assumes "file_ok s ip" "inodes s' ip = inodes s ip" "sb s' = sb s" "lstart s' = lstart s" "\<And>bn. file_block s' ip bn = file_block s ip bn"
  shows "file_ok s' ip"
  using assms by (simp add: file_ok_def)

lemma writei_step:
  assumes "room (Suc k) s" "0 < k" "locked_blocks s = {}" "idev (inodes s ip) = ROOTDEV" "file_ok s ip"
    and "off div BSIZE < MAXFILE" "file_block s ip (off div BSIZE) \<noteq> 0"
    and m: "m = min rem (BSIZE - off mod BSIZE)" "0 < rem" "m \<le> length c"
  obtains s' where "writei_loop local_source me ip rem tot off c s = writei_loop local_source me ip (rem - m) (tot + m) (off + m) (drop m c) s'"
    "wrote ip off (take m c) s s'" "room k s'" "inodes s' = inodes s"
proof -
  let ?a = "file_block s ip (off div BSIZE)" and ?f = "\<lambda>d. wrbytes d (off mod BSIZE) (take m c)"
  obtain s1 where b: "bmap me ip (off div BSIZE) s = Inr (?a, s1)" "unchanged s s1"
    by (rule bmap_present[OF assms(1,3,4,6,7), where me = me])
  note u1 = unchanged_sel[OF b(2)]
  have r1: "room (Suc k) s1" using u1(7)[OF assms(1)] .
  have r: "txn_inv s1" "buffer_room s1" "log_room s1" using r1 by (blast intro: room_inv room_buffer room_log)+
  have v: "vlock (absc s1) ?a = None" using assms(3) u1(4) by (auto simp: locked_blocks_def)
  have nl: "?a \<notin> log_area (lstart s1)" using assms(5-7) by (simp add: file_ok_def u1(3))
  obtain i s2 s3 s4 where w: "bread me ROOTDEV ?a s1 = Inr (i, s2)" "log_write i (set_data i ?f s2) = Inr s3"
    "brelse me i s3 = Inr s4" "txn_step {?a} s1 s4" "blk s4 ?a = ?f (blk s1 ?a)"
    by (rule txn_write[OF r(1) v _ file_block_less nl r(3), where me = me and f = ?f]) (use r(2) in auto)
  have st: "txn_step {?a} s s4" using txn_step_trans[OF u1(6) w(4)] by simp
  have lt: "off mod BSIZE + m \<le> BSIZE" using m(1) mod_less_divisor[OF BSIZE_pos, of off] by linarith
  have i4: "inodes s4 = inodes s" using lframe_sb(2)[of s s4] st by (simp add: txn_step_def)
  show thesis
  proof (rule that[of s4])
    show "writei_loop local_source me ip rem tot off c s = writei_loop local_source me ip (rem - m) (tot + m) (off + m) (drop m c) s4"
      using b(1) assms(4,7) w(1-3) m(2) u1(2)
      by (simp add: writei_loop.simps[of local_source me ip rem] local_source_def Let_def m(1)[symmetric])
    show "wrote ip off (take m c) s s4"
      using st w(5) u1(5) lt m(3) by (intro wrote_block[OF assms(5-7)]) simp_all
    show "room k s4" by (rule room_step[OF assms(1) st]) (use assms(2) in simp)
  qed (rule i4)
qed

lemma writei_loop_spec:
  assumes "room (blocks_of off rem + Suc k) s" "locked_blocks s = {}" "idev (inodes s ip) = ROOTDEV" "file_ok s ip"
    and "off + rem \<le> MAXFILE * BSIZE" "\<And>k. off \<le> k \<Longrightarrow> k < off + rem \<Longrightarrow> file_block s ip (k div BSIZE) \<noteq> 0" "length c = rem"
  shows "\<exists>s'. writei_loop local_source me ip rem tot off c s = Inr (tot + rem, off + rem, [], s') \<and>
    wrote ip off c s s' \<and> room (Suc k) s' \<and> inodes s' = inodes s"
  using assms
proof (induction rem arbitrary: s tot off c rule: less_induct)
  case (less rem)
  show ?case
  proof (cases "rem = 0")
    case True
    have "unchanged s s" using room_inv[OF less.prems(1)] by (simp add: unchanged_def)
    then show ?thesis using True less.prems(1,7) wrote_Nil[of s s ip off]
      by (simp add: writei_loop.simps[of local_source me ip 0] blocks_of_def)
  next
    case False
    define m where "m = min rem (BSIZE - off mod BSIZE)"
    have m: "0 < m" "m \<le> rem" using False mod_less_divisor[OF BSIZE_pos, of off] unfolding m_def min_def by (simp_all split: if_split del: mod_less_divisor)
    have bo: "blocks_of off rem = Suc (blocks_of (off + m) (rem - m))" using False by (intro blocks_of_step m_def) simp
    have rm: "room (Suc (blocks_of (off + m) (rem - m) + Suc k)) s" using less.prems(1) bo by simp
    have bn: "off div BSIZE < MAXFILE" "file_block s ip (off div BSIZE) \<noteq> 0"
      using less.prems(5) less.prems(6)[of off] False by (simp_all add: less_mult_imp_div_less)
    obtain s1 where s1: "writei_loop local_source me ip rem tot off c s = writei_loop local_source me ip (rem - m) (tot + m) (off + m) (drop m c) s1"
      "wrote ip off (take m c) s s1" "room (blocks_of (off + m) (rem - m) + Suc k) s1" "inodes s1 = inodes s"
      by (rule writei_step[OF rm _ less.prems(2-4) bn m_def, where me = me and c = c and tot = tot]) (use False m less.prems(7) in auto)
    have w1: "sb s1 = sb s" "lstart s1 = lstart s" "locked_blocks s1 = locked_blocks s" "\<And>bn. file_block s1 ip bn = file_block s ip bn"
      using s1(2) by (simp_all add: wrote_def)
    have ok1: "file_ok s1 ip" using s1(4) w1 by (intro file_ok_cong[OF less.prems(4)]) simp_all
    have "\<exists>s'. writei_loop local_source me ip (rem - m) (tot + m) (off + m) (drop m c) s1 = Inr (tot + m + (rem - m), off + m + (rem - m), [], s') \<and>
        wrote ip (off + m) (drop m c) s1 s' \<and> room (Suc k) s' \<and> inodes s' = inodes s1"
      using m less.prems s1(3,4) w1 by (intro less.IH ok1) auto
    then obtain s' where s': "writei_loop local_source me ip (rem - m) (tot + m) (off + m) (drop m c) s1 = Inr (tot + rem, off + rem, [], s')"
      "wrote ip (off + m) (drop m c) s1 s'" "room (Suc k) s'" "inodes s' = inodes s1" using m(2) by auto
    have "wrote ip off (take m c @ drop m c) s s'" using s'(2) m(2) less.prems(7) by (intro wrote_append[OF s1(2)]) simp
    then show ?thesis using s1(1,4) s' by simp
  qed
qed

text \<open>Writing the inode back leaves the file's bytes alone.\<close>

lemma iupdate_file:
  assumes ok: "file_ok s ip" and a: "addrs (inodes s' ip) = addrs (inodes s ip)"
    and o: "\<And>b. b \<noteq> IBLOCK (inum (inodes s ip)) (sb s) \<Longrightarrow> blk s' b = blk s b"
  shows "file_block s' ip bn = file_block s ip bn"
    and "k < MAXFILE * BSIZE \<Longrightarrow> file_block s ip (k div BSIZE) \<noteq> 0 \<Longrightarrow> file_byte s' ip k = file_byte s ip k"
proof -
  have "blk s' (unat (addrs (inodes s ip) NDIRECT)) = blk s (unat (addrs (inodes s ip) NDIRECT))"
    using ok by (intro o) (simp add: file_ok_def)
  then show fb: "file_block s' ip bn = file_block s ip bn" for bn using a by (simp add: file_block_def)
  show "file_byte s' ip k = file_byte s ip k" if "k < MAXFILE * BSIZE" "file_block s ip (k div BSIZE) \<noteq> 0"
    using that ok div_MAXFILE[of k] o by (simp add: file_byte_def fb file_ok_def)
qed

lemma writei_finish:
  assumes "room (Suc 0) s" "locked_blocks s = {}" "idev (inodes s ip) = ROOTDEV" "file_ok s ip"
  obtains s' where "iupdate me ip (upd_inode ip (\<lambda>x. x\<lparr>isize := z\<rparr>) s) = Inr s'" "room 0 s'" "inodes s' ip = (inodes s ip)\<lparr>isize := z\<rparr>"
    "\<And>bn. file_block s' ip bn = file_block s ip bn"
    "\<And>k. k < MAXFILE * BSIZE \<Longrightarrow> file_block s ip (k div BSIZE) \<noteq> 0 \<Longrightarrow> file_byte s' ip k = file_byte s ip k"
proof -
  let ?t = "upd_inode ip (\<lambda>x. x\<lparr>isize := z\<rparr>) s"
  let ?B = "IBLOCK (inum (inodes ?t ip)) (sb ?t)"
  have B: "?B = IBLOCK (inum (inodes s ip)) (sb s)" by simp
  have t: "room (Suc 0) ?t" "idev (inodes ?t ip) = ROOTDEV" "vlock (absc ?t) ?B = None" "?B \<notin> log_area (lstart ?t)" "locked_blocks ?t = {}"
    using assms by (auto simp: file_ok_def locked_blocks_def)
  obtain s' where u: "iupdate me ip ?t = Inr s'" "txn_step {?B} ?t s'" "sb s' = sb ?t" "inodes s' = inodes ?t"
    by (rule iupdate_spec[OF t(1-4), where me = me])
  have o: "b \<noteq> IBLOCK (inum (inodes s ip)) (sb s) \<Longrightarrow> blk s' b = blk s b" for b using u(2) by (auto simp: txn_step_def)
  note f = iupdate_file[OF assms(4) _ o]
  show thesis
  proof (rule that[of s'])
    show "room 0 s'" by (rule room_step[OF t(1) u(2)]) (use t(5) in simp)
  qed (use u f in simp_all)
qed

lemma isize_same: "upd_inode ip (\<lambda>x. x\<lparr>isize := isize (inodes s ip)\<rparr>) s = s"
  by (simp add: upd_inode_def)

lemma writei_spec:
  assumes "room (blocks_of (unat off) (length c) + 1) s" "locked_blocks s = {}" "idev (inodes s ip) = ROOTDEV" "file_ok s ip"
    and "off \<le> isize (inodes s ip)" "unat off + length c \<le> MAXFILE * BSIZE"
    and "\<And>k. k < unat off + length c \<Longrightarrow> file_block s ip (k div BSIZE) \<noteq> 0"
  obtains s' where "writei local_source me ip c off (of_nat (length c)) s = Inr (int (length c), [], s')" "room 0 s'"
    "inodes s' ip = (inodes s ip)\<lparr>isize := max (isize (inodes s ip)) (off + of_nat (length c))\<rparr>"
    "\<And>bn. file_block s' ip bn = file_block s ip bn"
    "\<And>k. k < MAXFILE * BSIZE \<Longrightarrow> file_block s ip (k div BSIZE) \<noteq> 0 \<Longrightarrow>
      file_byte s' ip k = (if unat off \<le> k \<and> k < unat off + length c then c ! (k - unat off) else file_byte s ip k)"
proof -
  let ?n = "of_nat (length c) :: uint32" and ?x = "inodes s ip"
  have n: "unat ?n = length c" using assms(6) MAXFILE_bytes by (simp add: unat_of_nat)
  have e: "unat (off + ?n) = unat off + length c" using unat_add_wrap[of off ?n] n assms(6) MAXFILE_bytes by simp
  have g: "\<not> (off > isize ?x \<or> off + ?n < off)" "\<not> unat (off + ?n) > MAXFILE * BSIZE"
    using assms(5,6) e n MAXFILE_bytes unfolding add_no_wrap by auto
  obtain s1 where s1: "writei_loop local_source me ip (length c) 0 (unat off) c s = Inr (0 + length c, unat off + length c, [], s1)"
    "wrote ip (unat off) c s s1" "room (Suc 0) s1" "inodes s1 = inodes s"
    using writei_loop_spec[of "unat off" "length c" 0 s ip c me 0] assms by auto
  have w1: "sb s1 = sb s" "lstart s1 = lstart s" "locked_blocks s1 = {}" "\<And>bn. file_block s1 ip bn = file_block s ip bn"
    using s1(2) assms(2) by (simp_all add: wrote_def)
  have ok1: "file_ok s1 ip" using s1(4) w1 by (intro file_ok_cong[OF assms(4)]) simp_all
  let ?z = "max (isize ?x) (off + ?n)"
  have up: "(if unat off + length c > unat (isize (inodes s1 ip)) then upd_inode ip (\<lambda>x. x\<lparr>isize := of_nat (unat off + length c)\<rparr>) s1 else s1)
      = upd_inode ip (\<lambda>x. x\<lparr>isize := ?z\<rparr>) s1"
  proof -
    have "unat off + length c > unat (isize ?x) \<longleftrightarrow> isize ?x < off + ?n" using e by (simp add: word_less_nat_alt)
    moreover have "?z = (if isize ?x < off + ?n then off + ?n else isize ?x)" by (auto simp: max_def)
    ultimately show ?thesis using s1(4) isize_same[of ip s1] by simp
  qed
  obtain s' where s': "iupdate me ip (upd_inode ip (\<lambda>x. x\<lparr>isize := ?z\<rparr>) s1) = Inr s'" "room 0 s'" "inodes s' ip = (inodes s1 ip)\<lparr>isize := ?z\<rparr>"
    "\<And>bn. file_block s' ip bn = file_block s1 ip bn"
    "\<And>k. k < MAXFILE * BSIZE \<Longrightarrow> file_block s1 ip (k div BSIZE) \<noteq> 0 \<Longrightarrow> file_byte s' ip k = file_byte s1 ip k"
    by (rule writei_finish[OF s1(3) w1(3) _ ok1, where me = me and z = ?z]) (use s1(4) assms(3) in auto)
  show thesis
  proof (rule that[of s'])
    show "writei local_source me ip c off ?n s = Inr (int (length c), [], s')"
      unfolding writei_def using g s1(1) s'(1) up n by simp
  qed (use s' s1(2,4) w1 in \<open>auto simp: wrote_def\<close>)
qed

text \<open>C7. What is written is what is read: after \<^verbatim>\<open>writei\<close> of some bytes at an offset within the file, over
  blocks that the file has, \<^verbatim>\<open>readi\<close> of that range returns just these bytes, the size has grown to
  cover them and no further, and every other byte of the file is as before.\<close>

theorem writei_readi_roundtrip:
  assumes "room (blocks_of (unat off) (length c) + 1) s" "locked_blocks s = {}" "idev (inodes s ip) = ROOTDEV" "file_ok s ip"
    and "off \<le> isize (inodes s ip)" "unat off + length c \<le> MAXFILE * BSIZE" "unat (isize (inodes s ip)) \<le> MAXFILE * BSIZE"
    and "\<And>k. k < max (unat (isize (inodes s ip))) (unat off + length c) \<Longrightarrow> file_block s ip (k div BSIZE) \<noteq> 0"
  shows "\<exists>s'. writei local_source me ip c off (of_nat (length c)) s = Inr (int (length c), [], s') \<and>
    unat (isize (inodes s' ip)) = max (unat (isize (inodes s ip))) (unat off + length c) \<and>
    (\<exists>s''. readi local_sink me ip [] off (of_nat (length c)) s' = Inr (int (length c), c, s'')) \<and>
    (\<forall>k<unat (isize (inodes s' ip)). k < unat off \<or> unat off + length c \<le> k \<longrightarrow> file_byte s' ip k = file_byte s ip k)"
proof -
  let ?n = "of_nat (length c) :: uint32" and ?x = "inodes s ip"
  obtain s' where w: "writei local_source me ip c off ?n s = Inr (int (length c), [], s')" "room 0 s'"
    "inodes s' ip = ?x\<lparr>isize := max (isize ?x) (off + ?n)\<rparr>" "\<And>bn. file_block s' ip bn = file_block s ip bn"
    "\<And>k. k < MAXFILE * BSIZE \<Longrightarrow> file_block s ip (k div BSIZE) \<noteq> 0 \<Longrightarrow>
      file_byte s' ip k = (if unat off \<le> k \<and> k < unat off + length c then c ! (k - unat off) else file_byte s ip k)"
    using writei_spec[OF assms(1-6), where me = me] assms(8) by (auto simp: less_max_iff_disj)
  have n: "unat ?n = length c" using assms(6) MAXFILE_bytes by (simp add: unat_of_nat)
  have "unat (off + ?n) = unat off + length c" using unat_add_wrap[of off ?n] n assms(6) MAXFILE_bytes by simp
  then have sz: "unat (isize (inodes s' ip)) = max (unat (isize ?x)) (unat off + length c)"
    by (simp add: w(3) max_def word_le_nat_alt)
  then have rc: "read_count (inodes s' ip) off ?n = length c" using n assms(6) MAXFILE_bytes by (simp add: read_count_def)
  have "\<exists>s''. readi local_sink me ip [] off ?n s' = Inr (int (read_count (inodes s' ip) off ?n),
      map (file_byte s' ip) [unat off..<unat off + read_count (inodes s' ip) off ?n], s'') \<and> unchanged s' s''"
    using w(2-4) sz assms(3,6-8) by (intro readi_spec) simp_all
  moreover have "map (file_byte s' ip) [unat off..<unat off + length c] = c"
    using w(5) assms(6,8) by (intro nth_equalityI) auto
  ultimately have "\<exists>s''. readi local_sink me ip [] off ?n s' = Inr (int (length c), c, s'')" unfolding rc by auto
  moreover have "file_byte s' ip k = file_byte s ip k"
    if "k < unat (isize (inodes s' ip))" "k < unat off \<or> unat off + length c \<le> k" for k
    using that w(5)[of k] sz assms(6-8) by auto
  ultimately show ?thesis using w(1) sz by blast
qed

text \<open>A file of one block, number 60, with 5 bytes in it.\<close>

definition small_file :: fstate where
  "small_file = upd_inode 1 (\<lambda>x. x\<lparr>isize := 5, addrs := (\<lambda>_. 0)(0 := 60)\<rparr>) small_inode"

lemma small_file:
  "room 29 small_file" "room 0 small_file" "locked_blocks small_file = {}" "idev (inodes small_file 1) = ROOTDEV" "isize (inodes small_file 1) = 5"
  "\<And>k. k < 10 \<Longrightarrow> file_block small_file 1 (k div BSIZE) = 60" "file_ok small_file 1"
proof -
  have "room 29 small_inode" by (rule small_inode(1))
  then show "room 29 small_file" by (simp add: small_file_def)
  show l: "locked_blocks small_file = {}" using small_inode(2) by (simp add: small_file_def locked_blocks_def)
  with \<open>room 29 small_file\<close> show "room 0 small_file" by (simp add: room_def)
  show "idev (inodes small_file 1) = ROOTDEV" "isize (inodes small_file 1) = 5" using small_inode(3) by (simp_all add: small_file_def)
  have fb: "file_block small_file 1 bn = (if bn = 0 then 60 else 0)" for bn
    by (simp add: file_block_def small_file_def NDIRECT_def)
  then show "file_block small_file 1 (k div BSIZE) = 60" if "k < 10" for k using that by (simp add: BSIZE_def)
  show "file_ok small_file 1"
    unfolding file_ok_def fb using small_inode by (simp add: small_file_def NDIRECT_def log_area_def LOGSIZE_def MAXOPBLOCKS_def)
qed

theorem readi_reads_file_witness:
  "\<exists>s'. readi local_sink 7 1 [] 2 100 small_file = Inr (3, map (file_byte small_file 1) [2..<5], s')"
proof -
  have c: "read_count (inodes small_file 1) 2 100 = 3" by (simp add: read_count_def small_file(5) del: One_nat_def)
  have "unat (isize (inodes small_file 1)) \<le> MAXFILE * BSIZE" by (simp add: small_file(5) MAXFILE_def BSIZE_def NDIRECT_def del: One_nat_def)
  moreover have "file_block small_file 1 (k div BSIZE) \<noteq> 0" if "k < unat (isize (inodes small_file 1))" for k
    using that small_file(6)[of k] by (simp add: small_file(5) del: One_nat_def)
  ultimately obtain s' where "readi local_sink 7 1 [] 2 100 small_file =
      Inr (int (read_count (inodes small_file 1) 2 100),
           map (file_byte small_file 1) [unat (2 :: uint32)..<unat (2 :: uint32) + read_count (inodes small_file 1) 2 100], s')"
    using readi_reads_file[OF small_file(2,4), of 7 2 100] by blast
  then show ?thesis unfolding c by simp
qed

theorem writei_readi_roundtrip_witness:
  "\<exists>s' s''. writei local_source 7 1 [10, 20, 30, 40] 3 4 small_file = Inr (4, [], s') \<and>
     readi local_sink 7 1 [] 3 4 s' = Inr (4, [10, 20, 30, 40], s'') \<and> unat (isize (inodes s' 1)) = 7 \<and>
     file_byte s' 1 0 = file_byte small_file 1 0"
proof -
  let ?c = "[10, 20, 30, 40] :: byte list"
  have b: "blocks_of (unat (3 :: uint32)) (length ?c) = 1" by (simp add: blocks_of_def BSIZE_def)
  have r: "room (blocks_of (unat (3 :: uint32)) (length ?c) + 1) small_file" unfolding b by (rule room_mono[OF small_file(1)]) simp_all
  have g: "(3 :: uint32) \<le> isize (inodes small_file 1)" "unat (3 :: uint32) + length ?c \<le> MAXFILE * BSIZE"
    "unat (isize (inodes small_file 1)) \<le> MAXFILE * BSIZE"
    by (simp_all add: small_file(5) MAXFILE_def BSIZE_def NDIRECT_def del: One_nat_def)
  have "file_block small_file 1 (k div BSIZE) \<noteq> 0" if "k < max (unat (isize (inodes small_file 1))) (unat (3 :: uint32) + length ?c)" for k
    using that small_file(6)[of k] by (simp add: small_file(5) del: One_nat_def)
  from writei_readi_roundtrip[OF r small_file(3,4,7) g this, of 7] show ?thesis
    by (auto simp: small_file(5) simp del: One_nat_def)
qed

end
