(* ===== verification/Xv6_Pagetable.thy ===== *)
theory Xv6_Pagetable
  imports Xv6_Vm
begin

text \<open>
  Page tables as trees, for \<^verbatim>\<open>kernel/vm.c\<close>. A table is a tree of pages with at most three levels in
  which no page occurs twice; it stands for a function from addresses to page table entries. Shown:
  \<^verbatim>\<open>walk\<close>, \<^verbatim>\<open>mappages\<close> and \<^verbatim>\<open>uvmunmap\<close> keep the tree, and change that function exactly as they should.
\<close>

section \<open>The tree of pages\<close>

text \<open>The page at the end of a path of entry numbers.\<close>

fun node :: "'a phys_scheme \<Rightarrow> nat \<Rightarrow> nat list \<Rightarrow> nat option" where
  "node s p [] = Some p"
| "node s p (i # ks) =
     (if get_pte s (p + 8 * i) AND PTE_V \<noteq> 0 then node s (unat (PTE2PA (get_pte s (p + 8 * i)))) ks else None)"

definition path :: "nat list \<Rightarrow> bool" where
  "path ks \<longleftrightarrow> length ks \<le> 2 \<and> set ks \<subseteq> {..<512}"

text \<open>A tree whose pages are pages of memory, each reached by one path only, and none of them free.\<close>

definition vm_ok :: "nat \<Rightarrow> 'a phys_scheme \<Rightarrow> nat list \<Rightarrow> bool" where
  "vm_ok root s ps \<longleftrightarrow> free_list s ps \<and>
     (\<forall>ks p. path ks \<and> node s root ks = Some p \<longrightarrow> \<not> bad_page s p \<and> p \<notin> set ps \<and>
        (\<forall>js. path js \<and> node s root js = Some p \<longrightarrow> js = ks))"

definition idx :: "uint64 \<Rightarrow> nat list" where
  "idx va = [unat (PX 2 va), unat (PX 1 va)]"

text \<open>The entry for an address, 0 if there is none.\<close>

definition pte_of :: "'a phys_scheme \<Rightarrow> nat \<Rightarrow> uint64 \<Rightarrow> uint64" where
  "pte_of s root va = (case node s root (idx va) of None \<Rightarrow> 0 | Some q \<Rightarrow> get_pte s (q + 8 * unat (PX 0 va)))"

definition vpn :: "uint64 \<Rightarrow> nat" where
  "vpn va = unat va div PGSIZE"

lemma node_append: "node s p (ks @ js) = (case node s p ks of None \<Rightarrow> None | Some q \<Rightarrow> node s q js)"
  by (induction ks arbitrary: p) auto

lemma path_idx [simp]: "path (idx va)" "length (idx va) = 2"
  by (auto simp: path_def idx_def PX_less)

lemma path_append: "path (ks @ js) \<Longrightarrow> path ks"
  by (auto simp: path_def)

lemma path_snoc: "path ks \<Longrightarrow> length ks < 2 \<Longrightarrow> i < 512 \<Longrightarrow> path (ks @ [i])"
  by (auto simp: path_def)

lemma vpn_eq:
  assumes "va < MAXVA" "vb < MAXVA"
  shows "vpn va = vpn vb \<longleftrightarrow> idx va = idx vb \<and> unat (PX 0 va) = unat (PX 0 vb)"
proof
  have px: "unat (PX k v) = (unat v div PGSIZE div 512 ^ k) mod 512" for k v
    by (simp add: unat_PX PXSHIFT_def PGSIZE_def power_add power_mult div_mult2_eq)
  assume "vpn va = vpn vb"
  then have "unat (PX k va) = unat (PX k vb)" for k unfolding px by (simp add: vpn_def)
  then show "idx va = idx vb \<and> unat (PX 0 va) = unat (PX 0 vb)" by (simp add: idx_def)
next
  assume "idx va = idx vb \<and> unat (PX 0 va) = unat (PX 0 vb)"
  then have "PX 0 va = PX 0 vb" "PX 1 va = PX 1 vb" "PX 2 va = PX 2 vb" by (auto simp: idx_def intro: unsigned_word_eqI)
  then show "vpn va = vpn vb" using PX_inj[OF assms] by (simp add: vpn_def)
qed

section \<open>Pages that keep their contents\<close>

definition same_page :: "nat \<Rightarrow> 'a phys_scheme \<Rightarrow> 'a phys_scheme \<Rightarrow> bool" where
  "same_page p s s' \<longleftrightarrow> (\<forall>a. p \<le> a \<and> a < p + PGSIZE \<longrightarrow> pmem s' a = pmem s a)"

lemma same_page_refl [simp]: "same_page p s s"
  by (simp add: same_page_def)

lemma same_page_trans: "same_page p s t \<Longrightarrow> same_page p t u \<Longrightarrow> same_page p s u"
  by (simp add: same_page_def)

lemma get_pte_same: "same_page p s s' \<Longrightarrow> i < 512 \<Longrightarrow> get_pte s' (p + 8 * i) = get_pte s (p + 8 * i)"
  unfolding get_pte_def by (rule rd_cong(2)) (simp add: same_page_def PGSIZE_def)

lemma pages_apart:
  assumes "p mod PGSIZE = 0" "q mod PGSIZE = 0" "p \<noteq> q"
  shows "p + PGSIZE \<le> q \<or> q + PGSIZE \<le> p"
proof -
  obtain k l where e: "p = PGSIZE * k" "q = PGSIZE * l" using assms(1,2) by (auto simp: mod_eq_0_iff_dvd elim!: dvdE)
  have "Suc k \<le> l \<or> Suc l \<le> k" using assms(3) e by auto
  then show ?thesis using mult_le_mono2[of "Suc k" l PGSIZE] mult_le_mono2[of "Suc l" k PGSIZE] e by auto
qed

lemma same_page_wrbytes:
  assumes "p mod PGSIZE = 0" "q mod PGSIZE = 0" "p \<noteq> q" "d + length bs \<le> PGSIZE"
  shows "same_page p s (s\<lparr>pmem := wrbytes (pmem s) (q + d) bs\<rparr>)"
  using pages_apart[OF assms(1-3)] assms(4) by (auto simp: same_page_def intro!: wrbytes_out)

lemma same_page_memset:
  "p mod PGSIZE = 0 \<Longrightarrow> q mod PGSIZE = 0 \<Longrightarrow> p \<noteq> q \<Longrightarrow> same_page p s (s\<lparr>pmem := memset (pmem s) q c PGSIZE\<rparr>)"
  using same_page_wrbytes[of p q 0 "replicate PGSIZE c" s] by (simp add: memset_wrbytes)

lemma same_page_set_pte:
  "p mod PGSIZE = 0 \<Longrightarrow> q mod PGSIZE = 0 \<Longrightarrow> p \<noteq> q \<Longrightarrow> i < 512 \<Longrightarrow> same_page p s (set_pte (q + 8 * i) v s)"
  using same_page_wrbytes[of p q "8 * i" "enc_le 8 (unat v)" s]
  by (simp add: set_pte_def wr64_def PGSIZE_def)

lemma get_set_pte: "get_pte (set_pte a v s) a = v" "j \<noteq> i \<Longrightarrow> get_pte (set_pte (q + 8 * i) v s) (q + 8 * j) = get_pte s (q + 8 * j)"
  by (auto simp: get_pte_def set_pte_def rd_wr_same intro!: rd_wr_disj(3))

lemma get_pte_zero: "i < 512 \<Longrightarrow> get_pte (s\<lparr>pmem := memset (pmem s) r 0 PGSIZE\<rparr>) (r + 8 * i) = 0"
proof -
  assume "i < 512"
  then have "rdbytes (memset (pmem s) r 0 PGSIZE) (r + 8 * i) 8 = replicate 8 0"
    by (intro nth_equalityI) (simp_all add: memset_wrbytes wrbytes_in PGSIZE_def)
  then show ?thesis by (simp add: get_pte_def rd64_def eval_nat_numeral)
qed

lemma set_pte_sel [simp]:
  "freelist (set_pte a v s) = freelist s" "rnext (set_pte a v s) = rnext s" "kend (set_pte a v s) = kend s" "rref (set_pte a v s) = rref s"
  by (simp_all add: set_pte_def)

lemma free_list_set_pte [simp]: "free_list (set_pte a v s) ps = free_list s ps"
  by (rule free_list_cong) simp_all

lemma bad_page_set_pte [simp]: "bad_page (set_pte a v s) p = bad_page s p"
  by (rule bad_page_kend) simp

lemma node_keep:
  assumes "\<And>js q i. node s p js = Some q \<Longrightarrow> length js < length ks \<Longrightarrow> set js \<subseteq> {..<512} \<Longrightarrow> i < 512 \<Longrightarrow>
      get_pte s' (q + 8 * i) = get_pte s (q + 8 * i)" "set ks \<subseteq> {..<512}"
  shows "node s' p ks = node s p ks"
  using assms
proof (induction ks arbitrary: p)
  case (Cons k ks)
  have e: "get_pte s' (p + 8 * k) = get_pte s (p + 8 * k)" using Cons.prems(1)[of "[]" p k] Cons.prems(2) by simp
  show ?case
  proof (cases "get_pte s (p + 8 * k) AND PTE_V = 0")
    case False
    have "node s' (unat (PTE2PA (get_pte s (p + 8 * k)))) ks = node s (unat (PTE2PA (get_pte s (p + 8 * k)))) ks"
    proof (rule Cons.IH)
      fix js q i assume a: "node s (unat (PTE2PA (get_pte s (p + 8 * k)))) js = Some q" "length js < length ks" "set js \<subseteq> {..<512}" "i < (512 :: nat)"
      show "get_pte s' (q + 8 * i) = get_pte s (q + 8 * i)"
        using Cons.prems(1)[of "k # js" q i] Cons.prems(2) a False by simp
    qed (use Cons.prems(2) in simp)
    then show ?thesis using e False by simp
  qed (use e in simp)
qed simp

text \<open>A step that keeps the contents of every page of the table keeps the table.\<close>

lemma nodes_kept:
  assumes "\<And>ks p. path ks \<Longrightarrow> node s root ks = Some p \<Longrightarrow> same_page p s s'"
  shows "path ks \<Longrightarrow> node s' root ks = node s root ks" "pte_of s' root va = pte_of s root va"
proof -
  have keep: "get_pte s' (p + 8 * j) = get_pte s (p + 8 * j)" if "path ks" "node s root ks = Some p" "j < 512" for ks p j
    by (rule get_pte_same[OF assms[OF that(1,2)] that(3)])
  show nk: "node s' root ks = node s root ks" if p: "path ks" for ks
  proof (rule node_keep)
    fix js q i assume a: "node s root js = Some q" "length js < length ks" "set js \<subseteq> {..<512}" "i < (512 :: nat)"
    then have "path js" using p by (auto simp: path_def)
    then show "get_pte s' (q + 8 * i) = get_pte s (q + 8 * i)" using keep a by blast
  qed (use p in \<open>simp add: path_def\<close>)
  show "pte_of s' root va = pte_of s root va"
    using nk[of "idx va"] keep[of "idx va" _ "unat (PX 0 va)"] PX_less[of 0 va] by (simp add: pte_of_def split: option.split)
qed

section \<open>Adding a page of the table\<close>

lemma vm_node:
  assumes "vm_ok root s ps" "path ks" "node s root ks = Some p"
  shows "\<not> bad_page s p" "p mod PGSIZE = 0" "p \<notin> set ps" "0 < p" "p < 2 ^ 56"
proof -
  show b: "\<not> bad_page s p" "p \<notin> set ps" using assms unfolding vm_ok_def by blast+
  have "KERNBASE \<le> kend s" using assms(1) by (simp add: vm_ok_def free_list_def)
  then show "p mod PGSIZE = 0" "0 < p" "p < 2 ^ 56" using b(1) by (auto simp: bad_page_def KERNBASE_def PHYSTOP_def)
qed

lemma vm_node_inj:
  "vm_ok root s ps \<Longrightarrow> path ks \<Longrightarrow> node s root ks = Some p \<Longrightarrow> path js \<Longrightarrow> node s root js = Some p \<Longrightarrow> js = ks"
  unfolding vm_ok_def by blast

lemma table_entry:
  assumes "p mod PGSIZE = 0" "p < 2 ^ 56"
  shows "(PA2PTE (of_nat p) OR PTE_V) AND PTE_V \<noteq> 0" "unat (PTE2PA (PA2PTE (of_nat p) OR PTE_V)) = p"
proof -
  have u: "unat (of_nat p :: uint64) = p" using assms(2) by (simp add: unat_of_nat)
  have "PTE2PA (PA2PTE (of_nat p) OR PTE_V) = of_nat p"
    using assms u aligned_iff[of "of_nat p"] small_pa[of "of_nat p"] by (intro PTE2PA_pack) (simp_all add: PTE_FLAGS_def PTE_vals)
  then show "unat (PTE2PA (PA2PTE (of_nat p) OR PTE_V)) = p" using u by simp
  have "(x OR 1) AND 1 = (1 :: uint64)" for x by (rule bit_word_eqI) (auto simp: bit_simps)
  then show "(PA2PTE (of_nat p) OR PTE_V) AND PTE_V \<noteq> 0" by (simp add: PTE_vals)
qed

text \<open>What \<^verbatim>\<open>walk\<close> does when it adds a page for entry \<open>i\<close> of page \<open>q\<close>.\<close>

definition new_table :: "nat \<Rightarrow> nat \<Rightarrow> nat \<Rightarrow> 'a phys_scheme \<Rightarrow> 'a phys_scheme" where
  "new_table r q i s = set_pte (q + 8 * i) (PA2PTE (of_nat r) OR PTE_V) (s\<lparr>pmem := memset (pmem s) r 0 PGSIZE\<rparr>)"

lemma kalloc_same_page:
  assumes "kalloc s = (r, s')" "r \<noteq> 0" "p mod PGSIZE = 0" "p \<noteq> r"
  shows "same_page p s s'" "r mod PGSIZE = 0"
proof -
  obtain x where x: "r = x * PGSIZE" "pmem s' = memset (pmem s) r 5 PGSIZE"
    using assms(1,2) by (auto simp: kalloc_def Let_def split: option.splits)
  show r: "r mod PGSIZE = 0" using x(1) by simp
  show "same_page p s s'" using same_page_memset[OF assms(3) r assms(4), of s 5] x(2) by (simp add: same_page_def)
qed

definition grown :: "nat \<Rightarrow> 'a phys_scheme \<Rightarrow> nat list \<Rightarrow> nat list \<Rightarrow> nat \<Rightarrow> nat \<Rightarrow> nat \<Rightarrow> 'a phys_scheme \<Rightarrow> bool" where
  "grown root s ps ks q i r s' \<longleftrightarrow>
     vm_ok root s ps \<and> path ks \<and> length ks < 2 \<and> node s root ks = Some q \<and> i < 512 \<and> get_pte s (q + 8 * i) AND PTE_V = 0 \<and>
     r \<in> set ps \<and> free_list s' (remove1 r ps) \<and> kend s' = kend s \<and>
     (\<forall>p. p mod PGSIZE = 0 \<and> p \<noteq> r \<and> p \<noteq> q \<longrightarrow> same_page p s s') \<and>
     (\<forall>j<512. get_pte s' (r + 8 * j) = 0 \<and> get_pte s' (q + 8 * j) = (if j = i then PA2PTE (of_nat r) OR PTE_V else get_pte s (q + 8 * j)))"

lemma walk_grows:
  assumes ok: "vm_ok root s ps" and ks: "path ks" "length ks < 2" "node s root ks = Some q" and i: "i < 512"
    and inv: "get_pte s (q + 8 * i) AND PTE_V = 0" and al: "kalloc s = (r, s1)" "r \<noteq> 0"
  shows "grown root s ps ks q i r (new_table r q i s1)"
proof -
  let ?z = "s1\<lparr>pmem := memset (pmem s1) r 0 PGSIZE\<rparr>"
  have fl: "free_list s ps" using ok by (simp add: vm_ok_def)
  have r: "r \<in> set ps" "free_list s1 (remove1 r ps)" using pages.alloc_fresh[OF fl al] by auto
  have q: "q mod PGSIZE = 0" "q \<noteq> r" using vm_node[OF ok ks(1,3)] r(1) by auto
  have rm: "r mod PGSIZE = 0" by (rule kalloc_same_page(2)[OF al q])
  have keep: "same_page p s (new_table r q i s1)" if p: "p mod PGSIZE = 0" "p \<noteq> r" "p \<noteq> q" for p
    using same_page_trans[OF kalloc_same_page(1)[OF al p(1,2)] same_page_trans[OF same_page_memset[OF p(1) rm p(2)] same_page_set_pte[OF p(1) q(1) p(3) i]]]
    by (simp add: new_table_def)
  have zq: "same_page q s ?z" using same_page_trans[OF kalloc_same_page(1)[OF al q] same_page_memset[OF q(1) rm q(2)]] by simp
  have "same_page r ?z (new_table r q i s1)" unfolding new_table_def using rm q i by (intro same_page_set_pte) auto
  then have "get_pte (new_table r q i s1) (r + 8 * j) = 0" if "j < 512" for j
    using get_pte_same[of r ?z "new_table r q i s1" j] get_pte_zero[OF that] that by simp
  moreover have "get_pte (new_table r q i s1) (q + 8 * j) = (if j = i then PA2PTE (of_nat r) OR PTE_V else get_pte s (q + 8 * j))" if "j < 512" for j
    using get_pte_same[OF zq that] by (simp add: new_table_def get_set_pte)
  moreover have "free_list (new_table r q i s1) (remove1 r ps)" "kend (new_table r q i s1) = kend s"
    using r(2) kalloc_kend[of s] al(1) free_list_cong[of ?z s1 "remove1 r ps"] by (simp_all add: new_table_def)
  ultimately show ?thesis using ok ks i inv r(1) keep by (simp add: grown_def)
qed

lemma grown_keep:
  assumes "grown root s ps ks q i r s'" "p mod PGSIZE = 0" "p \<noteq> r" "p \<noteq> q" "j < 512"
  shows "get_pte s' (p + 8 * j) = get_pte s (p + 8 * j)"
  using assms by (intro get_pte_same) (simp_all add: grown_def)

lemma grown_node:
  assumes g: "grown root s ps ks q i r s'" and js: "path js"
  shows "node s' root js =
    (if take (Suc (length ks)) js = ks @ [i] then if length js = Suc (length ks) then Some r else None else node s root js)"
  using js
proof (induction js rule: rev_induct)
  case (snoc j js)
  note gd = g[unfolded grown_def]
  have ok: "vm_ok root s ps" and ks: "path ks" "node s root ks = Some q" and rp: "r \<in> set ps" using gd by auto
  have pj: "path js" "j < 512" using snoc.prems path_append[of js "[j]"] by (auto simp: path_def)
  note IH = snoc.IH[OF pj(1)]
  have r: "r mod PGSIZE = 0" "r < 2 ^ 56" using ok rp by (auto simp: vm_ok_def free_list_def list_all_iff bad_page_def PHYSTOP_def KERNBASE_def)
  show ?case
  proof (cases "take (Suc (length ks)) js = ks @ [i]")
    case True
    then have l: "Suc (length ks) \<le> length js" by (metis length_append_singleton length_take min.cobounded1 min.absorb_iff2)
    then have "take (Suc (length ks)) (js @ [j]) = ks @ [i]" using True by simp
    moreover have "node s' root (js @ [j]) = None"
      using IH True gd pj(2) by (auto simp: node_append split: if_splits)
    ultimately show ?thesis using l by simp
  next
    case False
    then have IH: "node s' root js = node s root js" using IH by simp
    show ?thesis
    proof (cases "js @ [j] = ks @ [i]")
      case True
      then show ?thesis using IH ks gd table_entry[OF r] by (simp add: node_append)
    next
      case ne: False
      have nt: "take (Suc (length ks)) (js @ [j]) \<noteq> ks @ [i]"
        using False ne by (cases "length js \<le> length ks") (auto simp: Suc_le_eq)
      have "get_pte s' (p + 8 * j) = get_pte s (p + 8 * j)" if p: "node s root js = Some p" for p
      proof (cases "p = q")
        case True
        then have "js = ks" using vm_node_inj[OF ok ks pj(1)] p by simp
        then show ?thesis using True ne gd pj(2) by auto
      next
        case pq: False
        have "p mod PGSIZE = 0" "p \<noteq> r" using vm_node[OF ok pj(1) p] rp by auto
        then show ?thesis using pq pj(2) by (rule grown_keep[OF g])
      qed
      then show ?thesis using IH nt by (auto simp: node_append split: option.split)
    qed
  qed
qed simp

lemma grown_old_None:
  assumes "grown root s ps ks q i r s'" "take (Suc (length ks)) js = ks @ [i]"
  shows "node s root js = None"
proof -
  have "node s root (ks @ [i]) = None" using assms(1) by (simp add: grown_def node_append)
  then have "node s root ((ks @ [i]) @ drop (Suc (length ks)) js) = None" by (subst node_append) simp
  then show ?thesis unfolding assms(2)[symmetric] append_take_drop_id .
qed

lemma grown_vm:
  assumes g: "grown root s ps ks q i r s'"
  shows "vm_ok root s' (remove1 r ps)" "node s' root (ks @ [i]) = Some r" "path (ks @ [i])" "pte_of s' root va = pte_of s root va"
proof -
  note gd = g[unfolded grown_def]
  have ok: "vm_ok root s ps" and fl: "free_list s ps" and ks: "path ks" "node s root ks = Some q" "length ks < 2" and rp: "r \<in> set ps"
    and k: "kend s' = kend s" using gd by (auto simp: vm_ok_def)
  show pk: "path (ks @ [i])" using gd by (auto intro: path_snoc)
  show nk: "node s' root (ks @ [i]) = Some r" using grown_node[OF g pk] by simp
  have dist: "set (remove1 r ps) = set ps - {r}" using fl by (simp add: free_list_def)
  have rb: "\<not> bad_page s r" using fl rp by (auto simp: free_list_def list_all_iff)
  have old: "js = ks @ [i] \<and> p = r \<or> js \<noteq> ks @ [i] \<and> p \<noteq> r \<and> node s root js = Some p"
    if "path js" "node s' root js = Some p" for js p
    using grown_node[OF g that(1)] that(2) vm_node(3)[OF ok that(1), of p] rp
    by (auto split: if_splits)
  show "vm_ok root s' (remove1 r ps)"
    unfolding vm_ok_def
  proof (intro conjI allI impI)
    show "free_list s' (remove1 r ps)" using gd by simp
    fix js p assume a: "path js \<and> node s' root js = Some p"
    show "\<not> bad_page s' p" "p \<notin> set (remove1 r ps)"
      using old[of js p] a rb vm_node(1,3)[OF ok, of js p] bad_page_kend[OF k] dist by auto
    fix ls assume "path ls \<and> node s' root ls = Some p"
    then show "ls = js" using old[of js p] old[of ls p] a vm_node_inj[OF ok, of js p ls] by auto
  qed
  have pi: "path (idx va)" by simp
  show "pte_of s' root va = pte_of s root va"
  proof (cases "take (Suc (length ks)) (idx va) = ks @ [i]")
    case True
    have "node s root (idx va) = None" by (rule grown_old_None[OF g True])
    then show ?thesis using grown_node[OF g pi] True gd PX_less by (auto simp: pte_of_def)
  next
    case False
    then have e: "node s' root (idx va) = node s root (idx va)" using grown_node[OF g pi] by simp
    have "get_pte s' (p + 8 * unat (PX 0 va)) = get_pte s (p + 8 * unat (PX 0 va))" if p: "node s root (idx va) = Some p" for p
    proof (rule grown_keep[OF g])
      show "p mod PGSIZE = 0" "p \<noteq> r" using vm_node[OF ok pi p] rp by auto
      show "p \<noteq> q" using vm_node_inj[OF ok ks(1,2) pi] p ks(3) by force
    qed (rule PX_less)
    then show ?thesis using e by (simp add: pte_of_def split: option.split)
  qed
qed

section \<open>Walking with allocation\<close>

definition idxs :: "nat \<Rightarrow> uint64 \<Rightarrow> nat list" where
  "idxs l va = map (\<lambda>k. unat (PX k va)) (rev [1..<Suc l])"

lemma idxs_simps: "idxs 0 va = []" "idxs (Suc l) va = unat (PX (Suc l) va) # idxs l va" "idxs 2 va = idx va"
  by (simp_all add: idxs_def idx_def numeral_2_eq_2)

lemma length_idxs [simp]: "length (idxs l va) = l"
  by (simp add: idxs_def)

lemma walk_from_spec:
  assumes "vm_ok root s ps" "path ks" "node s root ks = Some p" "ks @ idxs l va = idx va" "walk_from l p va True s = (a, s')"
  shows "\<exists>ps'. vm_ok root s' ps' \<and> pte_of s' root = pte_of s root \<and>
    (if a = 0 then ps' = [] else \<exists>q. node s' root (idx va) = Some q \<and> a = q + 8 * unat (PX 0 va))"
  using assms
proof (induction l arbitrary: s ps ks p)
  case 0
  then show ?case using vm_node(4)[OF 0(1-3)] by (auto simp: idxs_simps pte_addr_def)
next
  case (Suc l)
  let ?i = "unat (PX (Suc l) va)"
  have lk: "length ks < 2" "(ks @ [?i]) @ idxs l va = idx va" using arg_cong[OF Suc.prems(4), of length] Suc.prems(4) by (simp_all add: idxs_simps)
  have pk: "path (ks @ [?i])" by (rule path_snoc[OF Suc.prems(2) lk(1) PX_less])
  show ?case
  proof (cases "get_pte s (p + 8 * ?i) AND PTE_V = 0")
    case False
    then show ?thesis using Suc.prems(3,5) by (intro Suc.IH[OF Suc.prems(1) pk _ lk(2)]) (simp_all add: node_append pte_addr_def Let_def)
  next
    case True
    obtain r s1 where al: "kalloc s = (r, s1)" by fastforce
    show ?thesis
    proof (cases "r = 0")
      case r: True
      have fl: "free_list s ps" using Suc.prems(1) by (simp add: vm_ok_def)
      then have "ps = []" using pages.alloc_zero_iff[OF fl] al r by simp
      moreover have "s1 = s" using pages.alloc_none[of s] fl al \<open>ps = []\<close> by simp
      ultimately show ?thesis using Suc.prems(1,5) True al r by (auto simp: pte_addr_def Let_def)
    next
      case r: False
      let ?t = "new_table r p ?i s1"
      have g: "grown root s ps ks p ?i r ?t" by (rule walk_grows[OF Suc.prems(1,2) lk(1) Suc.prems(3) PX_less True al r])
      have "walk_from l r va True ?t = (a, s')" using Suc.prems(5) True al r by (simp add: pte_addr_def Let_def new_table_def)
      from Suc.IH[OF grown_vm(1)[OF g] pk grown_vm(2)[OF g] lk(2) this]
      show ?thesis using grown_vm(4)[OF g] by (auto simp: fun_eq_iff)
    qed
  qed
qed

lemma walk_False:
  "walk_from l p va False s = ((case node s p (idxs l va) of None \<Rightarrow> 0 | Some q \<Rightarrow> q + 8 * unat (PX 0 va)), s)"
  by (induction l arbitrary: p) (simp_all add: idxs_simps pte_addr_def Let_def)

section \<open>Storing an entry\<close>

lemma store_leaf:
  assumes ok: "vm_ok root s ps" and q: "node s root (idx va) = Some q" and va: "va < MAXVA"
    and s'_def: "s' = set_pte (q + 8 * unat (PX 0 va)) v s"
  shows "vm_ok root s' ps" "vb < MAXVA \<Longrightarrow> pte_of s' root vb = (if vpn vb = vpn va then v else pte_of s root vb)"
    "path ks \<Longrightarrow> node s' root ks = node s root ks"
proof -
  have qp: "q mod PGSIZE = 0" using vm_node(2)[OF ok _ q] by simp
  have keep: "get_pte s' (p + 8 * j) = get_pte s (p + 8 * j)" if "p mod PGSIZE = 0" "p \<noteq> q" "j < 512" for p j
    unfolding s'_def by (rule get_pte_same[OF same_page_set_pte[OF that(1) qp that(2) PX_less] that(3)])
  show nk: "node s' root ks = node s root ks" if "path ks" for ks
  proof (rule node_keep)
    fix js p j assume a: "node s root js = Some p" "length js < length ks" "set js \<subseteq> {..<512}" "j < (512 :: nat)"
    then have pj: "path js" "length js < 2" using that by (auto simp: path_def)
    then have "p \<noteq> q" using vm_node_inj[OF ok path_idx(1) q pj(1)] a(1) by force
    then show "get_pte s' (p + 8 * j) = get_pte s (p + 8 * j)" using vm_node(2)[OF ok pj(1) a(1)] a(4) by (intro keep) simp_all
  qed (use that in \<open>simp add: path_def\<close>)
  show "vm_ok root s' ps" using ok nk unfolding vm_ok_def s'_def by (simp cong: conj_cong)
  show "pte_of s' root vb = (if vpn vb = vpn va then v else pte_of s root vb)" if vb: "vb < MAXVA"
  proof (cases "idx vb = idx va")
    case True
    then show ?thesis using nk[of "idx va"] q vpn_eq[OF vb va] by (simp add: pte_of_def s'_def get_set_pte)
  next
    case False
    have "get_pte s' (p + 8 * unat (PX 0 vb)) = get_pte s (p + 8 * unat (PX 0 vb))" if p: "node s root (idx vb) = Some p" for p
      using vm_node(2)[OF ok _ p] vm_node_inj[OF ok path_idx(1) q path_idx(1), of vb] p False by (intro keep PX_less) auto
    then show ?thesis using nk[of "idx vb"] False vpn_eq[OF vb va] by (simp add: pte_of_def split: option.split)
  qed
qed

lemma vpn_next: "va < MAXVA \<Longrightarrow> unat (va + pgsz) = unat va + PGSIZE \<and> vpn (va + pgsz) = Suc (vpn va)"
  by (simp add: word_less_nat_alt MAXVA_val vpn_def unat_word_ariths PGSIZE_def)

section \<open>mappages\<close>

text \<open>The entries after pages \<open>a\<close> to \<open>la\<close> have been mapped to consecutive pages from \<open>pa\<close> on.\<close>

definition mapped_to :: "uint64 \<Rightarrow> uint64 \<Rightarrow> uint64 \<Rightarrow> uint64 \<Rightarrow> (uint64 \<Rightarrow> uint64) \<Rightarrow> uint64 \<Rightarrow> uint64" where
  "mapped_to a la pa perm f va =
     (if vpn a \<le> vpn va \<and> vpn va \<le> vpn la then PA2PTE (pa + of_nat ((vpn va - vpn a) * PGSIZE)) OR perm OR PTE_V else f va)"

definition maps_correctly :: "nat \<Rightarrow> uint64 \<Rightarrow> uint64 \<Rightarrow> uint64 \<Rightarrow> uint64 \<Rightarrow> 'a phys_scheme \<Rightarrow> (int \<times> 'a phys_scheme) res \<Rightarrow> bool" where
  "maps_correctly root a la pa perm s res \<longleftrightarrow>
     (case res of
        Inl e \<Rightarrow> e = Panic ''mappages: remap'' \<and> (\<exists>va<MAXVA. vpn a \<le> vpn va \<and> vpn va \<le> vpn la \<and> pte_of s root va AND PTE_V \<noteq> 0)
      | Inr (r, s') \<Rightarrow> \<exists>ps'. vm_ok root s' ps' \<and>
          (if r = 0 then \<forall>va<MAXVA. pte_of s' root va = mapped_to a la pa perm (pte_of s root) va
           else r = -1 \<and> ps' = [] \<and> (\<forall>va<MAXVA. vpn va < vpn a \<or> vpn la < vpn va \<longrightarrow> pte_of s' root va = pte_of s root va)))"

lemma maps_step:
  assumes m: "maps_correctly root a' la (pa + pgsz) perm s' res" and a': "vpn a' = Suc (vpn a)" "vpn a < vpn la"
    and st: "\<And>va. va < MAXVA \<Longrightarrow> pte_of s' root va = (if vpn va = vpn a then PA2PTE pa OR perm OR PTE_V else pte_of s root va)"
  shows "maps_correctly root a la pa perm s res"
proof (cases res)
  case (Inl e)
  then obtain va where "e = Panic ''mappages: remap''" "va < MAXVA" "Suc (vpn a) \<le> vpn va" "vpn va \<le> vpn la" "pte_of s' root va AND PTE_V \<noteq> 0"
    using m a' by (auto simp: maps_correctly_def)
  then show ?thesis using Inl st[of va] by (auto simp: maps_correctly_def intro!: exI[of _ va])
next
  case (Inr p)
  obtain r t where p: "p = (r, t)" by fastforce
  have eq: "mapped_to a' la (pa + pgsz) perm (pte_of s' root) va = mapped_to a la pa perm (pte_of s root) va" if "va < MAXVA" for va
  proof (cases "vpn a < vpn va")
    case True
    then have "(vpn va - vpn a) * PGSIZE = PGSIZE + (vpn va - Suc (vpn a)) * PGSIZE" by (metis Suc_diff_Suc mult_Suc)
    then show ?thesis using True a' st[OF that] by (simp add: mapped_to_def add.assoc)
  next
    case False
    then show ?thesis using a' st[OF that] by (auto simp: mapped_to_def)
  qed
  have "pte_of s' root va = pte_of s root va" if "va < MAXVA" "vpn va < vpn a \<or> vpn la < vpn va" for va
    using st[OF that(1)] that(2) a'(2) by auto
  then show ?thesis using m Inr p eq a'(1) by (auto simp: maps_correctly_def split: if_splits intro!: exI)
qed

lemma mappages_loop_step:
  assumes "vm_ok root s ps" "a < MAXVA"
  obtains (full) s1 where "mappages_loop root a la pa perm s = Inr (-1, s1)" "vm_ok root s1 []" "pte_of s1 root = pte_of s root"
  | (remap) "mappages_loop root a la pa perm s = Inl (Panic ''mappages: remap'')" "pte_of s root a AND PTE_V \<noteq> 0"
  | (ok) s2 ps2 where "mappages_loop root a la pa perm s = (if a = la then Inr (0, s2) else mappages_loop root (a + pgsz) la (pa + pgsz) perm s2)"
      "vm_ok root s2 ps2" "\<And>va. va < MAXVA \<Longrightarrow> pte_of s2 root va = (if vpn va = vpn a then PA2PTE pa OR perm OR PTE_V else pte_of s root va)"
proof -
  obtain x s1 where w: "walk_from 2 root a True s = (x, s1)" by fastforce
  obtain ps1 where s1: "vm_ok root s1 ps1" "pte_of s1 root = pte_of s root"
    "if x = 0 then ps1 = [] else \<exists>q. node s1 root (idx a) = Some q \<and> x = q + 8 * unat (PX 0 a)"
    using walk_from_spec[OF assms(1), of "[]" root 2 a x s1] w by (auto simp: path_def idxs_simps)
  have wk: "walk root a True s = Inr (x, s1)" using assms(2) w by (simp add: walk_def not_le)
  show thesis
  proof (cases "x = 0")
    case True
    then show thesis using full s1 wk by (simp add: mappages_loop.simps[of root a la pa perm s])
  next
    case False
    then obtain q where q: "node s1 root (idx a) = Some q" "x = q + 8 * unat (PX 0 a)" using s1(3) by auto
    then have g: "get_pte s1 x = pte_of s root a" using s1(2)[symmetric] by (simp add: pte_of_def)
    let ?s2 = "set_pte x (PA2PTE pa OR perm OR PTE_V) s1"
    have "?s2 = set_pte (q + 8 * unat (PX 0 a)) (PA2PTE pa OR perm OR PTE_V) s1" by (simp add: q(2))
    note st = store_leaf[OF s1(1) q(1) assms(2) this]
    show thesis
    proof (cases "pte_of s root a AND PTE_V = 0")
      case True
      show thesis
      proof (rule ok[of ?s2 ps1])
        show "mappages_loop root a la pa perm s = (if a = la then Inr (0, ?s2) else mappages_loop root (a + pgsz) la (pa + pgsz) perm ?s2)"
          unfolding mappages_loop.simps[of root a la pa perm s] wk using False True g by simp
      qed (use st s1(2) in auto)
    qed (use remap False g wk in \<open>simp add: mappages_loop.simps[of root a la pa perm s]\<close>)
  qed
qed

lemma aligned_vpn: "unat a mod PGSIZE = 0 \<Longrightarrow> unat a = vpn a * PGSIZE"
  by (auto simp: vpn_def)

lemma mappages_loop_spec:
  assumes "vm_ok root s ps" "la < MAXVA" "vpn la = vpn a + n" "unat a mod PGSIZE = 0" "unat la mod PGSIZE = 0"
  shows "maps_correctly root a la pa perm s (mappages_loop root a la pa perm s)"
  using assms
proof (induction n arbitrary: a pa s ps)
  case (0 a pa s ps)
  have "unat a = unat la" using aligned_vpn[OF 0(4)] aligned_vpn[OF 0(5)] 0(3) by simp
  then have al: "a = la" by (rule unsigned_word_eqI)
  show ?case
    by (cases rule: mappages_loop_step[OF 0(1), of a la pa perm])
      (use al 0(2) in \<open>auto simp: maps_correctly_def mapped_to_def\<close>)
next
  case (Suc n)
  have a: "unat a < unat la" using aligned_vpn[OF Suc.prems(4)] aligned_vpn[OF Suc.prems(5)] Suc.prems(3) by (simp add: PGSIZE_def)
  then have am: "a < MAXVA" "a \<noteq> la" using Suc.prems(2) by (auto simp: word_less_nat_alt)
  note nx = vpn_next[OF am(1)]
  show ?case
  proof (cases rule: mappages_loop_step[OF Suc.prems(1) am(1), of la pa perm, case_names full remap ok])
    case (ok s2 ps2)
    have "maps_correctly root (a + pgsz) la (pa + pgsz) perm s2 (mappages_loop root (a + pgsz) la (pa + pgsz) perm s2)"
      using Suc.prems nx by (intro Suc.IH[OF ok(2)]) simp_all
    then show ?thesis using ok(1) am(2) nx Suc.prems(3) by (auto intro!: maps_step[OF _ _ _ ok(3)])
  qed (use am Suc.prems(3) in \<open>auto simp: maps_correctly_def\<close>)
qed

lemma vpn_PGROUNDDOWN [simp]: "vpn (PGROUNDDOWN a) = vpn a" "unat (PGROUNDDOWN a) mod PGSIZE = 0"
  by (simp_all add: vpn_def unat_PGROUNDDOWN PGSIZE_def)

lemma maps_correctly_rounded:
  "maps_correctly root (PGROUNDDOWN a) (PGROUNDDOWN b) pa perm s res = maps_correctly root a b pa perm s res"
proof -
  have "mapped_to (PGROUNDDOWN a) (PGROUNDDOWN b) pa perm f = mapped_to a b pa perm f" for f by (simp add: fun_eq_iff mapped_to_def)
  then show ?thesis by (simp only: maps_correctly_def vpn_PGROUNDDOWN(1))
qed


section \<open>uvmunmap\<close>

text \<open>A page that only this address space holds, and not as part of the table.\<close>

definition owned :: "nat \<Rightarrow> 'a phys_scheme \<Rightarrow> nat list \<Rightarrow> nat \<Rightarrow> bool" where
  "owned root s ps x \<longleftrightarrow> \<not> bad_page s x \<and> rref s (x div PGSIZE) = 1 \<and> x \<notin> set ps \<and> (\<forall>ks. path ks \<longrightarrow> node s root ks \<noteq> Some x)"

lemma kfree_owned:
  assumes ok: "vm_ok root s ps" and x: "owned root s ps x"
  obtains s' where "kfree s x = Inr s'" "vm_ok root s' (x # ps)" "pte_of s' root = pte_of s root" "\<And>ks. path ks \<Longrightarrow> node s' root ks = node s root ks"
    "rref s' = rref s" "kend s' = kend s"
proof -
  let ?z = "s\<lparr>pmem := memset (pmem s) x 1 PGSIZE\<rparr>"
  let ?s = "push_run (x div PGSIZE) ?z"
  have xp: "x mod PGSIZE = 0" using x by (auto simp: owned_def bad_page_def)
  have sp: "same_page p s ?s" if "p mod PGSIZE = 0" "p \<noteq> x" for p
    using same_page_memset[OF that(1) xp that(2), of s 1] by (simp add: same_page_def push_run_def)
  have kf: "kfree s x = Inr ?s" using x by (simp add: kfree_def owned_def Let_def)
  have sn: "same_page p s ?s" if "path ks" "node s root ks = Some p" for ks p
    using vm_node(2)[OF ok that] x that by (intro sp) (auto simp: owned_def)
  have nk: "node ?s root ks = node s root ks" if "path ks" for ks by (rule nodes_kept(1)[OF _ that]) (rule sn)
  have pe: "pte_of ?s root va = pte_of s root va" for va by (rule nodes_kept(2)) (rule sn)
  have fl: "free_list ?s (x # ps)"
    by (rule pages.giveback_law[OF _ _ kf]) (use ok x in \<open>simp_all add: vm_ok_def owned_def\<close>)
  moreover have ke: "kend ?s = kend s" by (simp add: push_run_def)
  moreover have "vm_ok root ?s (x # ps)"
    unfolding vm_ok_def
  proof (intro conjI allI impI)
    fix ks p assume a: "path ks \<and> node ?s root ks = Some p"
    then have n: "node s root ks = Some p" using nk[of ks] by metis
    show "\<not> bad_page ?s p" "p \<notin> set (x # ps)" using vm_node[OF ok _ n] a x n bad_page_kend[OF ke] by (auto simp: owned_def)
    fix js assume "path js \<and> node ?s root js = Some p"
    then show "js = ks" using vm_node_inj[OF ok _ n] a nk[of js] by metis
  qed (rule fl)
  ultimately show thesis using that[OF kf] nk pe by (simp add: fun_eq_iff push_run_def)
qed

text \<open>What is needed to unmap a page: nothing if it is not mapped, else a leaf, and a page of our own if it is to be freed.\<close>

definition can_unmap :: "bool \<Rightarrow> nat \<Rightarrow> 'a phys_scheme \<Rightarrow> nat list \<Rightarrow> uint64 \<Rightarrow> bool" where
  "can_unmap do_free root s ps va \<longleftrightarrow> (pte_of s root va AND PTE_V \<noteq> 0 \<longrightarrow>
     PTE_FLAGS (pte_of s root va) \<noteq> PTE_V \<and> (do_free \<longrightarrow> owned root s ps (unat (PTE2PA (pte_of s root va)))))"

lemma unmap_page_spec:
  assumes ok: "vm_ok root s ps" and va: "va < MAXVA" and u: "can_unmap do_free root s ps va"
  obtains s' ps' where "unmap_page root va do_free s = Inr s'" "vm_ok root s' ps'"
    "\<And>vb. vb < MAXVA \<Longrightarrow> pte_of s' root vb = (if vpn vb = vpn va \<and> pte_of s root vb AND PTE_V \<noteq> 0 then 0 else pte_of s root vb)"
    "\<And>ks. path ks \<Longrightarrow> node s' root ks = node s root ks" "rref s' = rref s" "kend s' = kend s"
    "set ps' = set ps \<union> (if do_free \<and> pte_of s root va AND PTE_V \<noteq> 0 then {unat (PTE2PA (pte_of s root va))} else {})"
proof -
  have same: "pte_of s root vb = pte_of s root va" if "vb < MAXVA" "vpn vb = vpn va" for vb
    using vpn_eq[OF that(1) va] that(2) by (simp add: pte_of_def split: option.split)
  have wk: "walk root va False s = Inr ((case node s root (idx va) of None \<Rightarrow> 0 | Some q \<Rightarrow> q + 8 * unat (PX 0 va)), s)"
    using va by (simp add: walk_def not_le walk_False idxs_simps)
  show thesis
  proof (cases "pte_of s root va AND PTE_V = 0")
    case True
    then have "unmap_page root va do_free s = Inr s" by (simp add: unmap_page_def wk pte_of_def split: option.splits)
    then show thesis by (rule that[of s ps]) (use ok same True in auto)
  next
    case False
    then obtain q where q: "node s root (idx va) = Some q" by (auto simp: pte_of_def split: option.splits)
    let ?a = "q + 8 * unat (PX 0 va)" and ?x = "unat (PTE2PA (pte_of s root va))"
    have pe: "get_pte s ?a = pte_of s root va" "?a \<noteq> 0" using q vm_node(4)[OF ok _ q] by (simp_all add: pte_of_def)
    obtain t ps1 where t: "(if do_free then kfree s ?x else Inr s) = Inr t" "vm_ok root t ps1" "pte_of t root = pte_of s root"
      "\<And>ks. path ks \<Longrightarrow> node t root ks = node s root ks" "rref t = rref s" "kend t = kend s" "set ps1 = set ps \<union> (if do_free then {?x} else {})"
    proof (cases do_free)
      case True
      then have "owned root s ps ?x" using u False by (simp add: can_unmap_def)
      then obtain t where "kfree s ?x = Inr t" "vm_ok root t (?x # ps)" "pte_of t root = pte_of s root" "\<And>ks. path ks \<Longrightarrow> node t root ks = node s root ks"
        "rref t = rref s" "kend t = kend s" using kfree_owned[OF ok] by metis
      then show ?thesis using True by (intro that[of t "?x # ps"]) auto
    qed (use ok that[of s ps] in auto)
    have q': "node t root (idx va) = Some q" using t(4) q by simp
    note st = store_leaf[OF t(2) q' va refl, where v = 0]
    have "unmap_page root va do_free s = Inr (set_pte ?a 0 t)"
      using wk q pe False u t(1) by (auto simp: unmap_page_def can_unmap_def split: if_splits)
    then show thesis by (rule that[of "set_pte ?a 0 t" ps1]) (use st t same False in auto)
  qed
qed

text \<open>The entries after the pages numbered \<open>m\<close> to \<open>m + n\<close> have been unmapped, and the pages that were mapped there.\<close>

definition unmapped :: "nat \<Rightarrow> nat \<Rightarrow> (uint64 \<Rightarrow> uint64) \<Rightarrow> uint64 \<Rightarrow> uint64" where
  "unmapped m n f va = (if m \<le> vpn va \<and> vpn va < m + n \<and> f va AND PTE_V \<noteq> 0 then 0 else f va)"

definition pages_of :: "nat \<Rightarrow> nat \<Rightarrow> (uint64 \<Rightarrow> uint64) \<Rightarrow> nat set" where
  "pages_of m n f = (\<lambda>va. unat (PTE2PA (f va))) ` {va. va < MAXVA \<and> m \<le> vpn va \<and> vpn va < m + n \<and> f va AND PTE_V \<noteq> 0}"

text \<open>Every page of the range can be unmapped, and no physical page is mapped twice in it.\<close>

definition unmappable :: "bool \<Rightarrow> nat \<Rightarrow> 'a phys_scheme \<Rightarrow> nat list \<Rightarrow> nat \<Rightarrow> nat \<Rightarrow> bool" where
  "unmappable do_free root s ps m n \<longleftrightarrow>
     (\<forall>va<MAXVA. m \<le> vpn va \<and> vpn va < m + n \<longrightarrow> can_unmap do_free root s ps va \<and>
        (\<forall>vb<MAXVA. m \<le> vpn vb \<and> vpn vb < m + n \<and> vpn va \<noteq> vpn vb \<and> pte_of s root va AND PTE_V \<noteq> 0 \<and> pte_of s root vb AND PTE_V \<noteq> 0 \<longrightarrow>
           PTE2PA (pte_of s root va) \<noteq> PTE2PA (pte_of s root vb)))"

lemma unat_eq_iff: "unat a = unat b \<longleftrightarrow> a = b" for a b :: uint64
  by (auto intro: unsigned_word_eqI)

lemma unmappableD:
  assumes "unmappable do_free root s ps m n" "va < MAXVA" "m \<le> vpn va" "vpn va < m + n"
  shows "can_unmap do_free root s ps va"
    "vb < MAXVA \<Longrightarrow> m \<le> vpn vb \<Longrightarrow> vpn vb < m + n \<Longrightarrow> vpn va \<noteq> vpn vb \<Longrightarrow> pte_of s root va AND PTE_V \<noteq> 0 \<Longrightarrow>
      pte_of s root vb AND PTE_V \<noteq> 0 \<Longrightarrow> PTE2PA (pte_of s root va) \<noteq> PTE2PA (pte_of s root vb)"
  using assms unfolding unmappable_def by blast+

lemma unmappable_step:
  assumes u: "unmappable do_free root s ps m (Suc n)" and va: "va < MAXVA" "vpn va = m"
    and st: "\<And>vb. vb < MAXVA \<Longrightarrow> pte_of s' root vb = (if vpn vb = vpn va \<and> pte_of s root vb AND PTE_V \<noteq> 0 then 0 else pte_of s root vb)"
    and k: "\<And>ks. path ks \<Longrightarrow> node s' root ks = node s root ks" "rref s' = rref s" "kend s' = kend s"
    and ps': "set ps' = set ps \<union> (if do_free \<and> pte_of s root va AND PTE_V \<noteq> 0 then {unat (PTE2PA (pte_of s root va))} else {})"
  shows "unmappable do_free root s' ps' (Suc m) n"
  unfolding unmappable_def
proof (intro allI impI conjI)
  fix vb assume vb: "vb < MAXVA" "Suc m \<le> vpn vb \<and> vpn vb < Suc m + n"
  have e: "pte_of s' root v = pte_of s root v" if "v < MAXVA" "Suc m \<le> vpn v" for v using st[OF that(1)] that(2) va(2) by simp
  have c: "can_unmap do_free root s ps vb" using u vb unfolding unmappable_def by simp
  have d: "PTE2PA (pte_of s root va) \<noteq> PTE2PA (pte_of s root v)"
    if "v < MAXVA" "Suc m \<le> vpn v" "vpn v < Suc m + n" "pte_of s root va AND PTE_V \<noteq> 0" "pte_of s root v AND PTE_V \<noteq> 0" for v
    by (rule unmappableD(2)[OF u va(1) _ _ that(1)]) (use va that in auto)
  from d[of vb] have "unat (PTE2PA (pte_of s root vb)) \<notin> set ps' \<longleftrightarrow> unat (PTE2PA (pte_of s root vb)) \<notin> set ps"
    if "pte_of s root vb AND PTE_V \<noteq> 0" using vb that ps' by (auto simp: unat_eq_iff dest: sym)
  then show "can_unmap do_free root s' ps' vb"
    using c e[OF vb(1)] vb(2) k bad_page_kend[OF k(3)] by (auto simp: can_unmap_def owned_def)
  fix vc assume vc: "vc < MAXVA" "Suc m \<le> vpn vc \<and> vpn vc < Suc m + n \<and> vpn vb \<noteq> vpn vc \<and> pte_of s' root vb AND PTE_V \<noteq> 0 \<and> pte_of s' root vc AND PTE_V \<noteq> 0"
  then show "PTE2PA (pte_of s' root vb) \<noteq> PTE2PA (pte_of s' root vc)"
    using e[of vb] e[of vc] vb unmappableD(2)[OF u, of vb vc] by simp
qed

lemma pages_of_Suc:
  assumes va: "va < MAXVA" "vpn va = m" and same: "\<And>vb. vb < MAXVA \<Longrightarrow> vpn vb = m \<Longrightarrow> f vb = f va"
    and g: "\<And>vb. vb < MAXVA \<Longrightarrow> vpn vb \<noteq> m \<Longrightarrow> g vb = f vb"
  shows "pages_of m (Suc n) f = pages_of (Suc m) n g \<union> (if f va AND PTE_V \<noteq> 0 then {unat (PTE2PA (f va))} else {})"
proof -
  define w where "w = f va"
  have same: "f vb = w" if "vb < MAXVA" "vpn vb = m" for vb unfolding w_def by (rule same[OF that])
  have "{vb. vb < MAXVA \<and> m \<le> vpn vb \<and> vpn vb < m + Suc n \<and> f vb AND PTE_V \<noteq> 0} =
      {vb. vb < MAXVA \<and> Suc m \<le> vpn vb \<and> vpn vb < Suc m + n \<and> g vb AND PTE_V \<noteq> 0} \<union> {vb. vb < MAXVA \<and> vpn vb = m \<and> w AND PTE_V \<noteq> 0}"
    by (rule set_eqI) (use same g in \<open>auto simp: Suc_le_eq le_less\<close>)
  moreover have "(\<lambda>vb. unat (PTE2PA (f vb))) ` {vb. vb < MAXVA \<and> vpn vb = m \<and> w AND PTE_V \<noteq> 0} =
      (if w AND PTE_V \<noteq> 0 then {unat (PTE2PA w)} else {})"
    using va same by auto
  moreover have "(\<lambda>vb. unat (PTE2PA (f vb))) ` {vb. vb < MAXVA \<and> Suc m \<le> vpn vb \<and> vpn vb < Suc m + n \<and> g vb AND PTE_V \<noteq> 0} = pages_of (Suc m) n g"
    unfolding pages_of_def using g by (intro image_cong) auto
  ultimately show ?thesis by (simp only: pages_of_def image_Un w_def)
qed

lemma uvmunmap_loop_spec:
  assumes "vm_ok root s ps" "unat va + n * PGSIZE \<le> unat MAXVA" "unat va mod PGSIZE = 0" "unat e = unat va + n * PGSIZE"
    and "unmappable do_free root s ps (vpn va) n"
  shows "\<exists>s' ps'. uvmunmap_loop root va e do_free s = Inr s' \<and> vm_ok root s' ps' \<and>
    (\<forall>vb<MAXVA. pte_of s' root vb = unmapped (vpn va) n (pte_of s root) vb) \<and>
    set ps' = set ps \<union> (if do_free then pages_of (vpn va) n (pte_of s root) else {})"
  using assms
proof (induction n arbitrary: va s ps)
  case 0
  then have "uvmunmap_loop root va e do_free s = Inr s" by (simp add: uvmunmap_loop.simps word_less_nat_alt)
  then show ?case using 0 by (auto simp: unmapped_def pages_of_def)
next
  case (Suc n)
  have lt: "va < MAXVA" "va < e" using Suc.prems(2,4) by (auto simp: word_less_nat_alt PGSIZE_def)
  note nx = vpn_next[OF lt(1)]
  have cu: "can_unmap do_free root s ps va" by (rule unmappableD(1)[OF Suc.prems(5) lt(1)]) simp_all
  obtain s1 ps1 where s1: "unmap_page root va do_free s = Inr s1" "vm_ok root s1 ps1"
    "\<And>vb. vb < MAXVA \<Longrightarrow> pte_of s1 root vb = (if vpn vb = vpn va \<and> pte_of s root vb AND PTE_V \<noteq> 0 then 0 else pte_of s root vb)"
    "\<And>ks. path ks \<Longrightarrow> node s1 root ks = node s root ks" "rref s1 = rref s" "kend s1 = kend s"
    "set ps1 = set ps \<union> (if do_free \<and> pte_of s root va AND PTE_V \<noteq> 0 then {unat (PTE2PA (pte_of s root va))} else {})"
    by (rule unmap_page_spec[OF Suc.prems(1) lt(1) cu]) (rule that)
  have "unmappable do_free root s1 ps1 (Suc (vpn va)) n" by (rule unmappable_step[OF Suc.prems(5) lt(1) refl s1(3-7)])
  then obtain s' ps' where s': "uvmunmap_loop root (va + pgsz) e do_free s1 = Inr s'" "vm_ok root s' ps'"
    "\<forall>vb<MAXVA. pte_of s' root vb = unmapped (Suc (vpn va)) n (pte_of s1 root) vb"
    "set ps' = set ps1 \<union> (if do_free then pages_of (Suc (vpn va)) n (pte_of s1 root) else {})"
    using Suc.IH[OF s1(2), of "va + pgsz"] nx Suc.prems(2-4) by auto
  have same: "pte_of s root vb = pte_of s root va" if "vb < MAXVA" "vpn vb = vpn va" for vb
    using vpn_eq[OF that(1) lt(1)] that(2) by (simp add: pte_of_def split: option.split)
  have "uvmunmap_loop root va e do_free s = Inr s'" using s1(1) s'(1) lt(2) by (simp add: uvmunmap_loop.simps[of root va])
  moreover have "pte_of s' root vb = unmapped (vpn va) (Suc n) (pte_of s root) vb" if "vb < MAXVA" for vb
    using s'(3) s1(3)[OF that] that by (auto simp: unmapped_def)
  moreover have "pages_of (vpn va) (Suc n) (pte_of s root) =
      pages_of (Suc (vpn va)) n (pte_of s1 root) \<union> (if pte_of s root va AND PTE_V \<noteq> 0 then {unat (PTE2PA (pte_of s root va))} else {})"
    by (rule pages_of_Suc[OF lt(1) refl]) (use same s1(3) in simp_all)
  ultimately show ?case using s'(2,4) s1(7) by (intro exI[of _ s'] exI[of _ ps']) auto
qed

text \<open>C35. \<^verbatim>\<open>uvmunmap\<close> of page-aligned addresses below \<^verbatim>\<open>MAXVA\<close>. The hypothesis \<open>unmappable\<close>: the valid entries of the
  range are leaves, each physical page is mapped by at most one of them, and when pages are to be freed
  each of them has the reference count 1 and is neither free nor a page of the table. Pages of the range
  need not be mapped, although the comment in the code asks for it. Then \<^verbatim>\<open>uvmunmap\<close> succeeds, clears exactly the
  valid entries of the range, keeps the table a tree of distinct pages, and when asked to free adds just
  the physical pages that were mapped there to the free list.\<close>

theorem uvmunmap_correct:
  assumes "vm_ok root s ps" "va mod pgsz = 0" "unat va + n * PGSIZE \<le> unat MAXVA"
    and "unmappable do_free root s ps (vpn va) n"
  shows "\<exists>s' ps'. uvmunmap root va (of_nat n) do_free s = Inr s' \<and> vm_ok root s' ps' \<and>
    (\<forall>vb<MAXVA. pte_of s' root vb = unmapped (vpn va) n (pte_of s root) vb) \<and>
    set ps' = set ps \<union> (if do_free then pages_of (vpn va) n (pte_of s root) else {})"
proof -
  have n: "n * PGSIZE < 2 ^ 64" "n < 2 ^ 64" using assms(3) MAXVA_val by (auto simp: PGSIZE_def)
  have "unat (va mod pgsz) = unat va mod PGSIZE" by (simp add: unat_mod PGSIZE_def)
  then have al: "unat va mod PGSIZE = 0" using assms(2) by simp
  have "unat (of_nat n * pgsz) = n * PGSIZE" using n by (simp add: unat_word_ariths unat_of_nat PGSIZE_def)
  then have e: "unat (va + of_nat n * pgsz) = unat va + n * PGSIZE" using assms(3) MAXVA_val by (simp add: unat_word_ariths)
  show ?thesis using uvmunmap_loop_spec[OF assms(1,3) al e assms(4)] assms(2) by (simp add: uvmunmap_def)
qed

section \<open>Two small address spaces\<close>

text \<open>Two tables, each with one page per level, that map the same data page at address 0 for reading;
  one more page is free.\<close>

definition page :: "nat \<Rightarrow> nat" where
  "page k = KERNBASE + k * PGSIZE"

definition tiny_table :: "nat \<Rightarrow> memory \<Rightarrow> memory" where
  "tiny_table b m = wr64 (wr64 (wr64 m (page b) (PA2PTE (of_nat (page (b + 1))) OR PTE_V)) (page (b + 1)) (PA2PTE (of_nat (page (b + 2))) OR PTE_V))
     (page (b + 2)) (PA2PTE (of_nat (page 3)) OR PTE_R OR PTE_U OR PTE_V)"

definition tiny_vm :: "'a phys_scheme \<Rightarrow> 'a phys_scheme" where
  "tiny_vm s = s\<lparr>pmem := tiny_table 5 (tiny_table 0 (\<lambda>_. 0)), kend := KERNBASE, freelist := Some (page 4 div PGSIZE),
     rnext := (\<lambda>_. None), rref := (\<lambda>_. 1)\<rparr>"

lemma rd64_zero: "rd64 (\<lambda>_. 0) a = 0"
proof -
  have "rdbytes (\<lambda>_. 0) a 8 = replicate 8 0" by (intro nth_equalityI) simp_all
  then show ?thesis by (simp add: rd64_def eval_nat_numeral)
qed

lemma tiny_pte:
  assumes "i < 512" "k < 3" "b = 0 \<or> b = 5"
  shows "get_pte (tiny_vm s) (page (b + k) + 8 * i) =
    (if i = 0 then if k = 2 then PA2PTE (of_nat (page 3)) OR PTE_R OR PTE_U OR PTE_V else PA2PTE (of_nat (page (Suc (b + k)))) OR PTE_V else 0)"
proof -
  consider "k = 0" | "k = 1" | "k = 2" using assms(2) by linarith
  then show ?thesis
    by cases (use assms(1,3) in \<open>auto simp: get_pte_def tiny_vm_def tiny_table_def page_def PGSIZE_def rd_wr_same rd_wr_disj rd64_zero\<close>)
qed

lemma page_facts: "page k mod PGSIZE = 0" "k \<le> 7 \<Longrightarrow> page k < 2 ^ 56" "page k = page l \<longleftrightarrow> k = l" "k \<le> 7 \<Longrightarrow> \<not> bad_page (tiny_vm s) (page k)"
  by (simp_all add: page_def KERNBASE_def PGSIZE_def bad_page_def tiny_vm_def PHYSTOP_def)

lemma tiny_node:
  assumes "path ks" "b = 0 \<or> b = 5"
  shows "node (tiny_vm s) (page b) ks = (if set ks \<subseteq> {0} then Some (page (b + length ks)) else None)"
proof -
  have z: "node (tiny_vm s) (page (b + k)) (i # l) = (if i = 0 then node (tiny_vm s) (page (Suc (b + k))) l else None)" if "k < 2" "i < 512" for k i l
    using that assms(2) tiny_pte[of i k b s] table_entry[of "page (Suc (b + k))"] page_facts(1,2)[of "Suc (b + k)"] by (auto simp only: node.simps) auto
  have z0: "node (tiny_vm s) (page b) (i # l) = (if i = 0 then node (tiny_vm s) (page (Suc b)) l else None)" if "i < 512" for i l
    using z[of 0 i l] that by (simp del: node.simps)
  have z1: "node (tiny_vm s) (page (Suc b)) (i # l) = (if i = 0 then node (tiny_vm s) (page (Suc (Suc b))) l else None)" if "i < 512" for i l
    using z[of 1 i l] that by (simp del: node.simps)
  consider "ks = []" | i where "ks = [i]" "i < 512" | i j where "ks = [i, j]" "i < 512" "j < 512"
  proof (cases ks)
    case (Cons i l)
    then show ?thesis using assms that by (cases l) (auto simp: path_def)
  qed (rule that)
  then show ?thesis
    by cases (simp_all add: z0 z1 del: node.simps(2))
qed

lemma tiny_vm:
  assumes "b = 0 \<or> b = 5"
  shows "vm_ok (page b) (tiny_vm s) [page 4]"
proof -
  have l: "js = replicate (length js) 0" if "set js \<subseteq> {0 :: nat}" for js using that by (metis replicate_length_same singletonD subsetD)
  have fl: "free_list (tiny_vm s) [page 4]" using page_facts(4)[of 4 s] by (simp add: free_list_def tiny_vm_def)
  show ?thesis
    unfolding vm_ok_def
  proof (intro conjI allI impI, rule fl)
    fix ks p assume a: "path ks \<and> node (tiny_vm s) (page b) ks = Some p"
    then have k: "set ks \<subseteq> {0}" "p = page (b + length ks)" "length ks \<le> 2" using tiny_node[OF _ assms, of ks s] by (auto simp: path_def split: if_splits)
    then show "\<not> bad_page (tiny_vm s) p" "p \<notin> set [page 4]" using assms by (auto simp: page_facts)
    fix js assume "path js \<and> node (tiny_vm s) (page b) js = Some p"
    then have "set js \<subseteq> {0}" "length js = length ks" using k(2) tiny_node[OF _ assms, of js s] page_facts(3) by (auto split: if_splits)
    then show "js = ks" using l[of js] l[of ks] k(1) by metis
  qed
qed

lemma vpn0:
  assumes "va < MAXVA" "vpn va = 0"
  shows "pte_of s root va = pte_of s root 0"
proof -
  have "idx va = idx 0 \<and> unat (PX 0 va) = unat (PX 0 0)" using vpn_eq[OF assms(1), of 0] assms(2) by (simp add: vpn_def word_less_nat_alt MAXVA_val)
  then show ?thesis by (simp add: pte_of_def split: option.split)
qed

lemma tiny_pte0:
  assumes "b = 0 \<or> b = 5"
  shows "pte_of (tiny_vm s) (page b) 0 = PA2PTE (of_nat (page 3)) OR (PTE_R OR PTE_U OR PTE_V)"
    and "pte_of (tiny_vm s) (page b) 0 AND PTE_V \<noteq> 0" "pte_of (tiny_vm s) (page b) 0 AND PTE_U \<noteq> 0" "pte_of (tiny_vm s) (page b) 0 AND PTE_W = 0" "PTE_FLAGS (pte_of (tiny_vm s) (page b) 0) \<noteq> PTE_V" "unat (PTE2PA (pte_of (tiny_vm s) (page b) 0)) = page 3"
proof -
  let ?e = "pte_of (tiny_vm s) (page b) 0"
  let ?f = "PTE_R OR PTE_U OR PTE_V"
  have i: "idx 0 = [0, 0]" "unat (PX 0 0) = 0" by (simp_all add: idx_def PX_def)
  have "path [0, 0]" by (simp add: path_def)
  from tiny_node[OF this assms, of s] have n: "node (tiny_vm s) (page b) [0, 0] = Some (page (b + 2))" by (simp add: numeral_2_eq_2)
  then show e: "?e = PA2PTE (of_nat (page 3)) OR ?f"
    unfolding pte_of_def i using tiny_pte[of 0 2 b s] assms by (simp add: or.assoc)
  have f: "PTE_FLAGS ?f = ?f" "?f \<noteq> PTE_V" by (simp_all add: PTE_FLAGS_def PTE_vals)
  show "PTE_FLAGS ?e \<noteq> PTE_V" using e PTE_FLAGS_pack[OF f(1)] f(2) by simp
  have "?e AND g = PTE_FLAGS ?e AND g" if "g AND 0x3FF = g" for g
    using that by (simp add: PTE_FLAGS_def and.assoc and.commute[of "0x3FF"])
  moreover have "PTE_FLAGS ?e = ?f" using e PTE_FLAGS_pack[OF f(1)] by simp
  ultimately show "?e AND PTE_V \<noteq> 0" "?e AND PTE_U \<noteq> 0" "?e AND PTE_W = 0" by (simp_all add: PTE_vals)
  have u: "unat (of_nat (page 3) :: uint64) = page 3" using page_facts(2)[of 3] by (simp add: unat_of_nat)
  have "PTE2PA (PA2PTE (of_nat (page 3)) OR ?f) = of_nat (page 3)"
    using u aligned_iff[of "of_nat (page 3)"] small_pa[of "of_nat (page 3)"] page_facts(1,2)[of 3] by (intro PTE2PA_pack f(1)) simp_all
  then show "unat (PTE2PA ?e) = page 3" using e u by simp
qed

lemma tiny_owned: "b = 0 \<or> b = 5 \<Longrightarrow> owned (page b) (tiny_vm s) [page 4] (page 3)"
  using tiny_node[of _ b s] by (auto simp: owned_def page_facts path_def) (simp_all add: tiny_vm_def)


theorem uvmunmap_correct_witness:
  "\<exists>s' ps'. uvmunmap (page 0) 0 1 True (tiny_vm phys0) = Inr s' \<and> vm_ok (page 0) s' ps' \<and> pte_of s' (page 0) 0 = 0 \<and> page 3 \<in> set ps'"
proof -
  let ?s = "tiny_vm phys0"
  note e = tiny_pte0[of 0 phys0, simplified] and ow = tiny_owned[of 0 phys0, simplified] and ok = tiny_vm[of 0 phys0, simplified]
  have v0: "va < MAXVA \<Longrightarrow> vpn va = 0 \<Longrightarrow> pte_of ?s (page 0) va = pte_of ?s (page 0) 0" for va by (rule vpn0)
  have un: "unmappable True (page 0) ?s [page 4] (vpn 0) 1"
    unfolding unmappable_def can_unmap_def using v0 e ow by (auto simp: vpn_def)
  have z: "unmapped (vpn 0) 1 (pte_of ?s (page 0)) 0 = 0" using e(2) by (simp add: unmapped_def)
  have p3: "page 3 \<in> pages_of (vpn 0) 1 (pte_of ?s (page 0))"
    unfolding pages_of_def using e(2,6) by (intro image_eqI[of _ _ 0]) (simp_all add: MAXVA_def)
  have m: "(0 :: uint64) < MAXVA" "unat (0 :: uint64) + 1 * PGSIZE \<le> unat MAXVA" "(0 :: uint64) mod pgsz = 0"
    by (simp_all add: MAXVA_val word_less_nat_alt PGSIZE_def)
  from uvmunmap_correct[OF ok m(3,2) un] obtain s' ps' where
    "uvmunmap (page 0) 0 (of_nat 1) True ?s = Inr s'" "vm_ok (page 0) s' ps'"
    "\<forall>vb<MAXVA. pte_of s' (page 0) vb = unmapped (vpn 0) 1 (pte_of ?s (page 0)) vb"
    "set ps' = set [page 4] \<union> (if True then pages_of (vpn 0) 1 (pte_of ?s (page 0)) else {})" by blast
  then show ?thesis using z p3 m(1) by (intro exI[of _ s'] exI[of _ ps']) simp
qed

end
