(* ===== verification/Xv6_Usercopy.thy ===== *)
theory Xv6_Usercopy
  imports Xv6_Pagetable Xv6_Zero
begin

text \<open>
  Copies between kernel and user memory: \<^verbatim>\<open>walkaddr\<close>, \<^verbatim>\<open>copyout\<close> and \<^verbatim>\<open>copyin\<close> of \<^verbatim>\<open>kernel/vm.c\<close> on pages that are
  mapped. Shown: what \<^verbatim>\<open>copyout\<close> stores \<^verbatim>\<open>copyin\<close> fetches, across page boundaries; and \<^verbatim>\<open>copyout\<close>
  does not look at the write permission, so it writes through to pages shared for copy-on-write.
\<close>

section \<open>Translation\<close>

definition paddr :: "nat \<Rightarrow> 'a phys_scheme \<Rightarrow> uint64 \<Rightarrow> nat" where
  "paddr pt s va = walkaddr pt va s + page_off va"

lemma walkaddr_pte:
  assumes "vm_ok pt s ps" "va < MAXVA"
  shows "walkaddr pt va s =
    (if pte_of s pt va AND PTE_V = 0 \<or> pte_of s pt va AND PTE_U = 0 then 0 else unat (PTE2PA (pte_of s pt va)))"
proof (cases "node s pt (idx va)")
  case None
  then show ?thesis using assms(2) by (simp add: walkaddr_def walk_False idxs_simps pte_of_def not_le)
next
  case (Some q)
  have "0 < q" by (rule vm_node(4)[OF assms(1) path_idx(1) Some])
  then show ?thesis using Some assms(2) by (auto simp: walkaddr_def walk_False idxs_simps pte_of_def not_le)
qed

lemma walkaddr_aligned: "walkaddr pt va s mod PGSIZE = 0"
proof -
  have "PTE2PA e AND mask 12 = 0" for e by (rule bit_word_eqI) (auto simp: PTE2PA_def bit_simps)
  then have "unat (PTE2PA e) mod PGSIZE = 0" for e using aligned_iff[of "PTE2PA e"] by blast
  then show ?thesis by (simp add: walkaddr_def Let_def split: prod.split)
qed

lemma walkaddr_page:
  assumes "vm_ok pt s ps" "va < MAXVA" "vb < MAXVA" "vpn va = vpn vb"
  shows "walkaddr pt va s = walkaddr pt vb s"
proof -
  have "pte_of s pt va = pte_of s pt vb" using vpn_eq[OF assms(2,3)] assms(4) by (simp add: pte_of_def split: option.split)
  then show ?thesis by (simp add: walkaddr_pte[OF assms(1)] assms(2,3))
qed

lemma below_page:
  assumes "k < PGSIZE - page_off va" "unat va + k < unat MAXVA"
  shows "unat (va + of_nat k) = unat va + k" "vpn (va + of_nat k) = vpn va" "page_off (va + of_nat k) = page_off va + k"
proof -
  have "k < 2 ^ 64" using assms(2) MAXVA_val by simp
  then show u: "unat (va + of_nat k) = unat va + k" using assms(2) MAXVA_val by (simp add: unat_word_ariths unat_of_nat)
  have "unat va = PGSIZE * (unat va div PGSIZE) + page_off va" by (simp add: page_off)
  then have e: "unat va + k = PGSIZE * (unat va div PGSIZE) + (page_off va + k)" by linarith
  have l: "page_off va + k < PGSIZE" using assms(1) by simp
  show "vpn (va + of_nat k) = vpn va" unfolding vpn_def u e using l by simp
  have "(unat va + k) mod PGSIZE = page_off va + k" unfolding e using l by simp
  then show "page_off (va + of_nat k) = page_off va + k" by (simp only: page_off u)
qed

section \<open>Copies\<close>

text \<open>\<open>n\<close> bytes from \<open>va\<close> on are mapped for the user, no byte twice, and not to pages of the table itself.\<close>

definition user_range :: "nat \<Rightarrow> 'a phys_scheme \<Rightarrow> uint64 \<Rightarrow> nat \<Rightarrow> bool" where
  "user_range pt s va n \<longleftrightarrow> unat va + n \<le> unat MAXVA \<and>
     (\<forall>k<n. walkaddr pt (va + of_nat k) s \<noteq> 0 \<and> (\<forall>ks. path ks \<longrightarrow> node s pt ks \<noteq> Some (walkaddr pt (va + of_nat k) s))) \<and>
     inj_on (\<lambda>k. paddr pt s (va + of_nat k)) {..<n}"

text \<open>The part of a copy that lies in the first page.\<close>

definition chunk :: "uint64 \<Rightarrow> nat \<Rightarrow> nat" where
  "chunk va n = min (PGSIZE - page_off va) n"

lemma chunk: "0 < n \<Longrightarrow> 0 < chunk va n" "chunk va n \<le> n" "page_off va + chunk va n \<le> PGSIZE"
  using page_off_less[of va, THEN less_imp_le] by (auto simp: chunk_def min_def)

lemma user_range_head:
  assumes "user_range pt s va n" "0 < n"
  shows "walkaddr pt va s \<noteq> 0" "path ks \<Longrightarrow> node s pt ks \<noteq> Some (walkaddr pt va s)"
proof -
  have "walkaddr pt (va + of_nat 0) s \<noteq> 0 \<and> (\<forall>ks. path ks \<longrightarrow> node s pt ks \<noteq> Some (walkaddr pt (va + of_nat 0) s))"
    using assms unfolding user_range_def by blast
  then show "walkaddr pt va s \<noteq> 0" "path ks \<Longrightarrow> node s pt ks \<noteq> Some (walkaddr pt va s)" by simp_all
qed

lemma user_range_inj:
  assumes "user_range pt s va n" "j < n" "k < n" "j \<noteq> k"
  shows "paddr pt s (va + of_nat j) \<noteq> paddr pt s (va + of_nat k)"
proof
  assume a: "paddr pt s (va + of_nat j) = paddr pt s (va + of_nat k)"
  have "inj_on (\<lambda>k. paddr pt s (va + of_nat k)) {..<n}" using assms(1) by (simp add: user_range_def)
  from inj_onD[OF this a] show False using assms by simp
qed

lemma chunk_paddr:
  assumes "vm_ok pt s ps" "user_range pt s va n" "k < chunk va n"
  shows "paddr pt s (va + of_nat k) = walkaddr pt va s + page_off va + k"
proof -
  have k: "k < PGSIZE - page_off va" "unat va + k < unat MAXVA" "va < MAXVA" using assms(2,3) by (auto simp: chunk_def user_range_def word_less_nat_alt)
  note b = below_page[OF k(1,2)]
  have "va + of_nat k < MAXVA" using b(1) k(2) by (simp add: word_less_nat_alt)
  then show ?thesis using walkaddr_page[OF assms(1) _ k(3) b(2)] b(3) by (simp add: paddr_def)
qed

lemma user_page_present:
  assumes "vm_ok pt s ps" "user_range pt s va n" "0 < n"
  shows "user_page p pt (PGROUNDDOWN va) s = Inr (Some (walkaddr pt va s), s)"
proof -
  have "walkaddr pt va s \<noteq> 0" "unat va < unat MAXVA" using assms(2,3) by (auto simp: user_range_def)
  moreover have "PGROUNDDOWN va < MAXVA" using PGROUNDDOWN_MAXVA[of va] calculation(2) by (simp add: word_less_nat_alt)
  then have "walkaddr pt (PGROUNDDOWN va) s = walkaddr pt va s"
    using calculation(2) by (intro walkaddr_page[OF assms(1)]) (simp_all add: word_less_nat_alt)
  ultimately show ?thesis by (simp add: user_page_def Let_def)
qed

lemma next_page:
  assumes "chunk va n < n" "unat va + n \<le> unat MAXVA"
  shows "PGROUNDDOWN va + pgsz = va + of_nat (chunk va n)"
proof -
  have c: "chunk va n = PGSIZE - page_off va" using assms(1) by (auto simp: chunk_def)
  have e: "unat va = PGSIZE * (unat va div PGSIZE) + page_off va" by (simp add: page_off)
  have s: "chunk va n < 2 ^ 64" "unat va + chunk va n < 2 ^ 64" "unat (PGROUNDDOWN va) + PGSIZE < 2 ^ 64"
    using assms MAXVA_val c page_off_less[of va] e unfolding unat_PGROUNDDOWN by auto
  have "unat (PGROUNDDOWN va + pgsz) = unat (PGROUNDDOWN va) + PGSIZE" using s(3) by (simp add: unat_word_ariths PGSIZE_def)
  moreover have "unat (va + of_nat (chunk va n)) = unat va + chunk va n" using s by (simp add: unat_word_ariths unat_of_nat)
  ultimately have "unat (PGROUNDDOWN va + pgsz) = unat (va + of_nat (chunk va n))"
    using e c page_off_less[of va] unfolding unat_PGROUNDDOWN by linarith
  then show ?thesis by (simp only: unat_eq_iff)
qed

lemma user_range_rest:
  assumes "user_range pt s va n" "m \<le> n"
  shows "user_range pt s (va + of_nat m) (n - m)"
proof -
  have u: "unat (va + of_nat m) = unat va + m" if "m < n"
    using assms(1) that MAXVA_val by (simp add: user_range_def unat_word_ariths unat_of_nat)
  have k: "va + of_nat m + of_nat k = va + of_nat (m + k)" for k by simp
  have "inj_on (\<lambda>k. paddr pt s (va + of_nat (m + k))) {..<n - m}"
  proof (rule inj_onI)
    fix x y assume a: "x \<in> {..<n - m}" "y \<in> {..<n - m}" "paddr pt s (va + of_nat (m + x)) = paddr pt s (va + of_nat (m + y))"
    have i: "inj_on (\<lambda>k. paddr pt s (va + of_nat k)) {..<n}" using assms(1) by (simp add: user_range_def)
    have "m + x = m + y" by (rule inj_onD[OF i a(3)]) (use a(1,2) in auto)
    then show "x = y" by simp
  qed
  moreover have "unat (va + of_nat m) + (n - m) \<le> unat MAXVA" 
  proof (cases "m < n")
    case False
    then have "m = n" using assms(2) by simp
    then show ?thesis using assms(1) MAXVA_val by (simp add: user_range_def unat_word_ariths unat_of_nat)
  qed (use u assms(1) in \<open>simp add: user_range_def\<close>)
  moreover have "walkaddr pt (va + of_nat (m + k)) s \<noteq> 0 \<and> (\<forall>ks. path ks \<longrightarrow> node s pt ks \<noteq> Some (walkaddr pt (va + of_nat (m + k)) s))" if "k < n - m" for k
    using assms(1) that unfolding user_range_def by (metis add.commute less_diff_conv)
  ultimately show ?thesis unfolding user_range_def k by blast
qed

lemma copyin_spec:
  assumes "vm_ok pt s ps" "user_range pt s va n"
  shows "copyin p pt va n acc s = Inr (0, acc @ map (\<lambda>k. pmem s (paddr pt s (va + of_nat k))) [0..<n], s)"
  using assms(2)
proof (induction n arbitrary: va acc rule: less_induct)
  case (less n)
  show ?case
  proof (cases "n = 0")
    case False
    let ?c = "chunk va n"
    have c: "0 < ?c" "?c \<le> n" using False by (simp_all add: chunk)
    have rd: "rdbytes (pmem s) (walkaddr pt va s + page_off va) ?c = map (\<lambda>k. pmem s (paddr pt s (va + of_nat k))) [0..<?c]"
      using chunk_paddr[OF assms(1) less.prems] by (intro nth_equalityI) simp_all
    have st: "copyin p pt va n acc s = copyin p pt (PGROUNDDOWN va + pgsz) (n - ?c) (acc @ rdbytes (pmem s) (walkaddr pt va s + page_off va) ?c) s"
      using False user_page_present[OF assms(1) less.prems, of p] by (simp add: copyin.simps[of p pt va n] chunk_def Let_def)
    show ?thesis
    proof (cases "?c < n")
      case True
      have nx: "PGROUNDDOWN va + pgsz = va + of_nat ?c" using less.prems by (intro next_page[OF True]) (simp add: user_range_def)
      have ih: "copyin p pt (va + of_nat ?c) (n - ?c) a s = Inr (0, a @ map (\<lambda>k. pmem s (paddr pt s (va + of_nat ?c + of_nat k))) [0..<n - ?c], s)" for a
        using c False by (intro less.IH user_range_rest[OF less.prems]) simp_all
      have "map (\<lambda>k. pmem s (paddr pt s (va + of_nat ?c + of_nat k))) [0..<n - ?c] = map (\<lambda>k. pmem s (paddr pt s (va + of_nat k))) [?c..<n]"
        by (intro nth_equalityI) (simp_all add: add.assoc)
      then show ?thesis unfolding st nx ih rd using upt_add_eq_append[of 0 ?c "n - ?c"] c by simp
    next
      case False
      then have "?c = n" using c by simp
      then show ?thesis unfolding st rd by (simp add: copyin.simps)
    qed
  qed (simp add: copyin.simps)
qed

text \<open>A store into a mapped page leaves the table alone.\<close>

lemma store_keeps:
  assumes ok: "vm_ok pt s ps" and pa: "pa mod PGSIZE = 0" "\<And>ks. path ks \<Longrightarrow> node s pt ks \<noteq> Some pa" and l: "d + length bs \<le> PGSIZE"
  defines "s' \<equiv> s\<lparr>pmem := wrbytes (pmem s) (pa + d) bs\<rparr>"
  shows "vm_ok pt s' ps" "pte_of s' pt va = pte_of s pt va" "path ks \<Longrightarrow> node s' pt ks = node s pt ks"
    "va < MAXVA \<Longrightarrow> walkaddr pt va s' = walkaddr pt va s"
proof -
  have sn: "same_page p s s'" if "path ks" "node s pt ks = Some p" for ks p
    unfolding s'_def by (rule same_page_wrbytes[OF vm_node(2)[OF ok that] pa(1) _ l]) (use pa(2) that in auto)
  show nk: "node s' pt ks = node s pt ks" if "path ks" for ks by (rule nodes_kept(1)[OF _ that]) (rule sn)
  show pe: "pte_of s' pt va = pte_of s pt va" for va by (rule nodes_kept(2)) (rule sn)
  have "free_list s' ps = free_list s ps" "bad_page s' = bad_page s" by (auto simp: s'_def free_list_def bad_page_def fun_eq_iff)
  then show ok': "vm_ok pt s' ps" using ok nk unfolding vm_ok_def by (simp cong: conj_cong)
  show "walkaddr pt va s' = walkaddr pt va s" if "va < MAXVA" using walkaddr_pte[OF ok that] walkaddr_pte[OF ok' that] pe by simp
qed

lemma user_range_store:
  assumes "user_range pt s va n" "\<And>va. va < MAXVA \<Longrightarrow> walkaddr pt va s' = walkaddr pt va s" "\<And>ks. path ks \<Longrightarrow> node s' pt ks = node s pt ks"
  shows "user_range pt s' va n" "k < n \<Longrightarrow> paddr pt s' (va + of_nat k) = paddr pt s (va + of_nat k)"
proof -
  have w: "walkaddr pt (va + of_nat k) s' = walkaddr pt (va + of_nat k) s" if "k < n" for k
    using assms(1) that MAXVA_val by (intro assms(2)) (simp add: user_range_def word_less_nat_alt unat_word_ariths unat_of_nat)
  show p: "paddr pt s' (va + of_nat k) = paddr pt s (va + of_nat k)" if "k < n" for k using w[OF that] by (simp add: paddr_def)
  have "inj_on (\<lambda>k. paddr pt s' (va + of_nat k)) {..<n} = inj_on (\<lambda>k. paddr pt s (va + of_nat k)) {..<n}"
    by (rule inj_on_cong) (use p in auto)
  then show "user_range pt s' va n" using assms(1,3) w unfolding user_range_def by simp
qed

definition copied :: "nat \<Rightarrow> 'a phys_scheme \<Rightarrow> nat list \<Rightarrow> uint64 \<Rightarrow> byte list \<Rightarrow> memory \<Rightarrow> bool" where
  "copied pt s ps va src m \<longleftrightarrow> vm_ok pt (s\<lparr>pmem := m\<rparr>) ps \<and>
    (\<forall>va<MAXVA. walkaddr pt va (s\<lparr>pmem := m\<rparr>) = walkaddr pt va s) \<and> (\<forall>ks. path ks \<longrightarrow> node (s\<lparr>pmem := m\<rparr>) pt ks = node s pt ks) \<and>
    (\<forall>k<length src. m (paddr pt s (va + of_nat k)) = src ! k) \<and>
    (\<forall>a. (\<forall>k<length src. a \<noteq> paddr pt s (va + of_nat k)) \<longrightarrow> m a = pmem s a)"

lemma copyout_spec:
  assumes "vm_ok pt s ps" "user_range pt s va (length src)"
  shows "\<exists>m. copyout p pt va src s = Inr (0, s\<lparr>pmem := m\<rparr>) \<and> copied pt s ps va src m"
  using assms
proof (induction "length src" arbitrary: va src s rule: less_induct)
  case less
  show ?case
  proof (cases "src = []")
    case True
    then show ?thesis using less.prems by (intro exI[of _ "pmem s"]) (simp add: copyout.simps copied_def)
  next
    case False
    let ?n = "length src" and ?c = "chunk va (length src)" and ?pa = "walkaddr pt va s"
    let ?s1 = "s\<lparr>pmem := wrbytes (pmem s) (?pa + page_off va) (take ?c src)\<rparr>"
    have c: "0 < ?c" "?c \<le> ?n" "page_off va + ?c \<le> PGSIZE" using False by (simp_all add: chunk)
    have np: "\<And>ks. path ks \<Longrightarrow> node s pt ks \<noteq> Some ?pa" using user_range_head[OF less.prems(2)] False by simp
    have lt: "page_off va + length (take ?c src) \<le> PGSIZE" using c by simp
    have k1: "vm_ok pt ?s1 ps" by (rule store_keeps(1)[OF less.prems(1) walkaddr_aligned _ lt]) (rule np)
    have k3: "node ?s1 pt ks = node s pt ks" if "path ks" for ks by (rule store_keeps(3)[OF less.prems(1) walkaddr_aligned _ lt that]) (rule np)
    have k4: "walkaddr pt va ?s1 = walkaddr pt va s" if "va < MAXVA" for va by (rule store_keeps(4)[OF less.prems(1) walkaddr_aligned _ lt that]) (rule np)
    have r1: "user_range pt ?s1 va ?n" by (rule user_range_store(1)[OF less.prems(2) k4 k3])
    have p1: "paddr pt ?s1 (va + of_nat k) = paddr pt s (va + of_nat k)" if "k < ?n" for k by (rule user_range_store(2)[OF less.prems(2) k4 k3 that])
    have st: "copyout p pt va src s = copyout p pt (PGROUNDDOWN va + pgsz) (drop ?c src) ?s1"
      using False user_page_present[OF less.prems, of p] by (simp add: copyout.simps[of p pt va src] chunk_def Let_def)
    have in1: "pmem ?s1 (paddr pt s (va + of_nat j)) = src ! j" if "j < ?c" for j
      using chunk_paddr[OF less.prems that] that c by (simp add: wrbytes_in)
    have out1: "pmem ?s1 a = pmem s a" if "\<forall>j<?c. a \<noteq> paddr pt s (va + of_nat j)" for a
    proof -
      have "a < ?pa + page_off va \<or> ?pa + page_off va + ?c \<le> a"
      proof (rule ccontr)
        let ?j = "a - (?pa + page_off va)"
        assume "\<not> (a < ?pa + page_off va \<or> ?pa + page_off va + ?c \<le> a)"
        then have "?j < ?c" "a = ?pa + page_off va + ?j" by linarith+
        then show False using that chunk_paddr[OF less.prems, of ?j] by metis
      qed
      then show ?thesis using c by (simp add: wrbytes_out)
    qed
    let ?vb = "va + of_nat ?c"
    have rr: "user_range pt ?s1 ?vb (length (drop ?c src))" using user_range_rest[OF r1 c(2)] by simp
    have "\<exists>m. copyout p pt (PGROUNDDOWN va + pgsz) (drop ?c src) ?s1 = Inr (0, ?s1\<lparr>pmem := m\<rparr>) \<and> copied pt ?s1 ps ?vb (drop ?c src) m"
    proof (cases "?c < ?n")
      case True
      have nx: "PGROUNDDOWN va + pgsz = ?vb" using less.prems(2) by (intro next_page[OF True]) (simp add: user_range_def)
      show ?thesis unfolding nx by (rule less.hyps[OF _ k1 rr]) (use c False in simp)
    qed (use k1 in \<open>auto simp: copied_def copyout.simps intro: exI[of _ "pmem ?s1"]\<close>)
    then obtain m where m: "copyout p pt (PGROUNDDOWN va + pgsz) (drop ?c src) ?s1 = Inr (0, ?s1\<lparr>pmem := m\<rparr>)" "copied pt ?s1 ps ?vb (drop ?c src) m"
      by blast
    have pe: "paddr pt ?s1 (?vb + of_nat i) = paddr pt s (va + of_nat (?c + i))" if "?c + i < ?n" for i
      using p1[OF that] by (simp add: add.assoc)
    have "copied pt s ps va src m"
      unfolding copied_def
    proof (intro conjI allI impI)
      show "vm_ok pt (s\<lparr>pmem := m\<rparr>) ps" using m(2) by (simp add: copied_def)
      show "walkaddr pt va (s\<lparr>pmem := m\<rparr>) = walkaddr pt va s" if "va < MAXVA" for va using m(2) k4 that by (simp add: copied_def)
      show "node (s\<lparr>pmem := m\<rparr>) pt ks = node s pt ks" if "path ks" for ks using m(2) k3 that by (simp add: copied_def)
      fix j assume j: "j < ?n"
      show "m (paddr pt s (va + of_nat j)) = src ! j"
      proof (cases "j < ?c")
        case True
        have "paddr pt s (va + of_nat j) \<noteq> paddr pt ?s1 (?vb + of_nat i)" if "i < length (drop ?c src)" for i
          using pe[of i] that user_range_inj[OF less.prems(2) j, of "?c + i"] True by simp
        then have "m (paddr pt s (va + of_nat j)) = pmem ?s1 (paddr pt s (va + of_nat j))" using m(2) unfolding copied_def by blast
        then show ?thesis using in1[OF True] by simp
      next
        case ge: False
        have "j - ?c < length (drop ?c src)" using ge j by simp
        then have e: "m (paddr pt ?s1 (?vb + of_nat (j - ?c))) = drop ?c src ! (j - ?c)" using m(2) unfolding copied_def by blast
        have "?c + (j - ?c) = j" using ge by simp
        then have "paddr pt ?s1 (?vb + of_nat (j - ?c)) = paddr pt s (va + of_nat j)" using pe[of "j - ?c"] j by metis
        then show ?thesis using e ge j by simp
      qed
    next
      fix a assume a: "\<forall>j<?n. a \<noteq> paddr pt s (va + of_nat j)"
      have "a \<noteq> paddr pt ?s1 (?vb + of_nat i)" if "i < length (drop ?c src)" for i
      proof -
        have "?c + i < ?n" using that by simp
        then show ?thesis using pe[of i] a by metis
      qed
      then have "m a = pmem ?s1 a" using m(2) unfolding copied_def by blast
      then show "m a = pmem s a" using out1[of a] a c(2) by simp
    qed
    then show ?thesis using st m(1) by (intro exI[of _ m]) simp
  qed
qed

text \<open>C36. What \<^verbatim>\<open>copyout\<close> stores, \<^verbatim>\<open>copyin\<close> fetches: for a range of mapped user addresses, in one page or in many,
  \<^verbatim>\<open>copyout\<close> succeeds, a following \<^verbatim>\<open>copyin\<close> of the range returns the same bytes, all other physical
  memory is unchanged and so is the translation of every address.\<close>

theorem copyout_copyin_roundtrip:
  assumes "vm_ok pt s ps" "user_range pt s va (length src)"
  shows "\<exists>s'. copyout p pt va src s = Inr (0, s') \<and> copyin q pt va (length src) [] s' = Inr (0, src, s') \<and>
    (\<forall>a. (\<forall>k<length src. a \<noteq> paddr pt s (va + of_nat k)) \<longrightarrow> pmem s' a = pmem s a) \<and>
    (\<forall>vb<MAXVA. walkaddr pt vb s' = walkaddr pt vb s)"
proof -
  obtain m where m: "copyout p pt va src s = Inr (0, s\<lparr>pmem := m\<rparr>)" "copied pt s ps va src m"
    using copyout_spec[OF assms, of p] by blast
  let ?s = "s\<lparr>pmem := m\<rparr>"
  have w: "walkaddr pt vb ?s = walkaddr pt vb s" if "vb < MAXVA" for vb using m(2) that unfolding copied_def by blast
  have n: "node ?s pt ks = node s pt ks" if "path ks" for ks using m(2) that unfolding copied_def by blast
  have r: "user_range pt ?s va (length src)" by (rule user_range_store(1)[OF assms(2) w n])
  have pa: "paddr pt ?s (va + of_nat k) = paddr pt s (va + of_nat k)" if "k < length src" for k by (rule user_range_store(2)[OF assms(2) w n that])
  have "vm_ok pt ?s ps" using m(2) unfolding copied_def by blast
  note ci = copyin_spec[OF this r, of q "[]"]
  have b: "m (paddr pt s (va + of_nat k)) = src ! k" if "k < length src" for k using m(2) that unfolding copied_def by blast
  have "map (\<lambda>k. pmem ?s (paddr pt ?s (va + of_nat k))) [0..<length src] = src"
    by (rule nth_equalityI) (simp_all add: pa b)
  then have "copyin q pt va (length src) [] ?s = Inr (0, src, ?s)" using ci by simp
  moreover have "\<forall>a. (\<forall>k<length src. a \<noteq> paddr pt s (va + of_nat k)) \<longrightarrow> pmem ?s a = pmem s a" using m(2) by (simp add: copied_def)
  ultimately show ?thesis using m(1) w by blast
qed

text \<open>C37. Copy-on-write is not respected by \<^verbatim>\<open>copyout\<close>: where two address spaces map one physical page, and the
  first one's entry does not even permit writing, a \<^verbatim>\<open>copyout\<close> through it succeeds and the byte it
  stores is what the other address space then reads.\<close>

theorem copyout_ignores_write_protection:
  assumes "vm_ok pt s ps" "user_range pt s va 1" "pte_of s pt va AND PTE_W = 0"
    and "vm_ok qt s qs" "user_range qt s vb 1" "paddr qt s vb = paddr pt s va"
    and "\<And>ks. path ks \<Longrightarrow> node s qt ks \<noteq> Some (walkaddr pt va s)"
  shows "\<exists>s'. copyout p pt va [b] s = Inr (0, s') \<and> copyin q qt vb 1 [] s' = Inr (0, [b], s')"
proof -
  let ?d = "page_off va" and ?pa = "walkaddr pt va s"
  let ?s = "s\<lparr>pmem := wrbytes (pmem s) (?pa + ?d) [b]\<rparr>"
  have nz: "?pa \<noteq> 0" using user_range_head(1)[OF assms(2)] by simp
  have c: "chunk va 1 = 1" using chunk(1)[of 1 va] chunk(2)[of va 1] by linarith
  have co: "copyout p pt va [b] s = Inr (0, ?s)"
    using user_page_present[OF assms(1,2), of p] c by (simp add: copyout.simps[of p pt va] copyout.simps[of p pt _ "[]"] chunk_def Let_def)
  have l: "?d + length [b] \<le> PGSIZE" using page_off_less[of va] by (simp add: Suc_le_eq)
  have k1: "vm_ok qt ?s qs" by (rule store_keeps(1)[OF assms(4) walkaddr_aligned _ l]) (rule assms(7))
  have k3: "node ?s qt ks = node s qt ks" if "path ks" for ks by (rule store_keeps(3)[OF assms(4) walkaddr_aligned _ l that]) (rule assms(7))
  have k4: "walkaddr qt v ?s = walkaddr qt v s" if "v < MAXVA" for v by (rule store_keeps(4)[OF assms(4) walkaddr_aligned _ l that]) (rule assms(7))
  have r: "user_range qt ?s vb 1" by (rule user_range_store(1)[OF assms(5) k4 k3])
  have "paddr qt ?s (vb + of_nat 0) = paddr qt s (vb + of_nat 0)" by (rule user_range_store(2)[OF assms(5) k4 k3]) simp_all
  then have "paddr qt ?s vb = ?pa + ?d" using assms(6) by (simp add: paddr_def)
  then show ?thesis using copyin_spec[OF k1 r, of q "[]"] co by (intro exI[of _ ?s]) (simp add: wrbytes_in)
qed

lemma tiny_walkaddr:
  assumes "b = 0 \<or> b = 5" "va < MAXVA" "vpn va = 0"
  shows "walkaddr (page b) va (tiny_vm s) = page 3"
  using walkaddr_pte[OF tiny_vm[OF assms(1)] assms(2), of s] tiny_pte0[OF assms(1), of s] vpn0[OF assms(2,3), of "tiny_vm s" "page b"] by simp

lemma tiny_range:
  assumes "b = 0 \<or> b = 5" "n \<le> PGSIZE"
  shows "user_range (page b) (tiny_vm s) 0 n"
proof -
  have u: "unat (of_nat k :: uint64) = k" if "k < n" for k using that assms(2) by (simp add: unat_of_nat PGSIZE_def)
  have w: "walkaddr (page b) (of_nat k) (tiny_vm s) = page 3" if "k < n" for k
    using u[OF that] that assms by (intro tiny_walkaddr) (simp_all add: word_less_nat_alt MAXVA_val vpn_def PGSIZE_def)
  have "page_off (of_nat k) = k" if "k < n" for k using u[OF that] that assms(2) by (simp add: page_off)
  then have "inj_on (\<lambda>k. paddr (page b) (tiny_vm s) (0 + of_nat k)) {..<n}" using w by (intro inj_onI) (simp add: paddr_def)
  moreover have "page 3 \<noteq> 0" by (simp add: page_def KERNBASE_def)
  moreover have "path ks \<Longrightarrow> node (tiny_vm s) (page b) ks \<noteq> Some (page 3)" for ks using tiny_owned[OF assms(1), of s] by (simp add: owned_def)
  moreover have "n \<le> unat MAXVA" using assms(2) by (simp add: MAXVA_val PGSIZE_def)
  ultimately show ?thesis using w by (simp add: user_range_def)
qed

theorem copyout_copyin_roundtrip_witness:
  "\<exists>s'. copyout 1 (page 0) 0 [1, 2, 3] (tiny_vm (kstate0 (\<lambda>_ _. 0))) = Inr (0, s') \<and> copyin 1 (page 0) 0 3 [] s' = Inr (0, [1, 2, 3], s')"
proof -
  have "user_range (page 0) (tiny_vm (kstate0 (\<lambda>_ _. 0))) 0 (length [1, 2, 3 :: byte])" by (rule tiny_range) (simp_all add: PGSIZE_def)
  from copyout_copyin_roundtrip[OF tiny_vm this, of 1 1] show ?thesis by (auto simp: numeral_3_eq_3)
qed

theorem copyout_ignores_write_protection_witness:
  "\<exists>s'. copyout 1 (page 0) 0 [7] (tiny_vm (kstate0 (\<lambda>_ _. 0))) = Inr (0, s') \<and> copyin 2 (page 5) 0 1 [] s' = Inr (0, [7], s')"
proof -
  let ?s = "tiny_vm (kstate0 (\<lambda>_ _. 0))"
  have b: "(0 :: nat) = 0 \<or> (0 :: nat) = 5" "(5 :: nat) = 0 \<or> (5 :: nat) = 5" by simp_all
  have r: "user_range (page b) ?s 0 1" if "b = 0 \<or> b = 5" for b by (rule tiny_range[OF that]) (simp add: PGSIZE_def)
  have w: "walkaddr (page b) 0 ?s = page 3" if "b = 0 \<or> b = 5" for b by (rule tiny_walkaddr[OF that]) (simp_all add: vpn_def MAXVA_def)
  have pd: "paddr (page 5) ?s 0 = paddr (page 0) ?s 0" using w[OF b(1)] w[OF b(2)] by (simp add: paddr_def)
  have nn: "node ?s (page 5) ks \<noteq> Some (walkaddr (page 0) 0 ?s)" if "path ks" for ks
    using tiny_owned[OF b(2), of "kstate0 (\<lambda>_ _. 0)"] w[OF b(1)] that by (simp add: owned_def)
  show ?thesis
    by (rule copyout_ignores_write_protection[OF tiny_vm[OF b(1)] r[OF b(1)] tiny_pte0(4)[OF b(1)] tiny_vm[OF b(2)] r[OF b(2)] pd]) (rule nn)
qed

end
