(* ===== verification/Xv6_Virtio.thy ===== *)
theory Xv6_Virtio
  imports Xv6_Ring Xv6_Bio
begin

text \<open>
  The disk driver, \<^verbatim>\<open>kernel/virtio_disk.c\<close>. The queue that driver and device share is kept as arrays of
  structures; the addresses the driver hands to the device are named by what they point to. A buffer
  is its index plus one. \<^verbatim>\<open>virtio_disk_rw\<close> is two critical sections of \<^verbatim>\<open>vdisk_lock\<close>: up to the
  notification, and from the wakeup on. The device is not part of the kernel; its steps follow the virtio
  specification: it fetches chains from the available ring in order, carries them out one by one in
  any order, and appends each to the used ring. Registers are read from \<open>rd\<close>; the stores to them are a list.
  Shown: in every interleaving of requests, device steps and interrupts, no descriptor has two owners,
  the driver never panics, and each request has exactly the effect of a \<^verbatim>\<open>virtio_disk_rw\<close> in one piece.
\<close>

section \<open>Registers and constants\<close>

definition VIRTIO_MMIO_MAGIC_VALUE :: nat where "VIRTIO_MMIO_MAGIC_VALUE = 0x000"
definition VIRTIO_MMIO_VERSION :: nat where "VIRTIO_MMIO_VERSION = 0x004"
definition VIRTIO_MMIO_DEVICE_ID :: nat where "VIRTIO_MMIO_DEVICE_ID = 0x008"
definition VIRTIO_MMIO_VENDOR_ID :: nat where "VIRTIO_MMIO_VENDOR_ID = 0x00c"
definition VIRTIO_MMIO_DEVICE_FEATURES :: nat where "VIRTIO_MMIO_DEVICE_FEATURES = 0x010"
definition VIRTIO_MMIO_DRIVER_FEATURES :: nat where "VIRTIO_MMIO_DRIVER_FEATURES = 0x020"
definition VIRTIO_MMIO_QUEUE_SEL :: nat where "VIRTIO_MMIO_QUEUE_SEL = 0x030"
definition VIRTIO_MMIO_QUEUE_NUM_MAX :: nat where "VIRTIO_MMIO_QUEUE_NUM_MAX = 0x034"
definition VIRTIO_MMIO_QUEUE_NUM :: nat where "VIRTIO_MMIO_QUEUE_NUM = 0x038"
definition VIRTIO_MMIO_QUEUE_READY :: nat where "VIRTIO_MMIO_QUEUE_READY = 0x044"
definition VIRTIO_MMIO_QUEUE_NOTIFY :: nat where "VIRTIO_MMIO_QUEUE_NOTIFY = 0x050"
definition VIRTIO_MMIO_INTERRUPT_STATUS :: nat where "VIRTIO_MMIO_INTERRUPT_STATUS = 0x060"
definition VIRTIO_MMIO_INTERRUPT_ACK :: nat where "VIRTIO_MMIO_INTERRUPT_ACK = 0x064"
definition VIRTIO_MMIO_STATUS :: nat where "VIRTIO_MMIO_STATUS = 0x070"
definition VIRTIO_MMIO_QUEUE_DESC_LOW :: nat where "VIRTIO_MMIO_QUEUE_DESC_LOW = 0x080"
definition VIRTIO_MMIO_QUEUE_DESC_HIGH :: nat where "VIRTIO_MMIO_QUEUE_DESC_HIGH = 0x084"
definition VIRTIO_MMIO_DRIVER_DESC_LOW :: nat where "VIRTIO_MMIO_DRIVER_DESC_LOW = 0x090"
definition VIRTIO_MMIO_DRIVER_DESC_HIGH :: nat where "VIRTIO_MMIO_DRIVER_DESC_HIGH = 0x094"
definition VIRTIO_MMIO_DEVICE_DESC_LOW :: nat where "VIRTIO_MMIO_DEVICE_DESC_LOW = 0x0a0"
definition VIRTIO_MMIO_DEVICE_DESC_HIGH :: nat where "VIRTIO_MMIO_DEVICE_DESC_HIGH = 0x0a4"

definition VIRTIO_CONFIG_S_ACKNOWLEDGE :: uint32 where "VIRTIO_CONFIG_S_ACKNOWLEDGE = 1"
definition VIRTIO_CONFIG_S_DRIVER :: uint32 where "VIRTIO_CONFIG_S_DRIVER = 2"
definition VIRTIO_CONFIG_S_DRIVER_OK :: uint32 where "VIRTIO_CONFIG_S_DRIVER_OK = 4"
definition VIRTIO_CONFIG_S_FEATURES_OK :: uint32 where "VIRTIO_CONFIG_S_FEATURES_OK = 8"

definition VIRTIO_BLK_F_RO :: nat where "VIRTIO_BLK_F_RO = 5"
definition VIRTIO_BLK_F_SCSI :: nat where "VIRTIO_BLK_F_SCSI = 7"
definition VIRTIO_BLK_F_CONFIG_WCE :: nat where "VIRTIO_BLK_F_CONFIG_WCE = 11"
definition VIRTIO_BLK_F_MQ :: nat where "VIRTIO_BLK_F_MQ = 12"
definition VIRTIO_F_ANY_LAYOUT :: nat where "VIRTIO_F_ANY_LAYOUT = 27"
definition VIRTIO_RING_F_INDIRECT_DESC :: nat where "VIRTIO_RING_F_INDIRECT_DESC = 28"
definition VIRTIO_RING_F_EVENT_IDX :: nat where "VIRTIO_RING_F_EVENT_IDX = 29"

definition NUM :: nat where "NUM = 8"
definition VRING_DESC_F_NEXT :: uint16 where "VRING_DESC_F_NEXT = 1"
definition VRING_DESC_F_WRITE :: uint16 where "VRING_DESC_F_WRITE = 2"
definition VIRTIO_BLK_T_IN :: uint32 where "VIRTIO_BLK_T_IN = 0"
definition VIRTIO_BLK_T_OUT :: uint32 where "VIRTIO_BLK_T_OUT = 1"
definition sizeof_virtio_blk_req :: uint32 where "sizeof_virtio_blk_req = 16"

section \<open>State\<close>

text \<open>\<open>DmaReq i\<close> is \<^verbatim>\<open>&disk.ops[i]\<close>, \<open>DmaData b\<close> is \<^verbatim>\<open>b->data\<close>, \<open>DmaStatus i\<close> is \<^verbatim>\<open>&disk.info[i].status\<close>.\<close>

datatype dma = DmaNull | DmaReq nat | DmaData nat | DmaStatus nat

record virtq_desc =
  daddr :: dma
  dlen :: uint32
  dflags :: uint16
  dnext :: uint16

record virtio_blk_req =
  rtype :: uint32
  rreserved :: uint32
  rsector :: uint64

record vdisk =
  desc :: "nat \<Rightarrow> virtq_desc"
  avail_idx :: uint16               \<comment> \<open>\<^verbatim>\<open>disk.avail->idx\<close>\<close>
  avail_ring :: "nat \<Rightarrow> uint16"
  dev_idx :: uint16                 \<comment> \<open>\<^verbatim>\<open>disk.used->idx\<close>\<close>
  used_ring :: "nat \<Rightarrow> uint32"     \<comment> \<open>\<^verbatim>\<open>disk.used->ring[i].id\<close>\<close>
  dfree :: "nat \<Rightarrow> bool"
  used_idx :: uint16
  info_b :: "nat \<Rightarrow> nat"
  info_status :: "nat \<Rightarrow> byte"
  ops :: "nat \<Rightarrow> virtio_blk_req"
  bdisk :: "nat \<Rightarrow> bool"           \<comment> \<open>\<^verbatim>\<open>b->disk\<close>\<close>
  bno :: "nat \<Rightarrow> uint32"           \<comment> \<open>\<^verbatim>\<open>b->blockno\<close>\<close>
  bdat :: "nat \<Rightarrow> memory"          \<comment> \<open>\<^verbatim>\<open>b->data\<close>\<close>
  mmio :: "(nat \<times> uint32) list"    \<comment> \<open>stores to device registers, newest first\<close>
  vwoken :: "chan list"
  platter :: memory                 \<comment> \<open>the medium, by byte offset\<close>
  dev_next :: uint16                \<comment> \<open>the device's place in the available ring\<close>
  dev_work :: "nat list"            \<comment> \<open>chains fetched and not yet done\<close>

definition null_desc :: virtq_desc where
  "null_desc = \<lparr>daddr = DmaNull, dlen = 0, dflags = 0, dnext = 0\<rparr>"

definition put_reg :: "nat \<Rightarrow> uint32 \<Rightarrow> vdisk \<Rightarrow> vdisk" where
  "put_reg r v s = s\<lparr>mmio := (r, v) # mmio s\<rparr>"

section \<open>Descriptors\<close>

definition alloc_desc :: "vdisk \<Rightarrow> int \<times> vdisk" where
  "alloc_desc s =
     (case find (dfree s) [0..<NUM] of
        None \<Rightarrow> (-1, s)
      | Some i \<Rightarrow> (int i, s\<lparr>dfree := (dfree s)(i := False)\<rparr>))"

definition free_desc :: "nat \<Rightarrow> vdisk \<Rightarrow> vdisk res" where
  "free_desc i s =
     (if i \<ge> NUM then Inl (Panic ''free_desc 1'')
      else if dfree s i then Inl (Panic ''free_desc 2'')
      else Inr (s\<lparr>desc := (desc s)(i := null_desc), dfree := (dfree s)(i := True), vwoken := ChDisk # vwoken s\<rparr>))"

lemma free_desc_less:
  assumes "free_desc i s = Inr s'"
  shows "card {j. j < NUM \<and> \<not> dfree s' j} < card {j. j < NUM \<and> \<not> dfree s j}"
proof -
  have i: "i < NUM" "\<not> dfree s i" and s': "dfree s' = (dfree s)(i := True)" using assms by (auto simp: free_desc_def split: if_splits)
  have "{j. j < NUM \<and> \<not> dfree s' j} = {j. j < NUM \<and> \<not> dfree s j} - {i}" unfolding s' by auto
  moreover have "card ({j. j < NUM \<and> \<not> dfree s j} - {i}) < card {j. j < NUM \<and> \<not> dfree s j}"
    by (rule card_Diff1_less) (use i in simp_all)
  ultimately show ?thesis by simp
qed

function free_chain :: "nat \<Rightarrow> vdisk \<Rightarrow> vdisk res" where
  "free_chain i s =
     (let flag = dflags (desc s i); nxt = dnext (desc s i) in
      bindR (free_desc i s) (\<lambda>s.
        if flag AND VRING_DESC_F_NEXT \<noteq> 0 then free_chain (unat nxt) s else Inr s))"
  by pat_completeness auto
termination
  by (relation "measure (\<lambda>(i, s). card {j. j < NUM \<and> \<not> dfree s j})") (auto dest: free_desc_less)

declare free_chain.simps [simp del]

text \<open>\<open>got\<close> holds the descriptors found so far; \<open>None\<close> is the result -1.\<close>

fun alloc_more :: "nat \<Rightarrow> nat list \<Rightarrow> vdisk \<Rightarrow> (nat list option \<times> vdisk) res" where
  "alloc_more 0 got s = Inr (Some got, s)"
| "alloc_more (Suc n) got s =
     (let (i, s) = alloc_desc s in
      if i < 0 then bindR (forR free_desc got s) (\<lambda>s. Inr (None, s))
      else alloc_more n (got @ [nat i]) s)"

definition alloc3_desc :: "vdisk \<Rightarrow> (nat list option \<times> vdisk) res" where
  "alloc3_desc s = alloc_more 3 [] s"

section \<open>Requests\<close>

text \<open>The three descriptors, the request header, the bookkeeping and the entry in the available ring.\<close>

definition format_request :: "nat \<Rightarrow> bool \<Rightarrow> nat list \<Rightarrow> vdisk \<Rightarrow> vdisk" where
  "format_request b write idx s =
     (let i0 = idx ! 0; i1 = idx ! 1; i2 = idx ! 2;
          sector = ucast (bno s b * (of_nat BSIZE div 512)) :: uint64;
          s = s\<lparr>ops := (ops s)(i0 := \<lparr>rtype = (if write then VIRTIO_BLK_T_OUT else VIRTIO_BLK_T_IN), rreserved = 0, rsector = sector\<rparr>)\<rparr>;
          s = s\<lparr>desc := (desc s)(i0 := \<lparr>daddr = DmaReq i0, dlen = sizeof_virtio_blk_req, dflags = VRING_DESC_F_NEXT, dnext = of_nat i1\<rparr>)\<rparr>;
          s = s\<lparr>desc := (desc s)(i1 := \<lparr>daddr = DmaData b, dlen = of_nat BSIZE,
                 dflags = (if write then 0 else VRING_DESC_F_WRITE) OR VRING_DESC_F_NEXT, dnext = of_nat i2\<rparr>)\<rparr>;
          s = s\<lparr>info_status := (info_status s)(i0 := 0xff)\<rparr>;
          s = s\<lparr>desc := (desc s)(i2 := \<lparr>daddr = DmaStatus i0, dlen = 1, dflags = VRING_DESC_F_WRITE, dnext = 0\<rparr>)\<rparr>;
          s = s\<lparr>bdisk := (bdisk s)(b := True), info_b := (info_b s)(i0 := b)\<rparr>;
          s = s\<lparr>avail_ring := (avail_ring s)(unat (avail_idx s) mod NUM := of_nat i0)\<rparr>;
          s = s\<lparr>avail_idx := avail_idx s + 1\<rparr>
      in put_reg VIRTIO_MMIO_QUEUE_NOTIFY 0 s)"

text \<open>Up to the notification; \<open>None\<close> when the process has to sleep for descriptors.\<close>

definition disk_rw_start :: "nat \<Rightarrow> bool \<Rightarrow> vdisk \<Rightarrow> (nat list option \<times> vdisk) res" where
  "disk_rw_start b write s =
     bindR (alloc3_desc s) (\<lambda>(idx, s).
       case idx of
         None \<Rightarrow> Inr (None, s)
       | Some idx \<Rightarrow> Inr (Some idx, format_request b write idx s))"

text \<open>From the test of \<^verbatim>\<open>b->disk\<close> on; it sleeps while the device has the buffer.\<close>

definition disk_rw_finish :: "nat \<Rightarrow> nat \<Rightarrow> vdisk \<Rightarrow> vdisk res" where
  "disk_rw_finish b i0 s =
     (if bdisk s b then Inl (Sleeps (ChBuf b))
      else free_chain i0 (s\<lparr>info_b := (info_b s)(i0 := 0)\<rparr>))"

section \<open>Interrupts\<close>

definition complete_one :: "vdisk \<Rightarrow> vdisk res" where
  "complete_one s =
     (let i = unat (used_ring s (unat (used_idx s) mod NUM)) in
      if info_status s i \<noteq> 0 then Inl (Panic ''virtio_disk_intr status'')
      else let b = info_b s i in
        if b = 0 then Inl (Panic ''kerneltrap'')
        else Inr (s\<lparr>bdisk := (bdisk s)(b := False), vwoken := ChBuf b # vwoken s, used_idx := used_idx s + 1\<rparr>))"

lemma complete_one_idx: "complete_one s = Inr s' \<Longrightarrow> used_idx s' = used_idx s + 1 \<and> dev_idx s' = dev_idx s"
  by (auto simp: complete_one_def Let_def split: if_splits)

function intr_loop :: "vdisk \<Rightarrow> vdisk res" where
  "intr_loop s = (if used_idx s \<noteq> dev_idx s then bindR (complete_one s) intr_loop else Inr s)"
  by pat_completeness auto
termination
  by (relation "measure (\<lambda>s. unat (dev_idx s - used_idx s))") (auto dest!: complete_one_idx simp: unat_minus_pred)

declare intr_loop.simps [simp del]

definition virtio_disk_intr :: "(nat \<Rightarrow> uint32) \<Rightarrow> vdisk \<Rightarrow> vdisk res" where
  "virtio_disk_intr rd s = intr_loop (put_reg VIRTIO_MMIO_INTERRUPT_ACK (rd VIRTIO_MMIO_INTERRUPT_STATUS AND 3) s)"

section \<open>Initialisation\<close>

definition put_regs :: "(nat \<times> uint32) list \<Rightarrow> vdisk \<Rightarrow> vdisk" where
  "put_regs rs s = fold (\<lambda>(r, v). put_reg r v) rs s"

definition negotiate :: "uint32 \<Rightarrow> uint32" where
  "negotiate features =
     fold (\<lambda>f x. x AND NOT (push_bit f 1))
       [VIRTIO_BLK_F_RO, VIRTIO_BLK_F_SCSI, VIRTIO_BLK_F_CONFIG_WCE, VIRTIO_BLK_F_MQ, VIRTIO_F_ANY_LAYOUT,
        VIRTIO_RING_F_EVENT_IDX, VIRTIO_RING_F_INDIRECT_DESC] features"

text \<open>The addresses of the three pages of the queue.\<close>

definition queue_regs :: "nat \<Rightarrow> nat \<Rightarrow> nat \<Rightarrow> (nat \<times> uint32) list" where
  "queue_regs pd pa pu =
     (let lo = (\<lambda>p. of_nat p); hi = (\<lambda>p. of_nat (p div 2 ^ 32)) in
      [(VIRTIO_MMIO_QUEUE_DESC_LOW, lo pd), (VIRTIO_MMIO_QUEUE_DESC_HIGH, hi pd),
       (VIRTIO_MMIO_DRIVER_DESC_LOW, lo pa), (VIRTIO_MMIO_DRIVER_DESC_HIGH, hi pa),
       (VIRTIO_MMIO_DEVICE_DESC_LOW, lo pu), (VIRTIO_MMIO_DEVICE_DESC_HIGH, hi pu)])"

definition virtio_disk_init :: "(nat \<Rightarrow> uint32) \<Rightarrow> vdisk \<Rightarrow> 'a phys_scheme \<Rightarrow> (vdisk \<times> 'a phys_scheme) res" where
  "virtio_disk_init rd d s =
     (if rd VIRTIO_MMIO_MAGIC_VALUE \<noteq> 0x74726976 \<or> rd VIRTIO_MMIO_VERSION \<noteq> 2 \<or> rd VIRTIO_MMIO_DEVICE_ID \<noteq> 2 \<or>
         rd VIRTIO_MMIO_VENDOR_ID \<noteq> 0x554d4551 then Inl (Panic ''could not find virtio disk'')
      else let st1 = VIRTIO_CONFIG_S_ACKNOWLEDGE; st2 = st1 OR VIRTIO_CONFIG_S_DRIVER; st3 = st2 OR VIRTIO_CONFIG_S_FEATURES_OK;
               d = put_regs [(VIRTIO_MMIO_STATUS, 0), (VIRTIO_MMIO_STATUS, st1), (VIRTIO_MMIO_STATUS, st2),
                     (VIRTIO_MMIO_DRIVER_FEATURES, negotiate (rd VIRTIO_MMIO_DEVICE_FEATURES)), (VIRTIO_MMIO_STATUS, st3)] d;
               status = rd VIRTIO_MMIO_STATUS
      in if status AND VIRTIO_CONFIG_S_FEATURES_OK = 0 then Inl (Panic ''virtio disk FEATURES_OK unset'')
      else let d = put_reg VIRTIO_MMIO_QUEUE_SEL 0 d
      in if rd VIRTIO_MMIO_QUEUE_READY \<noteq> 0 then Inl (Panic ''virtio disk should not be ready'')
      else if rd VIRTIO_MMIO_QUEUE_NUM_MAX = 0 then Inl (Panic ''virtio disk has no queue 0'')
      else if rd VIRTIO_MMIO_QUEUE_NUM_MAX < of_nat NUM then Inl (Panic ''virtio disk max queue too short'')
      else let (pd, s) = kalloc s; (pa, s) = kalloc s; (pu, s) = kalloc s
      in if pd = 0 \<or> pa = 0 \<or> pu = 0 then Inl (Panic ''virtio disk kalloc'')
      else let d = d\<lparr>desc := (\<lambda>_. null_desc), avail_idx := 0, avail_ring := (\<lambda>_. 0), dev_idx := 0, used_ring := (\<lambda>_. 0)\<rparr>;
               s = s\<lparr>pmem := memset (memset (memset (pmem s) pd 0 PGSIZE) pa 0 PGSIZE) pu 0 PGSIZE\<rparr>;
               d = put_regs ([(VIRTIO_MMIO_QUEUE_NUM, of_nat NUM)] @ queue_regs pd pa pu @ [(VIRTIO_MMIO_QUEUE_READY, 1)]) d;
               d = d\<lparr>dfree := (\<lambda>i. if i < NUM then True else dfree d i)\<rparr>
      in Inr (put_reg VIRTIO_MMIO_STATUS (status OR VIRTIO_CONFIG_S_DRIVER_OK) d, s))"

section \<open>The device\<close>

text \<open>Fetching the next chain, and carrying out the request of a fetched chain by following its
  descriptors: header, data, status. It transfers \<^term>\<open>dlen\<close> bytes at \<^verbatim>\<open>sector * 512\<close>.\<close>

definition dev_fetch :: "vdisk \<Rightarrow> vdisk" where
  "dev_fetch s = s\<lparr>dev_work := dev_work s @ [unat (avail_ring s (unat (dev_next s) mod NUM))], dev_next := dev_next s + 1\<rparr>"

definition dev_transfer :: "virtio_blk_req \<Rightarrow> virtq_desc \<Rightarrow> vdisk \<Rightarrow> vdisk" where
  "dev_transfer r d s =
     (case daddr d of
        DmaData b \<Rightarrow>
          let n = unat (dlen d); off = unat (rsector r) * 512 in
          if rtype r = VIRTIO_BLK_T_OUT then s\<lparr>platter := wrbytes (platter s) off (rdbytes (bdat s b) 0 n)\<rparr>
          else if dflags d AND VRING_DESC_F_WRITE \<noteq> 0 then s\<lparr>bdat := (bdat s)(b := wrbytes (bdat s b) 0 (rdbytes (platter s) off n))\<rparr>
          else s
      | _ \<Rightarrow> s)"

definition dev_status :: "virtq_desc \<Rightarrow> vdisk \<Rightarrow> vdisk" where
  "dev_status d s = (case daddr d of DmaStatus i \<Rightarrow> s\<lparr>info_status := (info_status s)(i := 0)\<rparr> | _ \<Rightarrow> s)"

definition dev_complete :: "nat \<Rightarrow> vdisk \<Rightarrow> vdisk" where
  "dev_complete h s =
     (let d0 = desc s h; d1 = desc s (unat (dnext d0)); d2 = desc s (unat (dnext d1));
          s = (case daddr d0 of DmaReq i \<Rightarrow> dev_transfer (ops s i) d1 s | _ \<Rightarrow> s);
          s = dev_status d2 s
      in s\<lparr>used_ring := (used_ring s)(unat (dev_idx s) mod NUM := of_nat h), dev_idx := dev_idx s + 1, dev_work := remove1 h (dev_work s)\<rparr>)"

section \<open>Histories\<close>

text \<open>A request in progress: buffer, direction, and the three descriptors.\<close>

type_synonym request = "nat \<times> bool \<times> nat list"

definition bufs_of :: "request list \<Rightarrow> nat list" where
  "bufs_of A = map fst A"

definition descs_of :: "request list \<Rightarrow> nat list" where
  "descs_of A = concat (map (\<lambda>(b, w, idx). idx) A)"

definition heads_of :: "request list \<Rightarrow> nat list" where
  "heads_of A = map (\<lambda>(b, w, idx). idx ! 0) A"

text \<open>A buffer has one request at a time, since callers hold its sleep lock; only then may its block number and
  data change otherwise. The device takes a step whenever it likes.\<close>

inductive vd_run :: "request list \<Rightarrow> vdisk \<Rightarrow> bool" where
  boot: "virtio_disk_init rd d (s :: phys) = Inr (d', s') \<Longrightarrow> used_idx d = 0 \<Longrightarrow> dev_next d = 0 \<Longrightarrow> dev_work d = [] \<Longrightarrow>
     (\<And>b. \<not> bdisk d b) \<Longrightarrow> vd_run [] d'"
| edit: "vd_run A d \<Longrightarrow> b \<notin> set (bufs_of A) \<Longrightarrow> vd_run A (d\<lparr>bno := (bno d)(b := n), bdat := (bdat d)(b := x)\<rparr>)"
| submit: "vd_run A d \<Longrightarrow> b \<notin> set (bufs_of A) \<Longrightarrow> b \<noteq> 0 \<Longrightarrow> disk_rw_start b w d = Inr (Some idx, d') \<Longrightarrow> vd_run ((b, w, idx) # A) d'"
| wait: "vd_run A d \<Longrightarrow> disk_rw_start b w d = Inr (None, d') \<Longrightarrow> vd_run A d'"
| fetch: "vd_run A d \<Longrightarrow> dev_next d \<noteq> avail_idx d \<Longrightarrow> vd_run A (dev_fetch d)"
| work: "vd_run A d \<Longrightarrow> h \<in> set (dev_work d) \<Longrightarrow> vd_run A (dev_complete h d)"
| interrupt: "vd_run A d \<Longrightarrow> virtio_disk_intr rd d = Inr d' \<Longrightarrow> vd_run A d'"
| finish: "vd_run A d \<Longrightarrow> (b, w, idx) \<in> set A \<Longrightarrow> disk_rw_finish b (idx ! 0) d = Inr d' \<Longrightarrow> vd_run (remove1 (b, w, idx) A) d'"

section \<open>The invariant\<close>

definition chain_ok :: "vdisk \<Rightarrow> request \<Rightarrow> bool" where
  "chain_ok d = (\<lambda>(b, w, idx).
     length idx = 3 \<and> info_b d (idx ! 0) = b \<and>
     ops d (idx ! 0) = \<lparr>rtype = (if w then VIRTIO_BLK_T_OUT else VIRTIO_BLK_T_IN), rreserved = 0, rsector = ucast (bno d b * (of_nat BSIZE div 512))\<rparr> \<and>
     desc d (idx ! 0) = \<lparr>daddr = DmaReq (idx ! 0), dlen = sizeof_virtio_blk_req, dflags = VRING_DESC_F_NEXT, dnext = of_nat (idx ! 1)\<rparr> \<and>
     desc d (idx ! 1) = \<lparr>daddr = DmaData b, dlen = of_nat BSIZE, dflags = (if w then 0 else VRING_DESC_F_WRITE) OR VRING_DESC_F_NEXT, dnext = of_nat (idx ! 2)\<rparr> \<and>
     desc d (idx ! 2) = \<lparr>daddr = DmaStatus (idx ! 0), dlen = 1, dflags = VRING_DESC_F_WRITE, dnext = 0\<rparr>)"

definition pending :: "vdisk \<Rightarrow> nat list" where
  "pending d = map unat (ring_list NUM (avail_ring d) (dev_next d) (avail_idx d))"

definition finished :: "vdisk \<Rightarrow> nat list" where
  "finished d = map unat (ring_list NUM (used_ring d) (used_idx d) (dev_idx d))"

definition busy :: "vdisk \<Rightarrow> nat list" where
  "busy d = pending d @ dev_work d @ finished d"

definition requests_ok :: "request list \<Rightarrow> vdisk \<Rightarrow> bool" where
  "requests_ok A d \<longleftrightarrow> distinct (descs_of A) \<and> distinct (bufs_of A) \<and> 0 \<notin> set (bufs_of A) \<and>
     (\<forall>i<NUM. dfree d i \<longleftrightarrow> i \<notin> set (descs_of A)) \<and> set (descs_of A) \<subseteq> {..<NUM} \<and> (\<forall>a\<in>set A. chain_ok d a)"

definition queues_ok :: "request list \<Rightarrow> vdisk \<Rightarrow> bool" where
  "queues_ok A d \<longleftrightarrow> distinct (busy d) \<and> set (busy d) \<subseteq> set (heads_of A) \<and>
     (\<forall>(b, w, idx)\<in>set A. bdisk d b \<longleftrightarrow> idx ! 0 \<in> set (busy d)) \<and> (\<forall>h\<in>set (finished d). info_status d h = 0)"

definition vd_inv :: "request list \<Rightarrow> vdisk \<Rightarrow> bool" where
  "vd_inv A d \<longleftrightarrow> requests_ok A d \<and> queues_ok A d"

lemma of_nat_idx: "i < NUM \<Longrightarrow> unat (of_nat i :: uint16) = i" "i < NUM \<Longrightarrow> unat (of_nat i :: uint32) = i"
  by (simp_all add: NUM_def unat_of_nat)

lemma list3:
  assumes "length xs = 3"
  shows "xs = [xs ! 0, xs ! 1, xs ! 2]"
proof -
  obtain a b c where "xs = [a, b, c]" using assms by (auto simp: numeral_3_eq_3 length_Suc_conv)
  then show ?thesis by simp
qed

lemma request_facts:
  assumes ok: "requests_ok A d" and a: "(b, w, idx) \<in> set A"
  shows "length idx = 3" "distinct idx" "set idx \<subseteq> {..<NUM}" "b \<noteq> 0" "i \<in> set idx \<Longrightarrow> \<not> dfree d i"
    "idx ! 0 < NUM" "idx ! 1 < NUM" "idx ! 2 < NUM" "idx ! 0 \<in> set idx"
proof -
  have s: "set idx \<subseteq> set (descs_of A)" using a by (auto simp: descs_of_def)
  show l: "length idx = 3" using ok a by (auto simp: requests_ok_def chain_ok_def)
  show "distinct idx" using ok a by (auto simp: requests_ok_def descs_of_def distinct_concat_iff)
  show n: "set idx \<subseteq> {..<NUM}" using ok s by (auto simp: requests_ok_def)
  show "b \<noteq> 0" using ok a by (force simp: requests_ok_def bufs_of_def)
  show "i \<in> set idx \<Longrightarrow> \<not> dfree d i" using ok s n by (auto simp: requests_ok_def)
  have m: "idx ! k \<in> set idx" if "k < 3" for k using l that by simp
  then show "idx ! 0 < NUM" "idx ! 1 < NUM" "idx ! 2 < NUM" "idx ! 0 \<in> set idx" using n by (auto simp: subset_iff)
qed

lemma of_Cons [simp]:
  "descs_of ((b, w, idx) # A) = idx @ descs_of A" "bufs_of ((b, w, idx) # A) = b # bufs_of A" "heads_of ((b, w, idx) # A) = idx ! 0 # heads_of A"
  "descs_of [] = []" "bufs_of [] = []" "heads_of [] = []"
  "descs_of (xs @ ys) = descs_of xs @ descs_of ys" "bufs_of (xs @ ys) = bufs_of xs @ bufs_of ys" "heads_of (xs @ ys) = heads_of xs @ heads_of ys"
  by (simp_all add: descs_of_def bufs_of_def heads_of_def)

lemma descs_disjoint:
  assumes "distinct (descs_of A)" "(b, w, idx) \<in> set A" "(b', w', idx') \<in> set A" "(b', w', idx') \<noteq> (b, w, idx)"
  shows "set idx \<inter> set idx' = {}"
  using assms
proof (induction A)
  case (Cons x A)
  have s: "set i \<subseteq> set (descs_of A)" if "(c, v, i) \<in> set A" for c v i using that by (auto simp: descs_of_def)
  obtain c v i where x: "x = (c, v, i)" by (cases x)
  consider "(b, w, idx) \<in> set A" "(b', w', idx') \<in> set A" | "idx = i" "(b', w', idx') \<in> set A" | "idx' = i" "(b, w, idx) \<in> set A"
    using Cons.prems(2-4) x by auto
  then show ?case
  proof cases
    case 1
    then show ?thesis using Cons.IH Cons.prems(1,4) x by simp
  next
    case 2
    then show ?thesis using Cons.prems(1) x s[OF 2(2)] by auto
  next
    case 3
    then show ?thesis using Cons.prems(1) x s[OF 3(2)] by auto
  qed
qed simp

lemma bufs_distinct:
  assumes "distinct (bufs_of A)" "(b, w, idx) \<in> set A" "(b', w', idx') \<in> set A" "(b', w', idx') \<noteq> (b, w, idx)"
  shows "b \<noteq> b'"
proof
  assume "b = b'"
  moreover have "inj_on fst (set A)" using assms(1) by (simp add: bufs_of_def distinct_map)
  ultimately show False using inj_onD[of fst "set A" "(b, w, idx)" "(b', w', idx')"] assms(2-4) by simp
qed

lemma heads_distinct:
  assumes "distinct (descs_of A)" "(b, w, idx) \<in> set A" "(b', w', idx') \<in> set A" "idx ! 0 = idx' ! 0" "idx \<noteq> []" "idx' \<noteq> []"
  shows "(b', w', idx') = (b, w, idx)"
proof (rule ccontr)
  assume "(b', w', idx') \<noteq> (b, w, idx)"
  from descs_disjoint[OF assms(1-3) this] show False using assms(4-6) by (metis disjoint_iff length_greater_0_conv nth_mem)
qed

section \<open>Allocating and freeing descriptors\<close>

lemma alloc_desc_spec:
  "alloc_desc d = (i, d') \<Longrightarrow> (i = -1 \<and> d' = d \<and> (\<forall>j<NUM. \<not> dfree d j)) \<or>
     (\<exists>k. i = int k \<and> k < NUM \<and> dfree d k \<and> d' = d\<lparr>dfree := (dfree d)(k := False)\<rparr>)"
  by (auto simp: alloc_desc_def find_None_iff find_Some_iff split: option.splits)

definition without :: "nat list \<Rightarrow> vdisk \<Rightarrow> vdisk" where
  "without ks d = d\<lparr>dfree := (\<lambda>i. dfree d i \<and> i \<notin> set ks)\<rparr>"

lemma free_back:
  assumes "distinct got" "set got \<subseteq> {..<NUM}" "\<forall>k\<in>set got. \<not> dfree e k"
  shows "\<exists>ws. forR free_desc got e =
    Inr (e\<lparr>desc := (\<lambda>i. if i \<in> set got then null_desc else desc e i), dfree := (\<lambda>i. dfree e i \<or> i \<in> set got), vwoken := ws @ vwoken e\<rparr>)"
  using assms
proof (induction got arbitrary: e)
  case (Cons k ks)
  let ?e = "e\<lparr>desc := (desc e)(k := null_desc), dfree := (dfree e)(k := True), vwoken := ChDisk # vwoken e\<rparr>"
  have f: "free_desc k e = Inr ?e" using Cons.prems by (simp add: free_desc_def)
  have "distinct ks" "set ks \<subseteq> {..<NUM}" "\<forall>j\<in>set ks. \<not> dfree ?e j" using Cons.prems by auto
  from Cons.IH[OF this] obtain ws where "forR free_desc ks ?e = Inr (?e\<lparr>desc := (\<lambda>i. if i \<in> set ks then null_desc else desc ?e i),
      dfree := (\<lambda>i. dfree ?e i \<or> i \<in> set ks), vwoken := ws @ vwoken ?e\<rparr>)" ..
  moreover have "?e\<lparr>desc := (\<lambda>i. if i \<in> set ks then null_desc else desc ?e i), dfree := (\<lambda>i. dfree ?e i \<or> i \<in> set ks), vwoken := ws @ vwoken ?e\<rparr> =
      e\<lparr>desc := (\<lambda>i. if i \<in> set (k # ks) then null_desc else desc e i), dfree := (\<lambda>i. dfree e i \<or> i \<in> set (k # ks)), vwoken := (ws @ [ChDisk]) @ vwoken e\<rparr>"
    by (rule vdisk.equality) (auto simp: fun_eq_iff)
  ultimately show ?case using f by (intro exI[of _ "ws @ [ChDisk]"]) simp
next
  case Nil
  show ?case by (rule exI[of _ "[]"]) simp
qed

lemma alloc_more_spec:
  assumes "distinct got" "set got \<subseteq> {..<NUM}" "\<forall>k\<in>set got. dfree d k" "alloc_more n got (without got d) = r"
  shows "(\<exists>ks. r = Inr (Some (got @ ks), without (got @ ks) d) \<and> length ks = n \<and> distinct (got @ ks) \<and> set ks \<subseteq> {..<NUM} \<and> (\<forall>k\<in>set ks. dfree d k)) \<or>
    (\<exists>ws gs. r = Inr (None, d\<lparr>desc := (\<lambda>i. if i \<in> gs then null_desc else desc d i), vwoken := ws @ vwoken d\<rparr>) \<and> (\<forall>k\<in>gs. dfree d k))"
  using assms
proof (induction n arbitrary: got)
  case (Suc n)
  obtain i e where a: "alloc_desc (without got d) = (i, e)" by fastforce
  consider "i = -1" "e = without got d"
    | k where "i = int k" "k < NUM" "dfree (without got d) k" "e = (without got d)\<lparr>dfree := (dfree (without got d))(k := False)\<rparr>"
    using alloc_desc_spec[OF a] by blast
  then show ?case
  proof cases
    case 1
    obtain ws where "forR free_desc got (without got d) = Inr ((without got d)\<lparr>desc := (\<lambda>i. if i \<in> set got then null_desc else desc (without got d) i),
        dfree := (\<lambda>i. dfree (without got d) i \<or> i \<in> set got), vwoken := ws @ vwoken (without got d)\<rparr>)"
      using free_back[OF Suc.prems(1,2), of "without got d"] by (auto simp: without_def)
    moreover have "(without got d)\<lparr>desc := (\<lambda>i. if i \<in> set got then null_desc else desc (without got d) i),
        dfree := (\<lambda>i. dfree (without got d) i \<or> i \<in> set got), vwoken := ws @ vwoken (without got d)\<rparr> =
        d\<lparr>desc := (\<lambda>i. if i \<in> set got then null_desc else desc d i), vwoken := ws @ vwoken d\<rparr>"
      using Suc.prems(3) by (intro vdisk.equality) (auto simp: without_def fun_eq_iff)
    ultimately have "r = Inr (None, d\<lparr>desc := (\<lambda>i. if i \<in> set got then null_desc else desc d i), vwoken := ws @ vwoken d\<rparr>)"
      using Suc.prems(4) a 1 by simp
    then show ?thesis using Suc.prems(3) by blast
  next
    case (2 k)
    then have k: "dfree d k" "k \<notin> set got" by (auto simp: without_def)
    have e: "e = without (got @ [k]) d" using 2(4) by (auto simp: without_def fun_eq_iff)
    have r: "alloc_more n (got @ [k]) (without (got @ [k]) d) = r" using Suc.prems(4) a 2(1) e by simp
    have "distinct (got @ [k])" "set (got @ [k]) \<subseteq> {..<NUM}" "\<forall>j\<in>set (got @ [k]). dfree d j" using Suc.prems(1-3) k 2(2) by auto
    from Suc.IH[OF this r] show ?thesis
    proof
      assume "\<exists>ks. r = Inr (Some ((got @ [k]) @ ks), without ((got @ [k]) @ ks) d) \<and> length ks = n \<and> distinct ((got @ [k]) @ ks) \<and>
        set ks \<subseteq> {..<NUM} \<and> (\<forall>k\<in>set ks. dfree d k)"
      then obtain ks where "r = Inr (Some (got @ k # ks), without (got @ k # ks) d)" "length ks = n" "distinct (got @ k # ks)"
        "set ks \<subseteq> {..<NUM}" "\<forall>k\<in>set ks. dfree d k" by auto
      then show ?thesis using k(1) 2(2) by (intro disjI1 exI[of _ "k # ks"]) auto
    qed blast
  qed
qed (use assms in auto)

lemma start_spec:
  assumes "disk_rw_start b w d = r"
  obtains (sleeps) ws gs where "r = Inr (None, d\<lparr>desc := (\<lambda>i. if i \<in> gs then null_desc else desc d i), vwoken := ws @ vwoken d\<rparr>)" "\<forall>k\<in>gs. dfree d k"
  | (starts) idx where "r = Inr (Some idx, format_request b w idx (without idx d))" "length idx = 3" "distinct idx" "set idx \<subseteq> {..<NUM}" "\<forall>k\<in>set idx. dfree d k"
proof -
  have "alloc3_desc d = alloc_more 3 [] (without [] d)" by (simp add: alloc3_desc_def without_def)
  then consider ks where "alloc3_desc d = Inr (Some ks, without ks d)" "length ks = 3" "distinct ks" "set ks \<subseteq> {..<NUM}" "\<forall>k\<in>set ks. dfree d k"
    | ws gs where "alloc3_desc d = Inr (None, d\<lparr>desc := (\<lambda>i. if i \<in> gs then null_desc else desc d i), vwoken := ws @ vwoken d\<rparr>)" "\<forall>k\<in>gs. dfree d k"
    using alloc_more_spec[of "[]" d 3 "alloc3_desc d"] by auto
  then show thesis
  proof cases
    case 1
    then show thesis using assms by (intro starts[of ks]) (simp_all add: disk_rw_start_def)
  next
    case 2
    then show thesis using assms by (intro sleeps[of ws gs]) (simp_all add: disk_rw_start_def)
  qed
qed

lemma chain_ok_cong:
  assumes "chain_ok d (b, w, idx)" "\<And>i. i \<in> set idx \<Longrightarrow> desc d' i = desc d i \<and> ops d' i = ops d i \<and> info_b d' i = info_b d i" "bno d' b = bno d b"
  shows "chain_ok d' (b, w, idx)"
proof -
  have l: "length idx = 3" using assms(1) by (simp add: chain_ok_def)
  have "idx ! k \<in> set idx" if "k < 3" for k using l that by simp
  then have "desc d' (idx ! k) = desc d (idx ! k)" "ops d' (idx ! k) = ops d (idx ! k)" "info_b d' (idx ! k) = info_b d (idx ! k)" if "k < 3" for k
    using assms(2) that by auto
  then show ?thesis using assms(1,3) by (simp add: chain_ok_def)
qed

lemma free_chain_spec:
  assumes ok: "requests_ok A d" and a: "(b, w, idx) \<in> set A"
  shows "\<exists>ws. free_chain (idx ! 0) (d\<lparr>info_b := (info_b d)(idx ! 0 := 0)\<rparr>) =
    Inr (d\<lparr>info_b := (info_b d)(idx ! 0 := 0), desc := (\<lambda>i. if i \<in> set idx then null_desc else desc d i),
      dfree := (\<lambda>i. dfree d i \<or> i \<in> set idx), vwoken := ws @ vwoken d\<rparr>)"
proof -
  note f = request_facts[OF ok a]
  obtain i j k where idx: "idx = [i, j, k]" using list3[OF f(1)] by metis
  have c: "chain_ok d (b, w, idx)" using ok a by (simp add: requests_ok_def)
  have n: "i < NUM" "j < NUM" "k < NUM" "i \<noteq> j" "j \<noteq> k" "i \<noteq> k" "\<not> dfree d i" "\<not> dfree d j" "\<not> dfree d k" using f(2,3,5) idx by auto
  note u = of_nat_idx(1)[OF n(2)] of_nat_idx(1)[OF n(3)]
  have fl: "VRING_DESC_F_NEXT AND VRING_DESC_F_NEXT \<noteq> 0" "((if w then 0 else VRING_DESC_F_WRITE) OR VRING_DESC_F_NEXT) AND VRING_DESC_F_NEXT \<noteq> 0"
    "VRING_DESC_F_WRITE AND VRING_DESC_F_NEXT = 0"
    by (simp_all add: VRING_DESC_F_NEXT_def VRING_DESC_F_WRITE_def)
  have e: "desc d i = \<lparr>daddr = DmaReq i, dlen = sizeof_virtio_blk_req, dflags = VRING_DESC_F_NEXT, dnext = of_nat j\<rparr>"
    "desc d j = \<lparr>daddr = DmaData b, dlen = of_nat BSIZE, dflags = (if w then 0 else VRING_DESC_F_WRITE) OR VRING_DESC_F_NEXT, dnext = of_nat k\<rparr>"
    "desc d k = \<lparr>daddr = DmaStatus i, dlen = 1, dflags = VRING_DESC_F_WRITE, dnext = 0\<rparr>"
    using c idx by (simp_all add: chain_ok_def)
  have 3: "free_chain k x = Inr (x\<lparr>desc := (desc x)(k := null_desc), dfree := (dfree x)(k := True), vwoken := ChDisk # vwoken x\<rparr>)"
    if "desc x k = desc d k" "\<not> dfree x k" for x
    using that n e(3) fl(3) by (subst free_chain.simps) (simp add: free_desc_def Let_def)
  have 2: "free_chain j x = free_chain k (x\<lparr>desc := (desc x)(j := null_desc), dfree := (dfree x)(j := True), vwoken := ChDisk # vwoken x\<rparr>)"
    if "desc x j = desc d j" "\<not> dfree x j" for x
    using that n e(2) fl(2) u by (subst free_chain.simps) (simp add: free_desc_def Let_def)
  have 1: "free_chain i x = free_chain j (x\<lparr>desc := (desc x)(i := null_desc), dfree := (dfree x)(i := True), vwoken := ChDisk # vwoken x\<rparr>)"
    if "desc x i = desc d i" "\<not> dfree x i" for x
    using that n e(1) fl(1) u by (subst free_chain.simps) (simp add: free_desc_def Let_def)
  show ?thesis
    using n by (intro exI[of _ "[ChDisk, ChDisk, ChDisk]"]) (simp add: idx 1 2 3, rule vdisk.equality; auto simp: fun_eq_iff)
qed

section \<open>The steps keep the invariant\<close>

lemma requests_ok_cong:
  assumes "requests_ok A d" "dfree d' = dfree d" "\<And>b. b \<in> set (bufs_of A) \<Longrightarrow> bno d' b = bno d b"
    and "\<And>i. i \<in> set (descs_of A) \<Longrightarrow> desc d' i = desc d i \<and> ops d' i = ops d i \<and> info_b d' i = info_b d i"
  shows "requests_ok A d'"
proof -
  have "chain_ok d' (b, w, idx)" if "(b, w, idx) \<in> set A" for b w idx
  proof (rule chain_ok_cong)
    show "chain_ok d (b, w, idx)" using assms(1) that by (simp add: requests_ok_def)
    have s: "set idx \<subseteq> set (descs_of A)" "b \<in> set (bufs_of A)" using that by (force simp: descs_of_def bufs_of_def)+
    show "\<And>i. i \<in> set idx \<Longrightarrow> desc d' i = desc d i \<and> ops d' i = ops d i \<and> info_b d' i = info_b d i" "bno d' b = bno d b"
      using assms(3,4) s by auto
  qed
  then show ?thesis using assms(1,2) unfolding requests_ok_def by auto
qed

lemma queues_ok_cong:
  assumes "queues_ok A d" "avail_ring d' = avail_ring d" "avail_idx d' = avail_idx d" "dev_next d' = dev_next d" "dev_work d' = dev_work d"
    "used_ring d' = used_ring d" "used_idx d' = used_idx d" "dev_idx d' = dev_idx d" "bdisk d' = bdisk d" "info_status d' = info_status d"
  shows "queues_ok A d'"
proof -
  have "busy d' = busy d" "finished d' = finished d" using assms by (simp_all add: busy_def pending_def finished_def)
  then show ?thesis using assms(1,9,10) by (simp add: queues_ok_def)
qed

lemma few_requests:
  assumes "requests_ok A d"
  shows "length A < 3"
proof -
  have l3: "\<forall>(b, w, idx)\<in>set A. length idx = 3" using assms by (auto simp: requests_ok_def chain_ok_def)
  then have "length (descs_of A) = 3 * length A" by (induction A) auto
  moreover have "length (descs_of A) \<le> NUM"
    using assms card_mono[of "{..<NUM}" "set (descs_of A)"] distinct_card[of "descs_of A"] by (auto simp: requests_ok_def)
  ultimately show ?thesis by (simp add: NUM_def)
qed

lemma busy_few:
  assumes "vd_inv A d"
  shows "length (busy d) < 3"
proof -
  have "length (busy d) \<le> card (set (heads_of A))"
    using assms card_mono[of "set (heads_of A)" "set (busy d)"] distinct_card[of "busy d"] by (auto simp: vd_inv_def queues_ok_def)
  also have "\<dots> \<le> length A" using card_length[of "heads_of A"] by (simp add: heads_of_def)
  finally show ?thesis using few_requests[of A d] assms by (simp add: vd_inv_def)
qed

lemma NUM_ring: "NUM dvd 2 ^ LENGTH(16)" "NUM < 2 ^ LENGTH(16)"
  by (simp_all add: NUM_def)

lemma heads_in_descs: "(b, w, idx) \<in> set A \<Longrightarrow> length idx = 3 \<Longrightarrow> idx ! 0 \<in> set (descs_of A)"
  by (force simp: descs_of_def)

lemma heads_sub: "requests_ok A d \<Longrightarrow> set (heads_of A) \<subseteq> set (descs_of A)"
  by (auto simp: heads_of_def requests_ok_def chain_ok_def intro: heads_in_descs)

lemma submit_inv:
  assumes inv: "vd_inv A d" and b: "b \<notin> set (bufs_of A)" "b \<noteq> 0"
    and idx: "length idx = 3" "distinct idx" "set idx \<subseteq> {..<NUM}" "\<forall>k\<in>set idx. dfree d k"
  shows "vd_inv ((b, w, idx) # A) (format_request b w idx (without idx d))"
proof -
  let ?d = "format_request b w idx (without idx d)"
  obtain i j k where ix: "idx = [i, j, k]" using list3[OF idx(1)] by metis
  have n: "i < NUM" "i \<noteq> j" "j \<noteq> k" "i \<noteq> k" using idx(2,3) ix by auto
  have rq: "requests_ok A d" and q: "queues_ok A d" using inv by (simp_all add: vd_inv_def)
  have fr: "set idx \<inter> set (descs_of A) = {}" using rq idx(3,4) by (auto simp: requests_ok_def)
  have "requests_ok A (?d\<lparr>dfree := dfree d\<rparr>)"
    by (rule requests_ok_cong[OF rq]) (use fr ix in \<open>auto simp: format_request_def without_def put_reg_def Let_def\<close>)
  then have co: "\<forall>a\<in>set A. chain_ok ?d a" by (simp add: requests_ok_def chain_ok_def)
  have "chain_ok ?d (b, w, idx)"
    using ix n by (simp add: chain_ok_def format_request_def without_def put_reg_def Let_def numeral_2_eq_2)
  moreover have "dfree ?d = (\<lambda>i. dfree d i \<and> i \<notin> set idx)" by (simp add: format_request_def without_def put_reg_def Let_def)
  ultimately have 1: "requests_ok ((b, w, idx) # A) ?d" using rq co b idx fr by (auto simp: requests_ok_def)
  have sel: "avail_ring ?d = (avail_ring d)(unat (avail_idx d) mod NUM := of_nat i)" "avail_idx ?d = avail_idx d + 1" "dev_next ?d = dev_next d"
    "dev_work ?d = dev_work d" "finished ?d = finished d" "bdisk ?d = (bdisk d)(b := True)" "info_status ?d = (info_status d)(i := 0xff)"
    by (simp_all add: ix format_request_def without_def put_reg_def Let_def finished_def)
  have "unat (avail_idx d - dev_next d) < NUM" using busy_few[OF inv] by (simp add: busy_def pending_def NUM_def)
  from ring_put[OF NUM_ring this, of "avail_ring d" "of_nat i"] have p: "pending ?d = pending d @ [i]" unfolding pending_def sel using of_nat_idx(1)[OF n(1)] by simp
  have hs: "set (busy d) \<subseteq> set (descs_of A)" using q heads_sub[OF rq] by (auto simp: queues_ok_def)
  then have ni: "i \<notin> set (busy d)" using fr ix by auto
  have bs: "set (busy ?d) = insert i (set (busy d))" "distinct (busy ?d)"
    using p sel(4,5) ni q by (auto simp: busy_def queues_ok_def)
  have "queues_ok ((b, w, idx) # A) ?d"
    unfolding queues_ok_def
  proof (intro conjI)
    show "set (busy ?d) \<subseteq> set (heads_of ((b, w, idx) # A))" using bs(1) q ix by (auto simp: queues_ok_def)
    show "\<forall>(b', w', idx')\<in>set ((b, w, idx) # A). bdisk ?d b' \<longleftrightarrow> idx' ! 0 \<in> set (busy ?d)"
    proof (clarify)
      fix b' w' idx' assume a: "(b', w', idx') \<in> set ((b, w, idx) # A)"
      show "bdisk ?d b' \<longleftrightarrow> idx' ! 0 \<in> set (busy ?d)"
      proof (cases "(b', w', idx') = (b, w, idx)")
        case True
        then show ?thesis using bs(1) sel(6) ix by simp
      next
        case False
        then have a: "(b', w', idx') \<in> set A" using a by auto
        then have "b' \<noteq> b" "idx' ! 0 \<noteq> i" using b fr ix heads_in_descs[OF a request_facts(1)[OF rq a]] by (force simp: bufs_of_def)+
        then show ?thesis using q a bs(1) sel(6) by (auto simp: queues_ok_def)
      qed
    qed
    show "\<forall>h\<in>set (finished ?d). info_status ?d h = 0" using q ni sel(5,7) by (auto simp: queues_ok_def busy_def)
  qed (rule bs(2))
  then show ?thesis using 1 by (simp add: vd_inv_def)
qed

lemma fetch_inv:
  assumes inv: "vd_inv A d" and ne: "dev_next d \<noteq> avail_idx d"
  shows "vd_inv A (dev_fetch d)"
proof -
  have rq: "requests_ok A (dev_fetch d)" by (rule requests_ok_cong[of A d]) (use inv in \<open>auto simp: dev_fetch_def vd_inv_def\<close>)
  have "pending d = unat (avail_ring d (unat (dev_next d) mod NUM)) # pending (dev_fetch d)"
    using ring_get[OF NUM_ring(1) ne, of "avail_ring d"] by (simp add: pending_def dev_fetch_def)
  moreover have "dev_work (dev_fetch d) = dev_work d @ [unat (avail_ring d (unat (dev_next d) mod NUM))]" "finished (dev_fetch d) = finished d"
    "bdisk (dev_fetch d) = bdisk d" "info_status (dev_fetch d) = info_status d"
    by (simp_all add: dev_fetch_def finished_def)
  ultimately have "set (busy (dev_fetch d)) = set (busy d)" "distinct (busy (dev_fetch d)) = distinct (busy d)" "finished (dev_fetch d) = finished d"
    "bdisk (dev_fetch d) = bdisk d" "info_status (dev_fetch d) = info_status d"
    by (auto simp: busy_def)
  then show ?thesis using inv rq by (simp add: vd_inv_def queues_ok_def)
qed

text \<open>The effect of a request on the medium and on the buffers, in one piece.\<close>

definition rw_block :: "nat \<Rightarrow> bool \<Rightarrow> vdisk \<Rightarrow> vdisk" where
  "rw_block b w d =
     (let off = unat (ucast (bno d b * (of_nat BSIZE div 512)) :: uint64) * 512 in
      if w then d\<lparr>platter := wrbytes (platter d) off (rdbytes (bdat d b) 0 BSIZE)\<rparr>
      else d\<lparr>bdat := (bdat d)(b := wrbytes (bdat d b) 0 (rdbytes (platter d) off BSIZE))\<rparr>)"

lemma complete_spec:
  assumes rq: "requests_ok A d" and a: "(b, w, idx) \<in> set A"
  shows "dev_complete (idx ! 0) d =
    (rw_block b w d)\<lparr>info_status := (info_status d)(idx ! 0 := 0), used_ring := (used_ring d)(unat (dev_idx d) mod NUM := of_nat (idx ! 0)),
       dev_idx := dev_idx d + 1, dev_work := remove1 (idx ! 0) (dev_work d)\<rparr>"
proof -
  note f = request_facts[OF rq a]
  have c: "chain_ok d (b, w, idx)" using rq a by (simp add: requests_ok_def)
  have u: "unat (of_nat (idx ! 1) :: uint16) = idx ! 1" "unat (of_nat (idx ! 2) :: uint16) = idx ! 2" using of_nat_idx(1) f(7,8) by simp_all
  have fl: "(VRING_DESC_F_WRITE OR VRING_DESC_F_NEXT) AND VRING_DESC_F_WRITE \<noteq> 0" "VIRTIO_BLK_T_IN \<noteq> VIRTIO_BLK_T_OUT"
    by (simp_all add: VRING_DESC_F_NEXT_def VRING_DESC_F_WRITE_def VIRTIO_BLK_T_IN_def VIRTIO_BLK_T_OUT_def)
  have bs: "unat (of_nat BSIZE :: uint32) = BSIZE" by (simp add: BSIZE_def)
  show ?thesis using c u fl bs
    by (cases w) (simp_all add: dev_complete_def dev_transfer_def dev_status_def rw_block_def chain_ok_def Let_def)
qed

lemma work_inv:
  assumes inv: "vd_inv A d" and h: "h \<in> set (dev_work d)"
  shows "vd_inv A (dev_complete h d)" "\<exists>b w idx. (b, w, idx) \<in> set A \<and> idx ! 0 = h"
proof -
  have rq: "requests_ok A d" and q: "queues_ok A d" using inv by (simp_all add: vd_inv_def)
  have "h \<in> set (heads_of A)" using q h by (auto simp: queues_ok_def busy_def)
  then obtain b w idx where a: "(b, w, idx) \<in> set A" "idx ! 0 = h" by (auto simp: heads_of_def)
  then show "\<exists>b w idx. (b, w, idx) \<in> set A \<and> idx ! 0 = h" by blast
  note c = complete_spec[OF rq a(1), unfolded a(2)]
  let ?d = "dev_complete h d"
  have rqs: "requests_ok A ?d" by (rule requests_ok_cong[OF rq]) (simp_all add: c rw_block_def Let_def)
  have "unat (dev_idx d - used_idx d) < NUM" using busy_few[OF inv] by (simp add: busy_def finished_def NUM_def)
  from ring_put[OF NUM_ring this, of "used_ring d" "of_nat h"] have fin: "finished ?d = finished d @ [h]"
    using of_nat_idx(2) request_facts(6)[OF rq a(1)] a(2) by (simp add: finished_def c rw_block_def Let_def)
  have sel: "pending ?d = pending d" "dev_work ?d = remove1 h (dev_work d)" "bdisk ?d = bdisk d" "info_status ?d = (info_status d)(h := 0)"
    by (simp_all add: c rw_block_def Let_def pending_def)
  have "set (busy ?d) = set (busy d)" "distinct (busy ?d)" using q h fin sel by (auto simp: busy_def queues_ok_def distinct_remove1)
  then have "queues_ok A ?d" using q fin sel by (auto simp: queues_ok_def)
  then show "vd_inv A ?d" using rqs by (simp add: vd_inv_def)
qed

lemma complete_one_inv:
  assumes inv: "vd_inv A d" and ne: "used_idx d \<noteq> dev_idx d"
  obtains d' where "complete_one d = Inr d'" "vd_inv A d'" "platter d' = platter d" "bdat d' = bdat d"
proof -
  have rq: "requests_ok A d" and q: "queues_ok A d" using inv by (simp_all add: vd_inv_def)
  let ?h = "unat (used_ring d (unat (used_idx d) mod NUM))"
  have fin: "finished d = ?h # map unat (ring_list NUM (used_ring d) (used_idx d + 1) (dev_idx d))"
    using ring_get[OF NUM_ring(1) ne, of "used_ring d"] by (simp add: finished_def)
  have "?h \<in> set (heads_of A)" using q fin by (auto simp: queues_ok_def busy_def)
  then obtain b w idx where a: "(b, w, idx) \<in> set A" "idx ! 0 = ?h" by (auto simp: heads_of_def)
  note f = request_facts[OF rq a(1)]
  have c: "chain_ok d (b, w, idx)" using rq a by (simp add: requests_ok_def)
  have st: "info_status d ?h = 0" "info_b d ?h = b" "b \<noteq> 0" using q fin c a(2) f(4) by (auto simp: queues_ok_def chain_ok_def)
  let ?d = "d\<lparr>bdisk := (bdisk d)(b := False), vwoken := ChBuf b # vwoken d, used_idx := used_idx d + 1\<rparr>"
  have co: "complete_one d = Inr ?d" using st by (simp add: complete_one_def Let_def)
  have rqs: "requests_ok A ?d" by (rule requests_ok_cong[OF rq]) simp_all
  have fin': "finished d = ?h # finished ?d" using fin by (simp add: finished_def)
  then have bs: "set (busy d) = insert ?h (set (busy ?d))" "distinct (busy ?d)" "?h \<notin> set (busy ?d)" "set (finished ?d) \<subseteq> set (finished d)"
    using q by (auto simp: busy_def queues_ok_def pending_def)
  have "bdisk ?d b' \<longleftrightarrow> idx' ! 0 \<in> set (busy ?d)" if a': "(b', w', idx') \<in> set A" for b' w' idx'
  proof (cases "(b', w', idx') = (b, w, idx)")
    case True
    then show ?thesis using a(2) bs(3) by simp
  next
    case False
    have "b \<noteq> b'" by (rule bufs_distinct[OF _ a(1) a' False]) (use rq in \<open>simp add: requests_ok_def\<close>)
    moreover have "idx' ! 0 \<noteq> ?h"
      using heads_distinct[OF _ a(1) a'] a(2) False f(1) request_facts(1)[OF rq a'] rq by (force simp: requests_ok_def)
    moreover have "bdisk d b' \<longleftrightarrow> idx' ! 0 \<in> set (busy d)" using q a' by (auto simp: queues_ok_def)
    ultimately show ?thesis using bs(1) by auto
  qed
  then have "queues_ok A ?d" using q bs by (auto simp: queues_ok_def)
  then have "vd_inv A ?d" using rqs by (simp add: vd_inv_def)
  with co show thesis by (rule that) simp_all
qed

lemma intr_loop_inv:
  assumes "vd_inv A d"
  shows "\<exists>d'. intr_loop d = Inr d' \<and> vd_inv A d' \<and> platter d' = platter d \<and> bdat d' = bdat d"
  using assms
proof (induction d rule: intr_loop.induct)
  case (1 d)
  show ?case
  proof (cases "used_idx d = dev_idx d")
    case False
    then obtain d1 where d1: "complete_one d = Inr d1" "vd_inv A d1" "platter d1 = platter d" "bdat d1 = bdat d"
      using complete_one_inv[OF "1.prems"] by metis
    from "1.IH"[OF _ _ d1(2)] False d1 show ?thesis by (subst intr_loop.simps) auto
  qed (use 1 in \<open>auto simp: intr_loop.simps\<close>)
qed

lemma finish_inv:
  assumes inv: "vd_inv A d" and a: "(b, w, idx) \<in> set A" and nb: "\<not> bdisk d b"
  obtains d' where "disk_rw_finish b (idx ! 0) d = Inr d'" "vd_inv (remove1 (b, w, idx) A) d'"
proof -
  have rq: "requests_ok A d" and q: "queues_ok A d" using inv by (simp_all add: vd_inv_def)
  note f = request_facts[OF rq a]
  obtain ws where fc: "free_chain (idx ! 0) (d\<lparr>info_b := (info_b d)(idx ! 0 := 0)\<rparr>) =
      Inr (d\<lparr>info_b := (info_b d)(idx ! 0 := 0), desc := (\<lambda>i. if i \<in> set idx then null_desc else desc d i),
        dfree := (\<lambda>i. dfree d i \<or> i \<in> set idx), vwoken := ws @ vwoken d\<rparr>)" (is "_ = Inr ?d")
    using free_chain_spec[OF rq a] ..
  obtain xs ys where A: "A = xs @ (b, w, idx) # ys" "(b, w, idx) \<notin> set xs" using split_list_first[OF a] by blast
  let ?A = "xs @ ys"
  have rm: "remove1 (b, w, idx) A = ?A" using A by (simp add: remove1_append)
  have ds: "distinct (descs_of ?A)" "set (descs_of A) = set idx \<union> set (descs_of ?A)" "set idx \<inter> set (descs_of ?A) = {}"
    using rq A(1) by (auto simp: requests_ok_def)
  have bs: "distinct (bufs_of ?A)" "0 \<notin> set (bufs_of ?A)" using rq A(1) by (auto simp: requests_ok_def)
  have "chain_ok ?d (b', w', idx')" if "(b', w', idx') \<in> set ?A" for b' w' idx'
  proof (rule chain_ok_cong)
    show "chain_ok d (b', w', idx')" using rq A(1) that by (auto simp: requests_ok_def)
    have "set idx' \<subseteq> set (descs_of ?A)" using that by (force simp: descs_of_def)
    then show "\<And>i. i \<in> set idx' \<Longrightarrow> desc ?d i = desc d i \<and> ops ?d i = ops d i \<and> info_b ?d i = info_b d i" using ds(3) f(9) by auto
  qed simp
  then have "requests_ok ?A ?d" using rq ds bs by (auto simp: requests_ok_def)
  moreover have "queues_ok ?A ?d"
  proof -
    have "queues_ok A ?d" by (rule queues_ok_cong[OF q]) simp_all
    moreover have "idx ! 0 \<notin> set (busy ?d)" using q a nb by (auto simp: queues_ok_def busy_def pending_def finished_def)
    ultimately show ?thesis using A(1) by (auto simp: queues_ok_def)
  qed
  ultimately have "vd_inv ?A ?d" by (simp add: vd_inv_def)
  then show thesis using that[of ?d] fc nb rm by (simp add: disk_rw_finish_def)
qed

lemma boot_inv:
  assumes "virtio_disk_init rd d s = Inr (d', s')" "used_idx d = 0" "dev_next d = 0" "dev_work d = []" "\<And>b. \<not> bdisk d b"
  shows "vd_inv [] d'"
proof -
  have pr: "put_regs rs x = x\<lparr>mmio := rev rs @ mmio x\<rparr>" for rs x
    by (induction rs arbitrary: x) (auto simp: put_regs_def put_reg_def)
  have "avail_idx d' = 0" "dev_idx d' = 0" "used_idx d' = 0" "dev_next d' = 0" "dev_work d' = []" "\<forall>i<NUM. dfree d' i"
    using assms(1-4) by (auto simp: virtio_disk_init_def Let_def put_reg_def pr split: if_splits prod.splits)
  then show ?thesis by (simp add: vd_inv_def requests_ok_def queues_ok_def busy_def pending_def finished_def)
qed

lemma wait_inv:
  assumes "vd_inv A d" "\<forall>k\<in>gs. dfree d k"
  shows "vd_inv A (d\<lparr>desc := (\<lambda>i. if i \<in> gs then null_desc else desc d i), vwoken := ws @ vwoken d\<rparr>)"
proof -
  have ng: "i \<notin> gs" if "i \<in> set (descs_of A)" for i using assms that by (auto simp: vd_inv_def requests_ok_def)
  have "requests_ok A (d\<lparr>desc := (\<lambda>i. if i \<in> gs then null_desc else desc d i), vwoken := ws @ vwoken d\<rparr>)"
    by (rule requests_ok_cong[of A d]) (use assms(1) in \<open>simp_all add: vd_inv_def ng\<close>)
  moreover have "queues_ok A (d\<lparr>desc := (\<lambda>i. if i \<in> gs then null_desc else desc d i), vwoken := ws @ vwoken d\<rparr>)"
    by (rule queues_ok_cong[of A d]) (use assms in \<open>simp_all add: vd_inv_def\<close>)
  ultimately show ?thesis by (simp add: vd_inv_def)
qed

lemma put_reg_inv: "vd_inv A (put_reg r v d) = vd_inv A d"
proof -
  have "chain_ok (put_reg r v d) = chain_ok d" "busy (put_reg r v d) = busy d" "finished (put_reg r v d) = finished d"
    by (simp_all add: fun_eq_iff chain_ok_def put_reg_def busy_def pending_def finished_def)
  then show ?thesis by (simp add: vd_inv_def requests_ok_def queues_ok_def) (simp add: put_reg_def)
qed

lemma intr_inv:
  assumes "vd_inv A d"
  obtains d' where "virtio_disk_intr rd d = Inr d'" "vd_inv A d'" "platter d' = platter d" "bdat d' = bdat d"
proof -
  have "vd_inv A (put_reg VIRTIO_MMIO_INTERRUPT_ACK (rd VIRTIO_MMIO_INTERRUPT_STATUS AND 3) d)" using assms by (simp add: put_reg_inv)
  from intr_loop_inv[OF this] show thesis using that by (auto simp: virtio_disk_intr_def put_reg_def)
qed

lemma vd_run_inv: "vd_run A d \<Longrightarrow> vd_inv A d"
proof (induction rule: vd_run.induct)
  case (boot rd d s d' s')
  then show ?case by (intro boot_inv) auto
next
  case (edit A d b x n)
  have "requests_ok A (d\<lparr>bno := (bno d)(b := n), bdat := (bdat d)(b := x)\<rparr>)"
    by (rule requests_ok_cong[of A d]) (use edit in \<open>auto simp: vd_inv_def\<close>)
  moreover have "queues_ok A (d\<lparr>bno := (bno d)(b := n), bdat := (bdat d)(b := x)\<rparr>)"
    by (rule queues_ok_cong[of A d]) (use edit in \<open>simp_all add: vd_inv_def\<close>)
  ultimately show ?case by (simp add: vd_inv_def)
next
  case (submit A d b w idx d')
  from start_spec[OF submit.hyps(4)] show ?case using submit_inv[OF submit.IH submit.hyps(2,3)] by (cases, auto)
next
  case (wait A d b w d')
  from start_spec[OF wait.hyps(2)] show ?case using wait_inv[OF wait.IH] by (cases, auto)
next
  case (fetch A d)
  then show ?case by (intro fetch_inv)
next
  case (work A d h)
  then show ?case by (intro work_inv(1))
next
  case (interrupt A d rd d')
  then show ?case using intr_inv[OF interrupt.IH, of rd] by (metis sum.inject(2))
next
  case (finish A d b w idx d')
  then have "\<not> bdisk d b" by (auto simp: disk_rw_finish_def)
  then show ?case using finish_inv[OF finish.IH finish.hyps(2)] finish.hyps(3) by (metis sum.inject(2))
qed

section \<open>Correctness\<close>

text \<open>One transfer between buffer \<open>b\<close> and its block.\<close>

definition did_rw :: "nat \<Rightarrow> bool \<Rightarrow> vdisk \<Rightarrow> vdisk \<Rightarrow> bool" where
  "did_rw b w d d' \<longleftrightarrow>
     (let off = unat (bno d b) * BSIZE in
      if w then platter d' = wrbytes (platter d) off (rdbytes (bdat d b) 0 BSIZE) \<and> bdat d' = bdat d
      else platter d' = platter d \<and> bdat d' = (bdat d)(b := wrbytes (bdat d b) 0 (rdbytes (platter d) off BSIZE)))"

lemma rw_offset: "unat n < 2 ^ 31 \<Longrightarrow> unat (ucast (n * (of_nat BSIZE div 512) :: uint32) :: uint64) * 512 = unat n * BSIZE"
proof -
  assume n: "unat n < 2 ^ 31"
  have "unat (ucast x :: uint64) = unat x" for x :: uint32
    using unat_less[of x] by (simp add: unsigned_ucast_eq take_bit_nat_eq_self)
  then show ?thesis using n by (simp add: BSIZE_def unat_word_ariths)
qed

text \<open>C4. The disk driver under every interleaving of callers, device and interrupts: no descriptor belongs to two
  requests; neither the start of a request, nor the interrupt handler, nor the end of a request whose
  buffer has been given back can panic, and the interrupt handler does not touch data; and when the
  device carries out a chain, its effect is that of exactly one pending request: one block is copied,
  between the request's buffer and its block number, in the direction that was asked for.\<close>

theorem virtio_requests_correct:
  assumes "vd_run A d"
  shows "distinct (descs_of A) \<and> (\<forall>b w e. disk_rw_start b w d \<noteq> Inl e) \<and>
    (\<exists>d'. virtio_disk_intr rd d = Inr d' \<and> platter d' = platter d \<and> bdat d' = bdat d) \<and>
    (\<forall>(b, w, idx)\<in>set A. bdisk d b \<or> (\<exists>d'. disk_rw_finish b (idx ! 0) d = Inr d')) \<and>
    (\<forall>h\<in>set (dev_work d). \<exists>b w idx. (b, w, idx) \<in> set A \<and> idx ! 0 = h \<and> (unat (bno d b) < 2 ^ 31 \<longrightarrow> did_rw b w d (dev_complete h d)))"
proof (intro conjI)
  have inv: "vd_inv A d" by (rule vd_run_inv[OF assms])
  then have rq: "requests_ok A d" by (simp add: vd_inv_def)
  then show "distinct (descs_of A)" by (simp add: requests_ok_def)
  show "\<forall>b w e. disk_rw_start b w d \<noteq> Inl e"
  proof (intro allI)
    fix b w e
    show "disk_rw_start b w d \<noteq> Inl e" by (rule start_spec[OF refl, of b w d]) simp_all
  qed
  show "\<exists>d'. virtio_disk_intr rd d = Inr d' \<and> platter d' = platter d \<and> bdat d' = bdat d" by (rule intr_inv[OF inv, of rd]) blast
  show "\<forall>(b, w, idx)\<in>set A. bdisk d b \<or> (\<exists>d'. disk_rw_finish b (idx ! 0) d = Inr d')" using finish_inv[OF inv] by blast
  show "\<forall>h\<in>set (dev_work d). \<exists>b w idx. (b, w, idx) \<in> set A \<and> idx ! 0 = h \<and> (unat (bno d b) < 2 ^ 31 \<longrightarrow> did_rw b w d (dev_complete h d))"
  proof
    fix h assume "h \<in> set (dev_work d)"
    then obtain b w idx where a: "(b, w, idx) \<in> set A" "idx ! 0 = h" using work_inv(2)[OF inv] by blast
    have "did_rw b w d (dev_complete h d)" if "unat (bno d b) < 2 ^ 31"
      using complete_spec[OF rq a(1)] rw_offset[OF that] a(2) by (simp add: did_rw_def rw_block_def Let_def)
    then show "\<exists>b w idx. (b, w, idx) \<in> set A \<and> idx ! 0 = h \<and> (unat (bno d b) < 2 ^ 31 \<longrightarrow> did_rw b w d (dev_complete h d))" using a by blast
  qed
qed

text \<open>A device that answers as the driver expects, three free pages, and a request to read block 5 that the
  device has fetched.\<close>

definition good_regs :: "nat \<Rightarrow> uint32" where
  "good_regs r = (if r = VIRTIO_MMIO_MAGIC_VALUE then 0x74726976 else if r = VIRTIO_MMIO_VERSION \<or> r = VIRTIO_MMIO_DEVICE_ID then 2
     else if r = VIRTIO_MMIO_VENDOR_ID then 0x554d4551 else if r = VIRTIO_MMIO_STATUS then 11 else if r = VIRTIO_MMIO_QUEUE_NUM_MAX then 1024 else 0)"

definition disk0 :: vdisk where
  "disk0 = \<lparr>desc = (\<lambda>_. null_desc), avail_idx = 0, avail_ring = (\<lambda>_. 0), dev_idx = 0, used_ring = (\<lambda>_. 0), dfree = (\<lambda>_. False), used_idx = 0,
     info_b = (\<lambda>_. 0), info_status = (\<lambda>_. 0), ops = (\<lambda>_. \<lparr>rtype = 0, rreserved = 0, rsector = 0\<rparr>), bdisk = (\<lambda>_. False), bno = (\<lambda>_. 5),
     bdat = (\<lambda>_ _. 0), mmio = [], vwoken = [], platter = (\<lambda>_. 42), dev_next = 0, dev_work = []\<rparr>"

definition three_pages :: phys where
  "three_pages = phys0\<lparr>freelist := Some 0x80000, rnext := (\<lambda>i. if i < 0x80002 then Some (Suc i) else None)\<rparr>"

lemma disk_boot:
  obtains d s where "virtio_disk_init good_regs disk0 three_pages = Inr (d, s)" "\<forall>i<NUM. dfree d i" "avail_idx d = 0" "dev_next d = 0" "dev_work d = []" "bno d = (\<lambda>_. 5)"
  by (fastforce simp: virtio_disk_init_def good_regs_def disk0_def three_pages_def put_reg_def put_regs_def queue_regs_def negotiate_def kalloc_def Let_def NUM_def PGSIZE_def
      VIRTIO_MMIO_MAGIC_VALUE_def VIRTIO_MMIO_VERSION_def VIRTIO_MMIO_DEVICE_ID_def VIRTIO_MMIO_VENDOR_ID_def VIRTIO_MMIO_STATUS_def
      VIRTIO_MMIO_QUEUE_NUM_MAX_def VIRTIO_MMIO_QUEUE_READY_def VIRTIO_CONFIG_S_FEATURES_OK_def)

theorem virtio_requests_correct_witness:
  "\<exists>d. vd_run [(1, False, [0, 1, 2])] d \<and> dev_work d = [0] \<and> unat (bno d 1) = 5 \<and> did_rw 1 False d (dev_complete 0 d)"
proof -
  obtain d s where d: "virtio_disk_init good_regs disk0 three_pages = Inr (d, s)" "\<forall>i<NUM. dfree d i" "avail_idx d = 0" "dev_next d = 0" "dev_work d = []" "bno d = (\<lambda>_. 5)"
    by (rule disk_boot)
  have r0: "vd_run [] d" by (rule vd_run.boot[OF d(1)]) (simp_all add: disk0_def)
  define x where "x = format_request 1 False [0, 1, 2] (d\<lparr>dfree := (dfree d)(0 := False, 1 := False, 2 := False)\<rparr>)"
  have fr: "dfree d 0" "dfree d (Suc 0)" "dfree d 2" using d(2) by (simp_all add: NUM_def)
  have up: "[0..<NUM] = [0, 1, 2] @ [3..<8]" by code_simp
  have "disk_rw_start 1 False d = Inr (Some [0, 1, 2], x)"
    using fr by (simp add: x_def disk_rw_start_def alloc3_desc_def alloc_desc_def up numeral_3_eq_3)
  from vd_run.submit[OF r0 _ _ this] have r1: "vd_run [(1, False, [0, 1, 2])] x" by simp
  have sel: "avail_idx x = 1" "dev_next x = 0" "dev_work x = []" "avail_ring x 0 = 0" "bno x = (\<lambda>_. 5)"
    using d(3-6) by (simp_all add: x_def format_request_def put_reg_def Let_def)
  have r2: "vd_run [(1, False, [0, 1, 2])] (dev_fetch x)" by (rule vd_run.fetch[OF r1]) (simp add: sel)
  have w: "dev_work (dev_fetch x) = [0]" "bno (dev_fetch x) = (\<lambda>_. 5)" using sel by (simp_all add: dev_fetch_def)
  from virtio_requests_correct[OF r2, of good_regs] have "\<forall>h\<in>set (dev_work (dev_fetch x)). \<exists>b w idx. (b, w, idx) \<in> set [(1, False, [0, 1, 2])] \<and> idx ! 0 = h \<and>
      (unat (bno (dev_fetch x) b) < 2 ^ 31 \<longrightarrow> did_rw b w (dev_fetch x) (dev_complete h (dev_fetch x)))" by (elim conjE)
  then have "did_rw 1 False (dev_fetch x) (dev_complete 0 (dev_fetch x))" using w by auto
  then show ?thesis using r2 w by (intro exI[of _ "dev_fetch x"]) simp
qed

end
