(* ===== verification/Xv6_Sleep.thy ===== *)
theory Xv6_Sleep
  imports Xv6_Kstate
begin

text \<open>
  Why no wakeup is lost: \<^verbatim>\<open>sleep\<close> and \<^verbatim>\<open>wakeup\<close> of \<^verbatim>\<open>kernel/proc.c\<close>, statement by statement, run by any number
  of processes against one condition that a spin lock \<^verbatim>\<open>lk\<close> protects, as in the pipe, the log, the
  sleep locks and the disk driver. Elsewhere in the development \<^verbatim>\<open>sleep\<close> is one step that releases the
  lock and blocks; here its interleavings with \<^verbatim>\<open>wakeup\<close> are examined. A process that wants the
  condition sleeps while it is false; one that makes it true calls \<^verbatim>\<open>wakeup\<close> with the lock
  held. Acquiring a lock is a step that needs it to be free.
\<close>

section \<open>Threads\<close>

text \<open>Where a thread is: outside, in the critical section of \<^verbatim>\<open>lk\<close>, at one of the points of \<^verbatim>\<open>sleep\<close>, or in
  the loop of \<^verbatim>\<open>wakeup\<close> before or inside the critical section of process \<open>i\<close>'s lock.\<close>

datatype place =
    Outside
  | Holds
  | SlBoth        \<comment> \<open>after \<^verbatim>\<open>acquire(&p->lock)\<close>\<close>
  | SlOwn         \<comment> \<open>after \<^verbatim>\<open>release(lk)\<close>\<close>
  | SlSet         \<comment> \<open>\<^verbatim>\<open>p->chan\<close> and \<^verbatim>\<open>p->state\<close> are set\<close>
  | Switched      \<comment> \<open>in \<^verbatim>\<open>sched\<close>; the scheduler has released \<^verbatim>\<open>p->lock\<close>\<close>
  | Back          \<comment> \<open>resumed, with \<^verbatim>\<open>p->lock\<close>\<close>
  | Reacquire     \<comment> \<open>about to \<^verbatim>\<open>acquire(lk)\<close>\<close>
  | WakeAt nat
  | WakeIn nat

record threads =
  lk_holder :: "nat option"
  p_holder :: "nat \<Rightarrow> nat option"
  tstate :: "nat \<Rightarrow> procstate"
  on_chan :: "nat \<Rightarrow> bool"
  place :: "nat \<Rightarrow> place"
  cond :: bool

definition at :: "nat \<Rightarrow> place \<Rightarrow> threads \<Rightarrow> threads" where
  "at p x s = s\<lparr>place := (place s)(p := x)\<rparr>"

inductive sw_step :: "threads \<Rightarrow> threads \<Rightarrow> bool" where
  lock: "place s p = Outside \<Longrightarrow> lk_holder s = None \<Longrightarrow> sw_step s (at p Holds (s\<lparr>lk_holder := Some p\<rparr>))"
| unlock: "place s p = Holds \<Longrightarrow> sw_step s (at p Outside (s\<lparr>lk_holder := None\<rparr>))"
| consume: "place s p = Holds \<Longrightarrow> cond s \<Longrightarrow> sw_step s (s\<lparr>cond := False\<rparr>)"
| sleep_own_lock: "place s p = Holds \<Longrightarrow> \<not> cond s \<Longrightarrow> p < NPROC \<Longrightarrow> p_holder s p = None \<Longrightarrow>
    sw_step s (at p SlBoth (s\<lparr>p_holder := (p_holder s)(p := Some p)\<rparr>))"
| sleep_release: "place s p = SlBoth \<Longrightarrow> sw_step s (at p SlOwn (s\<lparr>lk_holder := None\<rparr>))"
| sleep_set: "place s p = SlOwn \<Longrightarrow>
    sw_step s (at p SlSet (s\<lparr>on_chan := (on_chan s)(p := True), tstate := (tstate s)(p := SLEEPING)\<rparr>))"
| sleep_sched: "place s p = SlSet \<Longrightarrow> sw_step s (at p Switched (s\<lparr>p_holder := (p_holder s)(p := None)\<rparr>))"
| resume: "place s p = Switched \<Longrightarrow> tstate s p = RUNNABLE \<Longrightarrow> p_holder s p = None \<Longrightarrow>
    sw_step s (at p Back (s\<lparr>p_holder := (p_holder s)(p := Some p), tstate := (tstate s)(p := RUNNING)\<rparr>))"
| sleep_tidy: "place s p = Back \<Longrightarrow>
    sw_step s (at p Reacquire (s\<lparr>on_chan := (on_chan s)(p := False), p_holder := (p_holder s)(p := None)\<rparr>))"
| sleep_reacquire: "place s p = Reacquire \<Longrightarrow> lk_holder s = None \<Longrightarrow> sw_step s (at p Holds (s\<lparr>lk_holder := Some p\<rparr>))"
| produce: "place s w = Holds \<Longrightarrow> sw_step s (at w (WakeAt 0) (s\<lparr>cond := True\<rparr>))"
| wake_skip: "place s w = WakeAt w \<Longrightarrow> sw_step s (at w (WakeAt (Suc w)) s)"
| wake_lock: "place s w = WakeAt i \<Longrightarrow> i < NPROC \<Longrightarrow> i \<noteq> w \<Longrightarrow> p_holder s i = None \<Longrightarrow>
    sw_step s (at w (WakeIn i) (s\<lparr>p_holder := (p_holder s)(i := Some w)\<rparr>))"
| wake_one: "place s w = WakeIn i \<Longrightarrow>
    sw_step s (at w (WakeAt (Suc i)) (s\<lparr>p_holder := (p_holder s)(i := None),
      tstate := (tstate s)(i := (if tstate s i = SLEEPING \<and> on_chan s i then RUNNABLE else tstate s i))\<rparr>))"
| wake_end: "place s w = WakeAt NPROC \<Longrightarrow> sw_step s (at w Holds s)"
| killed: "p_holder s p = None \<Longrightarrow> tstate s p = SLEEPING \<Longrightarrow> sw_step s (s\<lparr>tstate := (tstate s)(p := RUNNABLE)\<rparr>)"

definition threads0 :: threads where
  "threads0 = \<lparr>lk_holder = None, p_holder = (\<lambda>_. None), tstate = (\<lambda>_. RUNNING), on_chan = (\<lambda>_. False), place = (\<lambda>_. Outside), cond = False\<rparr>"

inductive sw_reach :: "threads \<Rightarrow> bool" where
  start: "sw_reach threads0"
| more: "sw_reach s \<Longrightarrow> sw_step s s' \<Longrightarrow> sw_reach s'"

section \<open>The invariant\<close>

fun has_lk :: "place \<Rightarrow> bool" where
  "has_lk Holds = True"
| "has_lk SlBoth = True"
| "has_lk (WakeAt i) = True"
| "has_lk (WakeIn i) = True"
| "has_lk _ = False"

fun has_own :: "place \<Rightarrow> bool" where
  "has_own SlBoth = True"
| "has_own SlOwn = True"
| "has_own SlSet = True"
| "has_own Back = True"
| "has_own _ = False"

text \<open>Going to sleep, or asleep.\<close>

definition dozing :: "threads \<Rightarrow> nat \<Rightarrow> bool" where
  "dozing s p \<longleftrightarrow> place s p = SlOwn \<or> place s p = SlSet \<or> place s p = Switched \<and> tstate s p = SLEEPING"

text \<open>A \<^verbatim>\<open>wakeup\<close> that has yet to deal with process \<open>p\<close>.\<close>

fun wakes :: "place \<Rightarrow> nat \<Rightarrow> bool" where
  "wakes (WakeAt i) p \<longleftrightarrow> i \<le> p"
| "wakes (WakeIn i) p \<longleftrightarrow> i \<le> p"
| "wakes _ p \<longleftrightarrow> False"

definition wake_coming :: "threads \<Rightarrow> nat \<Rightarrow> bool" where
  "wake_coming s p \<longleftrightarrow> (\<exists>w. wakes (place s w) p)"

definition locks_ok :: "threads \<Rightarrow> bool" where
  "locks_ok s \<longleftrightarrow> (\<forall>p. has_lk (place s p) \<longleftrightarrow> lk_holder s = Some p) \<and> (\<forall>p. has_own (place s p) \<longleftrightarrow> p_holder s p = Some p) \<and>
     (\<forall>w i. place s w = WakeIn i \<longrightarrow> i \<noteq> w \<and> p_holder s i = Some w)"

definition sleepers_ok :: "threads \<Rightarrow> bool" where
  "sleepers_ok s \<longleftrightarrow> (\<forall>p. place s p = SlBoth \<longrightarrow> \<not> cond s) \<and> (\<forall>p. place s p = SlBoth \<or> dozing s p \<longrightarrow> p < NPROC) \<and>
     (\<forall>p. place s p = SlSet \<or> place s p = Switched \<longrightarrow> on_chan s p) \<and>
     (\<forall>p. tstate s p = SLEEPING \<longrightarrow> place s p = SlSet \<or> place s p = Switched)"

definition none_lost :: "threads \<Rightarrow> bool" where
  "none_lost s \<longleftrightarrow> (\<forall>p. cond s \<and> dozing s p \<longrightarrow> wake_coming s p)"

lemma holds:
  assumes "locks_ok s" "place s p = x"
  shows "has_lk x \<longleftrightarrow> lk_holder s = Some p" "has_own x \<longleftrightarrow> p_holder s p = Some p"
    "x = WakeIn i \<Longrightarrow> i \<noteq> p \<and> p_holder s i = Some p"
  using assms by (auto simp: locks_ok_def)

lemma locks_ok_step: "sw_step s s' \<Longrightarrow> locks_ok s \<Longrightarrow> locks_ok s'"
proof (induction rule: sw_step.induct)
  case (lock s p)
  with holds[OF lock.prems lock.hyps(1)] show ?case by (auto simp: locks_ok_def at_def)
next
  case (unlock s p)
  with holds[OF unlock.prems unlock.hyps(1)] show ?case by (auto simp: locks_ok_def at_def)
next
  case (consume s p)
  with holds[OF consume.prems consume.hyps(1)] show ?case by (auto simp: locks_ok_def at_def)
next
  case (sleep_own_lock s p)
  with holds[OF sleep_own_lock.prems sleep_own_lock.hyps(1)] show ?case by (auto simp: locks_ok_def at_def)
next
  case (sleep_release s p)
  with holds[OF sleep_release.prems sleep_release.hyps(1)] show ?case by (auto simp: locks_ok_def at_def)
next
  case (sleep_set s p)
  with holds[OF sleep_set.prems sleep_set.hyps(1)] show ?case by (auto simp: locks_ok_def at_def)
next
  case (sleep_sched s p)
  with holds[OF sleep_sched.prems sleep_sched.hyps(1)] show ?case by (auto simp: locks_ok_def at_def)
next
  case (resume s p)
  with holds[OF resume.prems resume.hyps(1)] show ?case by (auto simp: locks_ok_def at_def)
next
  case (sleep_tidy s p)
  with holds[OF sleep_tidy.prems sleep_tidy.hyps(1)] show ?case by (auto simp: locks_ok_def at_def)
next
  case (sleep_reacquire s p)
  with holds[OF sleep_reacquire.prems sleep_reacquire.hyps(1)] show ?case by (auto simp: locks_ok_def at_def)
next
  case (produce s w)
  with holds[OF produce.prems produce.hyps(1)] show ?case by (auto simp: locks_ok_def at_def)
next
  case (wake_skip s w)
  with holds[OF wake_skip.prems wake_skip.hyps(1)] show ?case by (auto simp: locks_ok_def at_def)
next
  case (wake_lock s w i)
  with holds[OF wake_lock.prems wake_lock.hyps(1)] show ?case by (auto simp: locks_ok_def at_def)
next
  case (wake_one s w i)
  with holds[OF wake_one.prems wake_one.hyps(1)] show ?case by (auto simp: locks_ok_def at_def)
next
  case (wake_end s w)
  with holds[OF wake_end.prems wake_end.hyps(1)] show ?case by (auto simp: locks_ok_def at_def)
next
  case (killed s p)
  then show ?case by (simp add: locks_ok_def)
qed

lemma sleepers_ok_step: "sw_step s s' \<Longrightarrow> locks_ok s \<Longrightarrow> sleepers_ok s \<Longrightarrow> sleepers_ok s'"
proof (induction rule: sw_step.induct)
  case (lock s p)
  with holds(1)[OF lock.prems(1) lock.hyps(1)] show ?case by (auto simp: sleepers_ok_def dozing_def at_def dest: holds(1)[OF lock.prems(1)])
next
  case (unlock s p)
  with holds(1)[OF unlock.prems(1) unlock.hyps(1)] show ?case by (auto simp: sleepers_ok_def dozing_def at_def dest: holds(1)[OF unlock.prems(1)])
next
  case (consume s p)
  with holds(1)[OF consume.prems(1) consume.hyps(1)] show ?case by (auto simp: sleepers_ok_def dozing_def at_def dest: holds(1)[OF consume.prems(1)])
next
  case (sleep_own_lock s p)
  with holds(1)[OF sleep_own_lock.prems(1) sleep_own_lock.hyps(1)] show ?case by (auto simp: sleepers_ok_def dozing_def at_def dest: holds(1)[OF sleep_own_lock.prems(1)])
next
  case (sleep_release s p)
  with holds(1)[OF sleep_release.prems(1) sleep_release.hyps(1)] show ?case by (auto simp: sleepers_ok_def dozing_def at_def dest: holds(1)[OF sleep_release.prems(1)])
next
  case (sleep_set s p)
  with holds(1)[OF sleep_set.prems(1) sleep_set.hyps(1)] show ?case by (auto simp: sleepers_ok_def dozing_def at_def dest: holds(1)[OF sleep_set.prems(1)])
next
  case (sleep_sched s p)
  with holds(1)[OF sleep_sched.prems(1) sleep_sched.hyps(1)] show ?case by (auto simp: sleepers_ok_def dozing_def at_def dest: holds(1)[OF sleep_sched.prems(1)])
next
  case (resume s p)
  with holds(1)[OF resume.prems(1) resume.hyps(1)] show ?case by (auto simp: sleepers_ok_def dozing_def at_def dest: holds(1)[OF resume.prems(1)])
next
  case (sleep_tidy s p)
  with holds(1)[OF sleep_tidy.prems(1) sleep_tidy.hyps(1)] show ?case by (auto simp: sleepers_ok_def dozing_def at_def dest: holds(1)[OF sleep_tidy.prems(1)])
next
  case (sleep_reacquire s p)
  with holds(1)[OF sleep_reacquire.prems(1) sleep_reacquire.hyps(1)] show ?case by (auto simp: sleepers_ok_def dozing_def at_def dest: holds(1)[OF sleep_reacquire.prems(1)])
next
  case (produce s w)
  with holds(1)[OF produce.prems(1) produce.hyps(1)] show ?case by (auto simp: sleepers_ok_def dozing_def at_def dest: holds(1)[OF produce.prems(1)])
next
  case (wake_skip s w)
  with holds(1)[OF wake_skip.prems(1) wake_skip.hyps(1)] show ?case by (auto simp: sleepers_ok_def dozing_def at_def dest: holds(1)[OF wake_skip.prems(1)])
next
  case (wake_lock s w i)
  with holds(1)[OF wake_lock.prems(1) wake_lock.hyps(1)] show ?case by (auto simp: sleepers_ok_def dozing_def at_def dest: holds(1)[OF wake_lock.prems(1)])
next
  case (wake_one s w i)
  with holds(1)[OF wake_one.prems(1) wake_one.hyps(1)] show ?case by (auto simp: sleepers_ok_def dozing_def at_def dest: holds(1)[OF wake_one.prems(1)])
next
  case (wake_end s w)
  with holds(1)[OF wake_end.prems(1) wake_end.hyps(1)] show ?case by (auto simp: sleepers_ok_def dozing_def at_def dest: holds(1)[OF wake_end.prems(1)])
next
  case (killed s p)
  then show ?case by (auto simp: sleepers_ok_def dozing_def)
qed

lemma wake_kept:
  "place s v = x \<Longrightarrow> wake_coming s p \<Longrightarrow> (wakes x p \<Longrightarrow> wakes y p) \<Longrightarrow> place s' = (place s)(v := y) \<Longrightarrow> wake_coming s' p"
  unfolding wake_coming_def by (metis fun_upd_other fun_upd_same)

lemma dozes_again:
  "sw_step s s' \<Longrightarrow> sleepers_ok s \<Longrightarrow> cond s' \<Longrightarrow> dozing s' q \<Longrightarrow> (cond s \<and> dozing s q) \<or> wake_coming s' q"
proof (induction rule: sw_step.induct)
  case (lock s p)
  then show ?case by (auto simp: dozing_def sleepers_ok_def at_def wake_coming_def split: if_splits)
next
  case (unlock s p)
  then show ?case by (auto simp: dozing_def sleepers_ok_def at_def wake_coming_def split: if_splits)
next
  case (consume s p)
  then show ?case by (auto simp: dozing_def sleepers_ok_def at_def wake_coming_def split: if_splits)
next
  case (sleep_own_lock s p)
  then show ?case by (auto simp: dozing_def sleepers_ok_def at_def wake_coming_def split: if_splits)
next
  case (sleep_release s p)
  then show ?case by (auto simp: dozing_def sleepers_ok_def at_def wake_coming_def split: if_splits)
next
  case (sleep_set s p)
  then show ?case by (auto simp: dozing_def sleepers_ok_def at_def wake_coming_def split: if_splits)
next
  case (sleep_sched s p)
  then show ?case by (auto simp: dozing_def sleepers_ok_def at_def wake_coming_def split: if_splits)
next
  case (resume s p)
  then show ?case by (auto simp: dozing_def sleepers_ok_def at_def wake_coming_def split: if_splits)
next
  case (sleep_tidy s p)
  then show ?case by (auto simp: dozing_def sleepers_ok_def at_def wake_coming_def split: if_splits)
next
  case (sleep_reacquire s p)
  then show ?case by (auto simp: dozing_def sleepers_ok_def at_def wake_coming_def split: if_splits)
next
  case (produce s w)
  show ?case by (auto simp: wake_coming_def at_def intro!: exI[of _ w])
next
  case (wake_skip s w)
  then show ?case by (auto simp: dozing_def sleepers_ok_def at_def wake_coming_def split: if_splits)
next
  case (wake_lock s w i)
  then show ?case by (auto simp: dozing_def sleepers_ok_def at_def wake_coming_def split: if_splits)
next
  case (wake_one s w i)
  then show ?case by (auto simp: dozing_def sleepers_ok_def at_def wake_coming_def split: if_splits)
next
  case (wake_end s w)
  then show ?case by (auto simp: dozing_def sleepers_ok_def at_def wake_coming_def split: if_splits)
next
  case (killed s p)
  then show ?case by (auto simp: dozing_def sleepers_ok_def at_def wake_coming_def split: if_splits)
qed

lemma wake_still_coming:
  "sw_step s s' \<Longrightarrow> locks_ok s \<Longrightarrow> sleepers_ok s \<Longrightarrow> dozing s' q \<Longrightarrow> wake_coming s q \<Longrightarrow> wake_coming s' q"
proof (induction rule: sw_step.induct)
  case (lock s p)
  show ?case by (rule wake_kept[OF lock.hyps(1) lock.prems(4)]) (auto simp: at_def)
next
  case (unlock s p)
  show ?case by (rule wake_kept[OF unlock.hyps(1) unlock.prems(4)]) (auto simp: at_def)
next
  case (consume s p)
  then show ?case by (auto simp: wake_coming_def)
next
  case (sleep_own_lock s p)
  show ?case by (rule wake_kept[OF sleep_own_lock.hyps(1) sleep_own_lock.prems(4)]) (auto simp: at_def)
next
  case (sleep_release s p)
  show ?case by (rule wake_kept[OF sleep_release.hyps(1) sleep_release.prems(4)]) (auto simp: at_def)
next
  case (sleep_set s p)
  show ?case by (rule wake_kept[OF sleep_set.hyps(1) sleep_set.prems(4)]) (auto simp: at_def)
next
  case (sleep_sched s p)
  show ?case by (rule wake_kept[OF sleep_sched.hyps(1) sleep_sched.prems(4)]) (auto simp: at_def)
next
  case (resume s p)
  show ?case by (rule wake_kept[OF resume.hyps(1) resume.prems(4)]) (auto simp: at_def)
next
  case (sleep_tidy s p)
  show ?case by (rule wake_kept[OF sleep_tidy.hyps(1) sleep_tidy.prems(4)]) (auto simp: at_def)
next
  case (sleep_reacquire s p)
  show ?case by (rule wake_kept[OF sleep_reacquire.hyps(1) sleep_reacquire.prems(4)]) (auto simp: at_def)
next
  case (produce s w)
  show ?case by (rule wake_kept[OF produce.hyps(1) produce.prems(4)]) (auto simp: at_def)
next
  case (wake_skip s w)
  then show ?case by (intro wake_kept[OF wake_skip.hyps(1) wake_skip.prems(4)]) (auto simp: dozing_def at_def sleepers_ok_def le_less Suc_le_eq split: if_splits)
next
  case (wake_lock s w i)
  show ?case by (rule wake_kept[OF wake_lock.hyps(1) wake_lock.prems(4)]) (auto simp: at_def)
next
  case (wake_one s w i)
  from wake_one holds(3)[OF wake_one.prems(1) wake_one.hyps(1) refl] holds(2)[OF wake_one.prems(1) refl, of i] have "q \<noteq> i"
    by (auto simp: dozing_def at_def sleepers_ok_def split: if_splits)
  then show ?case by (intro wake_kept[OF wake_one.hyps(1) wake_one.prems(4)]) (auto simp: at_def)
next
  case (wake_end s w)
  then show ?case by (intro wake_kept[OF wake_end.hyps(1) wake_end.prems(4)]) (auto simp: dozing_def at_def sleepers_ok_def le_less Suc_le_eq split: if_splits)
next
  case (killed s p)
  then show ?case by (auto simp: wake_coming_def)
qed

lemma reach_ok: "sw_reach s \<Longrightarrow> locks_ok s \<and> sleepers_ok s \<and> none_lost s"
proof (induction rule: sw_reach.induct)
  case start
  show ?case by (auto simp: threads0_def locks_ok_def sleepers_ok_def none_lost_def dozing_def)
next
  case (more s s')
  then have ok: "locks_ok s" "sleepers_ok s" "none_lost s" by simp_all
  have "none_lost s'"
    unfolding none_lost_def
  proof (intro allI impI)
    fix q
    assume q: "cond s' \<and> dozing s' q"
    with dozes_again[OF more.hyps(2) ok(2)] ok(3) have "wake_coming s q \<or> wake_coming s' q" by (auto simp: none_lost_def)
    with wake_still_coming[OF more.hyps(2) ok(1,2)] q show "wake_coming s' q" by blast
  qed
  with locks_ok_step[OF more.hyps(2) ok(1)] sleepers_ok_step[OF more.hyps(2) ok(1,2)] show ?case by simp
qed

lemma wakes_has_lk: "wakes x p \<Longrightarrow> has_lk x"
  by (cases x) simp_all

text \<open>C6. No wakeup is lost. However processes that sleep on a channel and processes that make its
  condition true interleave, with \<^verbatim>\<open>kill\<close> waking sleepers at any time: whenever the condition holds and
  some process is \<^verbatim>\<open>SLEEPING\<close> on the channel, the process that holds \<^verbatim>\<open>lk\<close> is in the loop of \<^verbatim>\<open>wakeup\<close> and has
  not yet passed the sleeper. So once \<^verbatim>\<open>lk\<close> is free no process sleeps on a true condition, nor is any in
  \<^verbatim>\<open>sleep\<close> on its way to doing so.\<close>

theorem no_lost_wakeup:
  assumes "sw_reach s" "cond s"
  shows "(tstate s p = SLEEPING \<longrightarrow> (\<exists>w i. lk_holder s = Some w \<and> i \<le> p \<and> (place s w = WakeAt i \<or> place s w = WakeIn i))) \<and>
    (lk_holder s = None \<longrightarrow> place s p \<noteq> SlBoth \<and> place s p \<noteq> SlOwn \<and> place s p \<noteq> SlSet \<and> tstate s p \<noteq> SLEEPING)"
proof -
  from reach_ok[OF assms(1)] have ok: "locks_ok s" "sleepers_ok s" "none_lost s" by simp_all
  have waker: "\<exists>w. lk_holder s = Some w \<and> wakes (place s w) p" if d: "dozing s p"
  proof -
    from ok(3) assms(2) d obtain w where "wakes (place s w) p" by (auto simp: none_lost_def wake_coming_def)
    with holds(1)[OF ok(1) refl, of w] show ?thesis by (auto dest: wakes_has_lk)
  qed
  have doze: "dozing s p" if "tstate s p = SLEEPING" using ok(2) that by (auto simp: sleepers_ok_def dozing_def)
  have "\<exists>w i. lk_holder s = Some w \<and> i \<le> p \<and> (place s w = WakeAt i \<or> place s w = WakeIn i)" if "tstate s p = SLEEPING"
  proof -
    from waker[OF doze[OF that]] obtain w where w: "lk_holder s = Some w" "wakes (place s w) p" by blast
    then show ?thesis by (cases "place s w") auto
  qed
  moreover have "place s p \<noteq> SlBoth \<and> place s p \<noteq> SlOwn \<and> place s p \<noteq> SlSet \<and> tstate s p \<noteq> SLEEPING" if "lk_holder s = None"
    using that waker doze holds(1)[OF ok(1) refl, of p] by (auto simp: dozing_def)
  ultimately show ?thesis by blast
qed

text \<open>Process 1 finds the condition false and goes to sleep; process 0 makes it true and starts to wake.\<close>

definition doze1 :: "threads \<Rightarrow> threads" where
  "doze1 s = at 1 Switched (s\<lparr>on_chan := (on_chan s)(1 := True), tstate := (tstate s)(1 := SLEEPING)\<rparr>)"

lemma reach_doze1: "sw_reach (doze1 threads0)"
proof -
  let ?s1 = "at 1 Holds (threads0\<lparr>lk_holder := Some 1\<rparr>)"
  let ?s2 = "at 1 SlBoth (?s1\<lparr>p_holder := (p_holder ?s1)(1 := Some 1)\<rparr>)"
  let ?s3 = "at 1 SlOwn (?s2\<lparr>lk_holder := None\<rparr>)"
  let ?s4 = "at 1 SlSet (?s3\<lparr>on_chan := (on_chan ?s3)(1 := True), tstate := (tstate ?s3)(1 := SLEEPING)\<rparr>)"
  let ?s5 = "at 1 Switched (?s4\<lparr>p_holder := (p_holder ?s4)(1 := None)\<rparr>)"
  have s1: "sw_reach ?s1" by (rule more[OF start lock]) (simp_all add: threads0_def)
  have s2: "sw_reach ?s2" by (rule more[OF s1 sleep_own_lock]) (simp_all add: threads0_def at_def NPROC_def)
  have s3: "sw_reach ?s3" by (rule more[OF s2 sleep_release]) (simp add: at_def)
  have s4: "sw_reach ?s4" by (rule more[OF s3 sleep_set]) (simp add: at_def)
  have s5: "sw_reach ?s5" by (rule more[OF s4 sleep_sched]) (simp add: at_def)
  have "?s5 = doze1 threads0" by (simp add: doze1_def at_def threads0_def fun_eq_iff)
  with s5 show ?thesis by simp
qed

definition waking0 :: threads where
  "waking0 = at 0 (WakeAt 0) ((doze1 threads0)\<lparr>lk_holder := Some 0, cond := True\<rparr>)"

lemma reach_waking0: "sw_reach waking0"
proof -
  let ?s1 = "at 0 Holds ((doze1 threads0)\<lparr>lk_holder := Some 0\<rparr>)"
  have s1: "sw_reach ?s1" by (rule more[OF reach_doze1 lock]) (simp_all add: threads0_def doze1_def at_def)
  have "sw_reach (at 0 (WakeAt 0) (?s1\<lparr>cond := True\<rparr>))" by (rule more[OF s1 produce]) (simp add: at_def)
  then show ?thesis by (simp add: waking0_def at_def)
qed

theorem no_lost_wakeup_witness:
  "sw_reach waking0 \<and> cond waking0 \<and> tstate waking0 1 = SLEEPING \<and>
   (\<exists>w i. lk_holder waking0 = Some w \<and> i \<le> 1 \<and> (place waking0 w = WakeAt i \<or> place waking0 w = WakeIn i))"
proof -
  have c: "cond waking0" "tstate waking0 1 = SLEEPING" by (simp_all add: waking0_def at_def doze1_def)
  from no_lost_wakeup[OF reach_waking0 c(1), of 1] reach_waking0 c show ?thesis by blast
qed

end
