(* ===== verification/Xv6_Shparse.thy ===== *)
theory Xv6_Shparse
  imports Xv6_Sysfile "HOL-Library.Multiset"
begin

text \<open>
  The parser of the shell, \<^verbatim>\<open>user/sh.c\<close>. A pointer into the command line is a position in the buffer
  (\<open>None\<close> the null pointer). The parser reads the text up to the first NUL, which is at position \<^verbatim>\<open>es\<close>; the
  state of a routine is \<^verbatim>\<open>*ps\<close> and the number of calls of \<^verbatim>\<open>malloc\<close> that still succeed. A constructor whose
  \<^verbatim>\<open>malloc\<close> fails stores through a null pointer and the process is killed. The routines that call each
  other take fuel.

  Shown: the parser returns on every line, with fuel linear in its length, and fails only with one of
  its messages; the tree it returns is well formed, its words are exactly the maximal runs of ordinary
  characters of the line, and terminating them with NULs leaves each word a string of its own.
\<close>

section \<open>Commands\<close>

definition MAXARGS :: nat where "MAXARGS = 10"

datatype cmd =
    Execcmd "nat option list" "nat option list"
  | Redircmd cmd nat nat int int
  | Pipecmd cmd cmd
  | Listcmd cmd cmd
  | Backcmd cmd

type_synonym 'a parsed = "('a \<times> nat \<times> nat) res"

text \<open>\<^verbatim>\<open>malloc\<close> of a command, followed by stores to it.\<close>

definition malloc_cmd :: "cmd \<Rightarrow> nat \<Rightarrow> nat \<Rightarrow> cmd parsed" where
  "malloc_cmd c s r = (if r = 0 then Inl (Exits (-1)) else Inr (c, s, r - 1))"

definition execcmd :: "nat \<Rightarrow> nat \<Rightarrow> cmd parsed" where
  "execcmd s r = malloc_cmd (Execcmd (replicate MAXARGS None) (replicate MAXARGS None)) s r"

definition redircmd :: "cmd \<Rightarrow> nat \<Rightarrow> nat \<Rightarrow> int \<Rightarrow> int \<Rightarrow> nat \<Rightarrow> nat \<Rightarrow> cmd parsed" where
  "redircmd subcmd file efile mode fd s r = malloc_cmd (Redircmd subcmd file efile mode fd) s r"

definition pipecmd :: "cmd \<Rightarrow> cmd \<Rightarrow> nat \<Rightarrow> nat \<Rightarrow> cmd parsed" where
  "pipecmd left right s r = malloc_cmd (Pipecmd left right) s r"

definition listcmd :: "cmd \<Rightarrow> cmd \<Rightarrow> nat \<Rightarrow> nat \<Rightarrow> cmd parsed" where
  "listcmd left right s r = malloc_cmd (Listcmd left right) s r"

definition backcmd :: "cmd \<Rightarrow> nat \<Rightarrow> nat \<Rightarrow> cmd parsed" where
  "backcmd subcmd s r = malloc_cmd (Backcmd subcmd) s r"

section \<open>Tokens\<close>

definition whitespace :: "byte list" where
  "whitespace = [32, 9, 13, 10, 11]"   \<comment> \<open>space, \t, \r, \n, \v\<close>

definition symbols :: "byte list" where
  "symbols = [60, 124, 62, 38, 59, 40, 41]"   \<comment> \<open>\<^verbatim>\<open><|>&;()\<close>\<close>

text \<open>\<^verbatim>\<open>*s\<close>, for \<open>s\<close> up to the terminating NUL.\<close>

definition chr_at :: "byte list \<Rightarrow> nat \<Rightarrow> byte" where
  "chr_at l s = (if s < length l then l ! s else 0)"

function skip_ws :: "byte list \<Rightarrow> nat \<Rightarrow> nat" where
  "skip_ws l s = (if s < length l \<and> l ! s \<in> set whitespace then skip_ws l (s + 1) else s)"
  by pat_completeness auto
termination by (relation "measure (\<lambda>(l, s). length l - s)") auto

function skip_word :: "byte list \<Rightarrow> nat \<Rightarrow> nat" where
  "skip_word l s =
     (if s < length l \<and> l ! s \<notin> set whitespace \<and> l ! s \<notin> set symbols then skip_word l (s + 1) else s)"
  by pat_completeness auto
termination by (relation "measure (\<lambda>(l, s). length l - s)") auto

declare skip_ws.simps [simp del] skip_word.simps [simp del]

text \<open>The switch: the token (\<open>97\<close> is \<^verbatim>\<open>'a'\<close>, a word; \<open>43\<close> is \<^verbatim>\<open>'+'\<close>, for \<^verbatim>\<open>>>\<close>) that starts at \<open>q\<close> and its end. The
  token, \<^verbatim>\<open>q\<close>, \<^verbatim>\<open>eq\<close> and the new \<^verbatim>\<open>*ps\<close>.\<close>

definition token_at :: "byte list \<Rightarrow> nat \<Rightarrow> byte \<times> nat" where
  "token_at l q =
     (let c = chr_at l q in
      if c = 0 then (0, q)
      else if c \<in> set [124, 40, 41, 59, 38, 60] then (c, q + 1)
      else if c = 62 then (if chr_at l (q + 1) = 62 then (43, q + 2) else (c, q + 1))
      else (97, skip_word l q))"

definition gettoken :: "byte list \<Rightarrow> nat \<Rightarrow> byte \<times> nat \<times> nat \<times> nat" where
  "gettoken l s = (let q = skip_ws l s; (ret, eq) = token_at l q in (ret, q, eq, skip_ws l eq))"

definition peek :: "byte list \<Rightarrow> byte list \<Rightarrow> nat \<Rightarrow> nat \<times> bool" where
  "peek l toks s = (let s' = skip_ws l s in (s', chr_at l s' \<noteq> 0 \<and> chr_at l s' \<in> set toks))"

abbreviation gettok :: "byte list \<Rightarrow> nat \<Rightarrow> nat" where
  "gettok l s \<equiv> snd (snd (snd (gettoken l s)))"

lemma skip_ws_range: "s \<le> skip_ws l s \<and> (s \<le> length l \<longrightarrow> skip_ws l s \<le> length l)"
proof (induction l s rule: skip_ws.induct)
  case (1 l s)
  then show ?case by (subst (1 2) skip_ws.simps) (auto simp: skip_ws.simps[of l s])
qed

lemma skip_ws_stops: "skip_ws l s < length l \<Longrightarrow> l ! skip_ws l s \<notin> set whitespace"
proof (induction l s rule: skip_ws.induct)
  case (1 l s)
  then show ?case by (cases "s < length l \<and> l ! s \<in> set whitespace") (auto simp: skip_ws.simps[of l s])
qed

lemma skip_word_range: "s \<le> skip_word l s \<and> (s \<le> length l \<longrightarrow> skip_word l s \<le> length l)"
proof (induction l s rule: skip_word.induct)
  case (1 l s)
  then show ?case
    by (cases "s < length l \<and> l ! s \<notin> set whitespace \<and> l ! s \<notin> set symbols") (auto simp: skip_word.simps[of l s])
qed

lemma skip_word_word:
  "s \<le> i \<Longrightarrow> i < skip_word l s \<Longrightarrow> i < length l \<and> l ! i \<notin> set whitespace \<and> l ! i \<notin> set symbols"
proof (induction l s rule: skip_word.induct)
  case (1 l s)
  then show ?case
    by (cases "s < length l \<and> l ! s \<notin> set whitespace \<and> l ! s \<notin> set symbols"; cases "i = s") (auto simp: skip_word.simps[of l s])
qed

lemma skip_word_stops:
  "skip_word l s < length l \<Longrightarrow> l ! skip_word l s \<in> set whitespace \<union> set symbols"
proof (induction l s rule: skip_word.induct)
  case (1 l s)
  then show ?case
    by (cases "s < length l \<and> l ! s \<notin> set whitespace \<and> l ! s \<notin> set symbols") (auto simp: skip_word.simps[of l s])
qed

lemma chr_at_in: "chr_at l s \<noteq> 0 \<Longrightarrow> s < length l"
  by (auto simp: chr_at_def split: if_splits)

lemma peek_range:
  assumes "peek l toks s = (s', b)"
  shows "s \<le> s'" "s \<le> length l \<Longrightarrow> s' \<le> length l" "b \<Longrightarrow> s' < length l \<and> l ! s' \<in> set toks \<and> l ! s' \<noteq> 0 \<and> l ! s' \<notin> set whitespace"
  using assms skip_ws_range[of s l] skip_ws_stops[of l s]
  by (auto simp: peek_def Let_def chr_at_def split: if_splits)

lemma token_at_range:
  assumes "token_at l q = (tok, eq)" "q \<le> length l" "q < length l \<Longrightarrow> l ! q \<notin> set whitespace"
  shows "q \<le> eq \<and> eq \<le> length l \<and> (tok \<noteq> 0 \<longrightarrow> q < eq)"
proof (cases "chr_at l q = 0")
  case True
  with assms show ?thesis by (simp add: token_at_def)
next
  case False
  from chr_at_in[OF False] have q: "q < length l" .
  show ?thesis
  proof (cases "chr_at l q \<in> set symbols")
    case True
    with False q assms(1) chr_at_in[of l "q + 1"] show ?thesis by (auto simp: token_at_def symbols_def Let_def split: if_splits)
  next
    case nosym: False
    with q assms(3) have "q < skip_word l q" using skip_word_range[of "q + 1" l] by (simp add: skip_word.simps[of l q] chr_at_def)
    moreover have "eq = skip_word l q" using False nosym assms(1) by (simp add: token_at_def symbols_def Let_def)
    ultimately show ?thesis using skip_word_range[of q l] q by simp
  qed
qed

lemma gettoken_range:
  assumes g: "gettoken l s = (tok, q, eq, s')" and s: "s \<le> length l"
  shows "s \<le> q \<and> q \<le> eq \<and> eq \<le> s' \<and> s' \<le> length l \<and> (tok \<noteq> 0 \<longrightarrow> q < eq)"
proof -
  have q: "q = skip_ws l s" and s': "s' = skip_ws l eq" and t: "token_at l q = (tok, eq)"
    using g by (auto simp: gettoken_def Let_def split: prod.splits)
  have "q \<le> eq \<and> eq \<le> length l \<and> (tok \<noteq> 0 \<longrightarrow> q < eq)"
    by (rule token_at_range[OF t]) (use skip_ws_range[of s l] skip_ws_stops[of l s] s q in auto)
  with skip_ws_range[of s l] skip_ws_range[of eq l] s q s' show ?thesis by auto
qed

lemma peek_progress:
  assumes p: "peek l toks s = (s1, True)" and g: "gettoken l s1 = (tok, q, eq, s2)"
  shows "s1 < s2" "q = s1" "s2 \<le> length l"
proof -
  from peek_range(3)[OF p] have s1: "s1 < length l" "l ! s1 \<noteq> 0" "l ! s1 \<notin> set whitespace" by simp_all
  then have sk: "skip_ws l s1 = s1" by (simp add: skip_ws.simps[of l s1])
  with g have t: "token_at l s1 = (tok, eq)" and q: "q = s1" by (auto simp: gettoken_def split: prod.splits)
  with s1 have "tok \<noteq> 0" by (auto simp: token_at_def chr_at_def Let_def split: if_splits)
  with gettoken_range[OF g] s1 q show "s1 < s2" "q = s1" "s2 \<le> length l" by simp_all
qed

lemma token_consumed:
  assumes "(s1, True) = peek l toks s" "(t1, q1, e1, s2) = gettoken l s1"
  shows "s < s2" "s < length l" "s2 \<le> length l"
  using peek_progress[OF assms[symmetric]] peek_range(1)[OF assms(1)[symmetric]] by simp_all

lemma tokens_consumed:
  assumes "(s1, True) = peek l toks s" "(t1, q1, e1, s2) = gettoken l s1" "(t2, q2, e2, s3) = gettoken l s2"
  shows "s < s3" "s < length l"
  using token_consumed[OF assms(1,2)] gettoken_range[OF assms(3)[symmetric]] by simp_all

section \<open>The parser\<close>

definition redir_of :: "byte \<Rightarrow> cmd \<Rightarrow> nat \<Rightarrow> nat \<Rightarrow> nat \<Rightarrow> nat \<Rightarrow> cmd parsed" where
  "redir_of tok c q eq s r =
     (if tok = 60 then redircmd c q eq O_RDONLY 0 s r
      else if tok = 62 then redircmd c q eq (uint (O_WRONLY OR O_CREATE OR O_TRUNC)) 1 s r
      else if tok = 43 then redircmd c q eq (uint (O_WRONLY OR O_CREATE)) 1 s r
      else Inr (c, s, r))"

lemma redir_of_pos: "redir_of tok c q eq s r = Inr (c', s', r') \<Longrightarrow> s' = s"
  by (auto simp: redir_of_def redircmd_def malloc_cmd_def split: if_splits)

function parseredirs :: "byte list \<Rightarrow> cmd \<Rightarrow> nat \<Rightarrow> nat \<Rightarrow> cmd parsed" where
  "parseredirs l c s r =
     (case peek l [60, 62] s of (s1, b) \<Rightarrow>
      if \<not> b then Inr (c, s1, r)
      else case gettoken l s1 of (tok, _, _, s2) \<Rightarrow>
        case gettoken l s2 of (tok2, q, eq, s3) \<Rightarrow>
          if tok2 \<noteq> 97 then Inl (Panic ''missing file for redirection'')
          else bindR (redir_of tok c q eq s3 r) (\<lambda>(c, s, r). parseredirs l c s r))"
  by pat_completeness auto
termination
  by (relation "measure (\<lambda>(l, c, s, r). length l - s)")
     (auto dest!: redir_of_pos dest: tokens_consumed intro!: diff_less_mono2)

text \<open>\<^verbatim>\<open>cmd->argv[argc] = q\<close> and \<^verbatim>\<open>cmd->eargv[argc] = eq\<close>, where \<^verbatim>\<open>cmd\<close> is the \<^verbatim>\<open>execcmd\<close> below the redirections in
  \<^verbatim>\<open>ret\<close>. A store beyond the arrays would be an error that C does not see; it does not happen.\<close>

fun put_arg :: "nat \<Rightarrow> nat option \<Rightarrow> nat option \<Rightarrow> cmd \<Rightarrow> cmd res" where
  "put_arg i q eq (Execcmd argv eargv) =
     (if i < length argv \<and> i < length eargv then Inr (Execcmd (argv[i := q]) (eargv[i := eq])) else Inl (Panic ''out of bounds''))"
| "put_arg i q eq (Redircmd c f ef mode fd) = bindR (put_arg i q eq c) (\<lambda>c. Inr (Redircmd c f ef mode fd))"
| "put_arg i q eq _ = Inl (Panic ''out of bounds'')"

function exec_loop :: "byte list \<Rightarrow> nat \<Rightarrow> cmd \<Rightarrow> nat \<Rightarrow> nat \<Rightarrow> (nat \<times> cmd) parsed" where
  "exec_loop l argc ret s r =
     (case peek l [124, 41, 38, 59] s of (s1, b) \<Rightarrow>
      if b then Inr ((argc, ret), s1, r)
      else case gettoken l s1 of (tok, q, eq, s2) \<Rightarrow>
        if tok = 0 then Inr ((argc, ret), s2, r)
        else if tok \<noteq> 97 then Inl (Panic ''syntax'')
        else bindR (put_arg argc (Some q) (Some eq) ret) (\<lambda>ret.
          if argc + 1 \<ge> MAXARGS then Inl (Panic ''too many args'')
          else bindR (parseredirs l ret s2 r) (\<lambda>(ret, s, r). exec_loop l (argc + 1) ret s r)))"
  by pat_completeness auto
termination by (relation "measure (\<lambda>(l, argc, ret, s, r). MAXARGS - argc)") auto

function back_loop :: "byte list \<Rightarrow> cmd \<Rightarrow> nat \<Rightarrow> nat \<Rightarrow> cmd parsed" where
  "back_loop l c s r =
     (case peek l [38] s of (s1, b) \<Rightarrow>
      if \<not> b then Inr (c, s1, r)
      else case gettoken l s1 of (_, _, _, s2) \<Rightarrow> bindR (backcmd c s2 r) (\<lambda>(c, s, r). back_loop l c s r))"
  by pat_completeness auto
termination
  by (relation "measure (\<lambda>(l, c, s, r). length l - s)")
     (auto simp: backcmd_def malloc_cmd_def dest: token_consumed intro!: diff_less_mono2 split: if_splits)

declare parseredirs.simps [simp del] exec_loop.simps [simp del] back_loop.simps [simp del]

text \<open>The bodies of the routines that call each other take what they call as arguments.\<close>

type_synonym parser = "nat \<Rightarrow> nat \<Rightarrow> cmd parsed"

definition line_body :: "parser \<Rightarrow> parser \<Rightarrow> byte list \<Rightarrow> parser" where
  "line_body parsepipe parseline l s r =
     bindR (parsepipe s r) (\<lambda>(c, s, r).
     bindR (back_loop l c s r) (\<lambda>(c, s, r).
     case peek l [59] s of (s1, b) \<Rightarrow>
     if b then case gettoken l s1 of (_, _, _, s2) \<Rightarrow>
       bindR (parseline s2 r) (\<lambda>(c2, s, r). listcmd c c2 s r)
     else Inr (c, s1, r)))"

definition pipe_body :: "parser \<Rightarrow> parser \<Rightarrow> byte list \<Rightarrow> parser" where
  "pipe_body parseexec parsepipe l s r =
     bindR (parseexec s r) (\<lambda>(c, s, r).
     case peek l [124] s of (s1, b) \<Rightarrow>
     if b then case gettoken l s1 of (_, _, _, s2) \<Rightarrow>
       bindR (parsepipe s2 r) (\<lambda>(c2, s, r). pipecmd c c2 s r)
     else Inr (c, s1, r))"

definition exec_body :: "parser \<Rightarrow> byte list \<Rightarrow> parser" where
  "exec_body parseblock l s r =
     (case peek l [40] s of (s1, b) \<Rightarrow>
      if b then parseblock s1 r
      else bindR (execcmd s1 r) (\<lambda>(c, s, r).
        bindR (parseredirs l c s r) (\<lambda>(ret, s, r).
        bindR (exec_loop l 0 ret s r) (\<lambda>((argc, ret), s, r).
        bindR (put_arg argc None None ret) (\<lambda>ret. Inr (ret, s, r))))))"

definition block_body :: "parser \<Rightarrow> byte list \<Rightarrow> parser" where
  "block_body parseline l s r =
     (case peek l [40] s of (s1, b) \<Rightarrow>
      if \<not> b then Inl (Panic ''parseblock'')
      else case gettoken l s1 of (_, _, _, s2) \<Rightarrow>
        bindR (parseline s2 r) (\<lambda>(c, s, r).
        case peek l [41] s of (s1, b) \<Rightarrow>
        if \<not> b then Inl (Panic ''syntax - missing )'')
        else case gettoken l s1 of (_, _, _, s2) \<Rightarrow> parseredirs l c s2 r))"

fun parseline :: "nat \<Rightarrow> byte list \<Rightarrow> parser"
  and parsepipe :: "nat \<Rightarrow> byte list \<Rightarrow> parser"
  and parseexec :: "nat \<Rightarrow> byte list \<Rightarrow> parser"
  and parseblock :: "nat \<Rightarrow> byte list \<Rightarrow> parser" where
  "parseline 0 l = (\<lambda>s r. Inl Diverges)"
| "parseline (Suc n) l = line_body (parsepipe n l) (parseline n l) l"
| "parsepipe 0 l = (\<lambda>s r. Inl Diverges)"
| "parsepipe (Suc n) l = pipe_body (parseexec n l) (parsepipe n l) l"
| "parseexec 0 l = (\<lambda>s r. Inl Diverges)"
| "parseexec (Suc n) l = exec_body (parseblock n l) l"
| "parseblock 0 l = (\<lambda>s r. Inl Diverges)"
| "parseblock (Suc n) l = block_body (parseline n l) l"

text \<open>The equations with all arguments, for evaluation.\<close>

lemma parse_eqs [code]:
  "parseline 0 l s r = Inl Diverges"
  "parseline (Suc n) l s r = line_body (parsepipe n l) (parseline n l) l s r"
  "parsepipe 0 l s r = Inl Diverges"
  "parsepipe (Suc n) l s r = pipe_body (parseexec n l) (parsepipe n l) l s r"
  "parseexec 0 l s r = Inl Diverges"
  "parseexec (Suc n) l s r = exec_body (parseblock n l) l s r"
  "parseblock 0 l s r = Inl Diverges"
  "parseblock (Suc n) l s r = block_body (parseline n l) l s r"
  by simp_all

text \<open>The end of each word becomes a NUL.\<close>

fun nul_args :: "nat option list \<Rightarrow> nat option list \<Rightarrow> byte list \<Rightarrow> byte list" where
  "nul_args (Some q # argv) (Some eq # eargv) buf = nul_args argv eargv (buf[eq := 0])"
| "nul_args _ _ buf = buf"

fun nulterminate :: "cmd \<Rightarrow> byte list \<Rightarrow> byte list" where
  "nulterminate (Execcmd argv eargv) buf = nul_args argv eargv buf"
| "nulterminate (Redircmd c f ef mode fd) buf = (nulterminate c buf)[ef := 0]"
| "nulterminate (Pipecmd left right) buf = nulterminate right (nulterminate left buf)"
| "nulterminate (Listcmd left right) buf = nulterminate right (nulterminate left buf)"
| "nulterminate (Backcmd c) buf = nulterminate c buf"

definition line_of :: "byte list \<Rightarrow> byte list" where
  "line_of buf = takeWhile (\<lambda>c. c \<noteq> 0) buf"

definition parse_fuel :: "byte list \<Rightarrow> nat" where
  "parse_fuel l = 4 * length l + 4"

definition parsecmd :: "byte list \<Rightarrow> nat \<Rightarrow> (cmd \<times> byte list) res" where
  "parsecmd buf r =
     (let l = line_of buf in
      bindR (parseline (parse_fuel l) l 0 r) (\<lambda>(c, s, r).
      if fst (peek l [] s) \<noteq> length l then Inl (Panic ''syntax'') else Inr (c, nulterminate c buf)))"

section \<open>Well-formed commands\<close>

definition ordinary :: "byte \<Rightarrow> bool" where
  "ordinary c \<longleftrightarrow> c \<notin> set whitespace \<and> c \<notin> set symbols"

text \<open>A maximal run of ordinary characters.\<close>

definition word_at :: "byte list \<Rightarrow> nat \<Rightarrow> nat \<Rightarrow> bool" where
  "word_at l q e \<longleftrightarrow> q < e \<and> e \<le> length l \<and> (\<forall>i\<in>{q..<e}. ordinary (l ! i)) \<and>
     (0 < q \<longrightarrow> \<not> ordinary (l ! (q - 1))) \<and> (e < length l \<longrightarrow> \<not> ordinary (l ! e))"

definition redir_mode :: "int \<Rightarrow> int \<Rightarrow> bool" where
  "redir_mode mode fd \<longleftrightarrow> mode = O_RDONLY \<and> fd = 0 \<or> mode = uint (O_WRONLY OR O_CREATE OR O_TRUNC) \<and> fd = 1 \<or>
     mode = uint (O_WRONLY OR O_CREATE) \<and> fd = 1"

text \<open>A simple command with \<open>k\<close> arguments and some redirections.\<close>

definition args_at :: "byte list \<Rightarrow> nat \<Rightarrow> nat option list \<Rightarrow> nat option list \<Rightarrow> bool" where
  "args_at l k argv eargv \<longleftrightarrow> length argv = MAXARGS \<and> length eargv = MAXARGS \<and>
     k \<le> MAXARGS \<and> (\<forall>i<k. \<exists>q e. argv ! i = Some q \<and> eargv ! i = Some e \<and> word_at l q e) \<and>
     (\<forall>i. k \<le> i \<and> i < MAXARGS \<longrightarrow> argv ! i = None \<and> eargv ! i = None)"

fun args_ok :: "byte list \<Rightarrow> nat \<Rightarrow> cmd \<Rightarrow> bool" where
  "args_ok l k (Execcmd argv eargv) \<longleftrightarrow> args_at l k argv eargv"
| "args_ok l k (Redircmd c f ef mode fd) \<longleftrightarrow> args_ok l k c \<and> word_at l f ef \<and> redir_mode mode fd"
| "args_ok l k _ \<longleftrightarrow> False"

fun cmd_ok :: "byte list \<Rightarrow> cmd \<Rightarrow> bool" where
  "cmd_ok l (Execcmd argv eargv) \<longleftrightarrow> (\<exists>k<MAXARGS. args_at l k argv eargv)"
| "cmd_ok l (Redircmd c f ef mode fd) \<longleftrightarrow> cmd_ok l c \<and> word_at l f ef \<and> redir_mode mode fd"
| "cmd_ok l (Pipecmd left right) \<longleftrightarrow> cmd_ok l left \<and> cmd_ok l right"
| "cmd_ok l (Listcmd left right) \<longleftrightarrow> cmd_ok l left \<and> cmd_ok l right"
| "cmd_ok l (Backcmd c) \<longleftrightarrow> cmd_ok l c"

lemma args_cmd_ok: "args_ok l k c \<Longrightarrow> k < MAXARGS \<Longrightarrow> cmd_ok l c"
  by (induction l k c rule: args_ok.induct) auto

text \<open>The words of a command.\<close>

fun arg_words :: "nat option list \<Rightarrow> nat option list \<Rightarrow> (nat \<times> nat) list" where
  "arg_words (Some q # argv) (Some e # eargv) = (q, e) # arg_words argv eargv"
| "arg_words _ _ = []"

fun words :: "cmd \<Rightarrow> (nat \<times> nat) list" where
  "words (Execcmd argv eargv) = arg_words argv eargv"
| "words (Redircmd c f ef mode fd) = words c @ [(f, ef)]"
| "words (Pipecmd left right) = words left @ words right"
| "words (Listcmd left right) = words left @ words right"
| "words (Backcmd c) = words c"

section \<open>Stretches of the line\<close>

text \<open>A position that does not lie inside a word, the words of the line between two positions, and a list with
  just these words, each once.\<close>

definition boundary :: "byte list \<Rightarrow> nat \<Rightarrow> bool" where
  "boundary l s \<longleftrightarrow> s = 0 \<or> length l \<le> s \<or> \<not> ordinary (l ! (s - 1)) \<or> \<not> ordinary (l ! s)"

definition words_between :: "byte list \<Rightarrow> nat \<Rightarrow> nat \<Rightarrow> (nat \<times> nat) set" where
  "words_between l s s' = {(q, e). word_at l q e \<and> s \<le> q \<and> e \<le> s'}"

definition covers :: "byte list \<Rightarrow> nat \<Rightarrow> (nat \<times> nat) list \<Rightarrow> nat \<Rightarrow> bool" where
  "covers l s ws s' \<longleftrightarrow> mset ws = mset_set (words_between l s s')"

lemma words_between_finite [simp]: "finite (words_between l s s')"
proof (rule finite_subset)
  show "words_between l s s' \<subseteq> {..length l} \<times> {..length l}" by (auto simp: words_between_def word_at_def)
qed simp

lemma words_between_split:
  assumes "s \<le> s'" "s' \<le> s''" "boundary l s'"
  shows "words_between l s s'' = words_between l s s' \<union> words_between l s' s''" "words_between l s s' \<inter> words_between l s' s'' = {}"
proof -
  have "e \<le> s' \<or> s' \<le> q" if w: "word_at l q e" for q e
  proof (rule ccontr)
    assume "\<not> (e \<le> s' \<or> s' \<le> q)"
    then have "s' - 1 \<in> {q..<e}" "s' \<in> {q..<e}" "0 < s'" by auto
    with w have "ordinary (l ! (s' - 1))" "ordinary (l ! s')" "0 < s'" "s' < length l" by (auto simp: word_at_def)
    with assms(3) show False by (simp add: boundary_def)
  qed
  with assms show "words_between l s s'' = words_between l s s' \<union> words_between l s' s''"
    unfolding words_between_def by (auto dest: order_trans)
  show "words_between l s s' \<inter> words_between l s' s'' = {}" by (auto simp: words_between_def word_at_def)
qed

lemma covers_append:
  assumes "covers l s ws s'" "covers l s' ws' s''" "s \<le> s'" "s' \<le> s''" "boundary l s'"
  shows "covers l s (ws @ ws') s''"
  using assms(1,2) words_between_split[OF assms(3-5)] by (simp add: covers_def mset_set_Union)

lemma no_words:
  assumes "\<And>i. s \<le> i \<Longrightarrow> i < s' \<Longrightarrow> \<not> ordinary (l ! i)"
  shows "covers l s [] s'"
proof -
  have "ordinary (l ! q) \<and> q < e" if "word_at l q e" for q e using that by (auto simp: word_at_def)
  then have "words_between l s s' = {}" using assms unfolding words_between_def by (auto dest: less_le_trans)
  then show ?thesis by (simp add: covers_def)
qed

lemma covers_refl [simp]: "covers l s [] s"
  by (rule no_words) simp

lemma one_word:
  assumes "word_at l q e"
  shows "covers l q [(q, e)] e"
proof -
  have "e' = e" if "word_at l q e'" "e' \<le> e" for e'
    using assms that by (fastforce simp: word_at_def)
  moreover have "q' = q" if "word_at l q' e'" "q \<le> q'" "e' \<le> e" for q' e'
  proof (rule ccontr)
    assume "q' \<noteq> q"
    with that have "q \<le> q' - 1" "q' - 1 < e" "0 < q'" by (auto simp: word_at_def)
    with assms that(1) show False by (auto simp: word_at_def)
  qed
  ultimately have "words_between l q e = {(q, e)}" using assms by (auto simp: words_between_def)
  then show ?thesis by (simp add: covers_def)
qed

lemma skip_ws_spaces: "s \<le> i \<Longrightarrow> i < skip_ws l s \<Longrightarrow> l ! i \<in> set whitespace"
proof (induction l s rule: skip_ws.induct)
  case (1 l s)
  then show ?case by (cases "s < length l \<and> l ! s \<in> set whitespace"; cases "i = s") (auto simp: skip_ws.simps[of l s])
qed

lemma skip_ws_covers:
  assumes "boundary l s"
  shows "covers l s [] (skip_ws l s)" "boundary l (skip_ws l s)"
proof -
  have spaces: "\<not> ordinary (l ! i)" if "s \<le> i" "i < skip_ws l s" for i
    using skip_ws_spaces[OF that] by (simp add: ordinary_def)
  then show "covers l s [] (skip_ws l s)" by (rule no_words)
  show "boundary l (skip_ws l s)"
  proof (cases "skip_ws l s = s")
    case False
    then have "s < skip_ws l s" using skip_ws_range[of s l] by simp
    then show ?thesis using spaces[of "skip_ws l s - 1"] by (simp add: boundary_def)
  qed (simp add: assms)
qed

lemma peek_covers:
  assumes "peek l toks s = (s', b)" "boundary l s"
  shows "covers l s [] s'" "boundary l s'"
  using assms skip_ws_covers[of l s] by (auto simp: peek_def Let_def)

lemma token_at_word:
  assumes "token_at l q = (97, eq)" "q < length l \<Longrightarrow> l ! q \<notin> set whitespace" "boundary l q"
  shows "word_at l q eq"
proof -
  from assms(1) have c: "chr_at l q \<noteq> 0" "chr_at l q \<notin> set symbols" and eq: "eq = skip_word l q"
    by (auto simp: token_at_def Let_def symbols_def split: if_splits)
  from chr_at_in[OF c(1)] have q: "q < length l" .
  with c assms(2) have o: "l ! q \<notin> set whitespace" "l ! q \<notin> set symbols" by (simp_all add: chr_at_def)
  then have "q < eq" using q eq skip_word_range[of "q + 1" l] by (simp add: skip_word.simps[of l q])
  moreover have "eq \<le> length l" using eq q skip_word_range[of q l] by simp
  moreover have "0 < q \<longrightarrow> \<not> ordinary (l ! (q - 1))" using assms(3) o q by (auto simp: boundary_def ordinary_def)
  ultimately show ?thesis
    using skip_word_word[of q _ l] skip_word_stops[of l q] unfolding word_at_def ordinary_def eq[symmetric] by auto
qed

lemma token_at_symbol:
  assumes "token_at l q = (tok, eq)" "tok \<noteq> 97" "q \<le> i" "i < eq"
  shows "\<not> ordinary (l ! i)"
proof -
  have "i = q \<and> chr_at l q \<in> set symbols \<or> i = q + 1 \<and> chr_at l q \<in> set symbols \<and> chr_at l (q + 1) = 62"
    using assms unfolding token_at_def symbols_def by (simp add: Let_def split: if_splits) linarith+
  then have "l ! i \<in> set symbols"
    by (auto simp: chr_at_def symbols_def split: if_splits)
  then show ?thesis by (simp add: ordinary_def)
qed

lemma gettoken_covers:
  assumes g: "gettoken l s = (tok, q, eq, s')" and s: "s \<le> length l" "boundary l s"
  shows "covers l s (if tok = 97 then [(q, eq)] else []) s'" "boundary l s'" "tok = 97 \<Longrightarrow> word_at l q eq"
proof -
  have q: "q = skip_ws l s" and s': "s' = skip_ws l eq" and t: "token_at l q = (tok, eq)"
    using g by (auto simp: gettoken_def Let_def split: prod.splits)
  note bq = skip_ws_covers[OF s(2), folded q] and r = gettoken_range[OF g s(1)]
  show w: "word_at l q eq" if "tok = 97"
    using token_at_word[of l q eq] t that bq(2) skip_ws_stops[of l s, folded q] by blast
  have be: "boundary l eq"
  proof (cases "tok = 97 \<or> eq = q")
    case True
    then show ?thesis using w bq(2) by (auto simp: boundary_def word_at_def)
  next
    case False
    then have "q \<le> eq - 1" "eq - 1 < eq" using r by auto
    then show ?thesis using token_at_symbol[OF t, of "eq - 1"] False by (simp add: boundary_def)
  qed
  have "covers l q (if tok = 97 then [(q, eq)] else []) eq"
    using one_word[OF w] no_words[of q eq l] token_at_symbol[OF t] by auto
  from covers_append[OF covers_append[OF bq(1) this _ _ bq(2)] skip_ws_covers(1)[OF be, folded s'] _ _ be] r
  show "covers l s (if tok = 97 then [(q, eq)] else []) s'" by simp
  show "boundary l s'" using skip_ws_covers(2)[OF be] s' by simp
qed

text \<open>A symbol that \<^verbatim>\<open>peek\<close> has seen is the next token.\<close>

lemma peeked_token:
  assumes "peek l toks s = (s1, True)" "gettoken l s1 = (tok, q, e, s2)"
  shows "tok \<in> set toks \<union> {43, 97} \<and> (set toks \<subseteq> set symbols \<longrightarrow> tok \<noteq> 97) \<and> (62 \<notin> set toks \<longrightarrow> tok \<noteq> 43 \<or> 43 \<in> set toks)"
proof -
  from peek_range(3)[OF assms(1)] have s1: "s1 < length l" "l ! s1 \<in> set toks" "l ! s1 \<noteq> 0" "l ! s1 \<notin> set whitespace" by simp_all
  then have "skip_ws l s1 = s1" by (simp add: skip_ws.simps[of l s1])
  with assms(2) have "token_at l s1 = (tok, e)" by (auto simp: gettoken_def split: prod.splits)
  with s1 show ?thesis by (auto simp: token_at_def chr_at_def Let_def symbols_def split: if_splits)
qed

section \<open>What the routines return\<close>

text \<open>How the parser may stop.\<close>

definition parse_errors :: "stop set" where
  "parse_errors = {Exits (-1), Panic ''missing file for redirection'', Panic ''syntax'', Panic ''too many args'', Panic ''syntax - missing )''}"

text \<open>\<open>P\<close> relates what a routine returns to the position it has reached.\<close>

fun parses :: "byte list \<Rightarrow> nat \<Rightarrow> ('a \<Rightarrow> nat \<Rightarrow> bool) \<Rightarrow> 'a parsed \<Rightarrow> bool" where
  "parses l s P (Inl e) \<longleftrightarrow> e \<in> parse_errors"
| "parses l s P (Inr (a, s', r)) \<longleftrightarrow> s \<le> s' \<and> s' \<le> length l \<and> boundary l s' \<and> P a s'"

lemma parses_bind:
  assumes "parses l s P x"
    "\<And>a s' r'. P a s' \<Longrightarrow> s \<le> s' \<Longrightarrow> s' \<le> length l \<Longrightarrow> boundary l s' \<Longrightarrow> parses l s' Q (f (a, s', r'))"
  shows "parses l s Q (bindR x f)"
proof (cases x)
  case (Inl e)
  with assms(1) show ?thesis by simp
next
  case (Inr y)
  obtain a s' r' where y: "y = (a, s', r')" by (cases y)
  with Inr assms(1) have a: "s \<le> s'" "s' \<le> length l" "boundary l s'" "P a s'" by simp_all
  from assms(2)[OF a(4,1,2,3), of r'] a Inr y show ?thesis by (cases "f (a, s', r')") auto
qed

lemma parses_from: "parses l s' P x \<Longrightarrow> s \<le> s' \<Longrightarrow> parses l s P x"
  by (induction l s' P x rule: parses.induct) auto

lemma parses_malloc: "s \<le> s' \<Longrightarrow> s' \<le> length l \<Longrightarrow> boundary l s' \<Longrightarrow> P c s' \<Longrightarrow> parses l s P (malloc_cmd c s' r)"
  by (simp add: malloc_cmd_def parse_errors_def)

text \<open>A command with the property \<open>Q\<close> whose words are those of the line from \<open>s0\<close> to \<open>s\<close>.\<close>

definition parsed_to :: "byte list \<Rightarrow> nat \<Rightarrow> (cmd \<Rightarrow> bool) \<Rightarrow> cmd \<Rightarrow> nat \<Rightarrow> bool" where
  "parsed_to l s0 Q c s \<longleftrightarrow> Q c \<and> s0 \<le> s \<and> covers l s0 (words c) s"

lemma parsed_to_grow:
  assumes "parsed_to l s0 Q c s" "boundary l s" "s \<le> s'" "covers l s ws s'" "Q' c'" "mset (words c') = mset (words c) + mset ws"
  shows "parsed_to l s0 Q' c' s'"
  using covers_append[of l s0 "words c" s ws s'] assms by (simp add: parsed_to_def covers_def)

lemma parsed_to_skip: "parsed_to l s0 Q c s \<Longrightarrow> boundary l s \<Longrightarrow> s \<le> s' \<Longrightarrow> covers l s [] s' \<Longrightarrow> parsed_to l s0 Q c s'"
  by (rule parsed_to_grow) (auto simp: parsed_to_def)

lemma parsed_to_both:
  assumes "parsed_to l s0 Q c s" "boundary l s" "s \<le> s1" "covers l s [] s1" "boundary l s1" "parsed_to l s1 Q c2 s2"
    "Q' c'" "words c' = words c @ words c2"
  shows "parsed_to l s0 Q' c' s2"
  by (rule parsed_to_grow[OF parsed_to_skip[OF assms(1-4)] assms(5)]) (use assms(6-) in \<open>auto simp: parsed_to_def\<close>)

lemma arg_words_put:
  "\<forall>i<k. \<exists>q e. argv ! i = Some q \<and> eargv ! i = Some e \<Longrightarrow> \<forall>i. k \<le> i \<and> i < length argv \<longrightarrow> argv ! i = None \<Longrightarrow>
   k < length argv \<Longrightarrow> k < length eargv \<Longrightarrow>
   arg_words (argv[k := Some q]) (eargv[k := Some e]) = arg_words argv eargv @ [(q, e)]"
proof (induction k arbitrary: argv eargv)
  case 0
  then obtain a as e' es where c: "argv = a # as" "eargv = e' # es" by (cases argv; cases eargv) auto
  have "a = None" using "0.prems"(2)[rule_format, of 0] c by simp
  moreover have "as = [] \<or> hd as = None" using "0.prems"(2)[rule_format, of 1] c by (cases as) auto
  ultimately show ?case unfolding c by (cases as) auto
next
  case (Suc k)
  then obtain a as e' es where c: "argv = a # as" "eargv = e' # es" by (cases argv; cases eargv) auto
  have "\<exists>q e. a = Some q \<and> e' = Some e" using Suc.prems(1) unfolding c by (auto dest: spec[of _ 0])
  moreover have "\<forall>i<k. \<exists>q e. as ! i = Some q \<and> es ! i = Some e" "\<forall>i. k \<le> i \<and> i < length as \<longrightarrow> as ! i = None"
    using Suc.prems(1,2)[rule_format, of "Suc _"] unfolding c by auto
  ultimately show ?case using Suc.IH[of as es] Suc.prems(3,4) unfolding c by auto
qed

lemma put_arg_word:
  "args_ok l k c \<Longrightarrow> k < MAXARGS \<Longrightarrow> word_at l q e \<Longrightarrow>
   \<exists>c'. put_arg k (Some q) (Some e) c = Inr c' \<and> args_ok l (k + 1) c' \<and> mset (words c') = mset (words c) + mset [(q, e)]"
proof (induction l k c rule: args_ok.induct)
  case (1 l k argv eargv)
  then have "args_at l (k + 1) (argv[k := Some q]) (eargv[k := Some e])"
    by (auto simp: args_at_def nth_list_update less_Suc_eq)
  moreover have "arg_words (argv[k := Some q]) (eargv[k := Some e]) = arg_words argv eargv @ [(q, e)]"
    using 1 by (intro arg_words_put) (fastforce simp: args_at_def)+
  ultimately show ?case using 1 by (simp add: args_at_def)
qed auto

lemma put_arg_end: "args_ok l k c \<Longrightarrow> k < MAXARGS \<Longrightarrow> put_arg k None None c = Inr c"
proof (induction l k c rule: args_ok.induct)
  case (1 l k argv eargv)
  then have "argv[k := None] = argv" "eargv[k := None] = eargv" by (auto simp: args_at_def intro!: list_update_same_conv[THEN iffD2])
  with 1 show ?case by (simp add: args_at_def)
qed auto

lemma redir_of_parses:
  assumes "tok \<in> {60, 62, 43}" "\<And>m fd. redir_mode m fd \<Longrightarrow> P (Redircmd c q e m fd) s" "s \<le> length l" "boundary l s"
  shows "parses l s P (redir_of tok c q e s r)"
  using assms by (auto simp: redir_of_def redircmd_def redir_mode_def intro!: parses_malloc)

lemma parseredirs_parses:
  assumes closed: "\<And>c q e m fd. Q c \<Longrightarrow> word_at l q e \<Longrightarrow> redir_mode m fd \<Longrightarrow> Q (Redircmd c q e m fd)"
  shows "parsed_to l s0 Q c s \<Longrightarrow> s \<le> length l \<Longrightarrow> boundary l s \<Longrightarrow> parses l s (parsed_to l s0 Q) (parseredirs l c s r)"
proof (induction "length l - s" arbitrary: c s r rule: less_induct)
  case less
  obtain s1 b where p: "peek l [60, 62] s = (s1, b)" by (cases "peek l [60, 62] s")
  obtain tok q1 e1 s2 where g: "gettoken l s1 = (tok, q1, e1, s2)" by (cases "gettoken l s1")
  obtain tok2 q e s3 where g2: "gettoken l s2 = (tok2, q, e, s3)" by (cases "gettoken l s2")
  note s1 = peek_range(1,2)[OF p] peek_covers[OF p less.prems(3)]
  show ?case
  proof (cases "b \<and> tok2 = 97")
    case False
    with s1 less.prems show ?thesis
      by (auto simp: parseredirs.simps[of l c s] p g g2 parse_errors_def intro: parsed_to_skip)
  next
    case True
    note tok = peeked_token[OF p[unfolded conjunct1[OF True, THEN eqTrueI]] g]
    have s1': "s1 \<le> length l" "s1 < s2" "s2 \<le> length l"
      using s1(2) less.prems(2) peek_progress[OF _ g] p True by auto
    note s2 = gettoken_covers[OF g s1'(1) s1(4)]
    note s3 = gettoken_covers[OF g2 s1'(3) s2(2)] gettoken_range[OF g2 s1'(3)]
    have t: "tok \<in> {60, 62, 43}" "tok \<noteq> 97" using tok by (auto simp: symbols_def)
    have "covers l s [(q, e)] s3"
      using covers_append[OF covers_append[OF s1(3) s2(1) _ _ s1(4)] s3(1) _ _ s2(2)] s1(1) s1' s3(4) t(2) True by simp
    then have grown: "parsed_to l s0 Q (Redircmd c q e m fd) s3" if "redir_mode m fd" for m fd
      using less.prems s1(1) s1' s3 True that closed
      by (intro parsed_to_grow[where s' = s3, OF less.prems(1,3)]) (auto simp: parsed_to_def)
    have "parses l s3 (parsed_to l s0 Q) (bindR (redir_of tok c q e s3 r) (\<lambda>(c, s, r). parseredirs l c s r))"
      by (rule parses_bind[OF redir_of_parses[where P = "parsed_to l s0 Q", OF t(1) grown]])
         (use s1(1) s1' s3 less.prems in \<open>auto intro!: less.hyps\<close>)
    then have "parses l s (parsed_to l s0 Q) (bindR (redir_of tok c q e s3 r) (\<lambda>(c, s, r). parseredirs l c s r))"
      by (rule parses_from) (use s1(1) s1' s3(4) in auto)
    with True show ?thesis by (simp add: parseredirs.simps[of l c s] p g g2)
  qed
qed

lemma exec_loop_parses:
  "parsed_to l s0 (args_ok l k) c s \<Longrightarrow> k < MAXARGS \<Longrightarrow> s \<le> length l \<Longrightarrow> boundary l s \<Longrightarrow>
   parses l s (\<lambda>(k, c) s. k < MAXARGS \<and> parsed_to l s0 (args_ok l k) c s) (exec_loop l k c s r)"
proof (induction "MAXARGS - k" arbitrary: k c s r rule: less_induct)
  case less
  obtain s1 b where p: "peek l [124, 41, 38, 59] s = (s1, b)" by (cases "peek l [124, 41, 38, 59] s")
  obtain tok q e s2 where g: "gettoken l s1 = (tok, q, e, s2)" by (cases "gettoken l s1")
  note s1 = peek_range(1,2)[OF p] peek_covers[OF p less.prems(4)]
  note s2 = gettoken_range[OF g s1(2)[OF less.prems(3)]] gettoken_covers[OF g s1(2)[OF less.prems(3)] s1(4)]
  have cov: "covers l s (if tok = 97 then [(q, e)] else []) s2"
    using covers_append[OF s1(3) s2(2) s1(1) _ s1(4)] s2(1) by simp
  have skip: "parsed_to l s0 (args_ok l k) c s1" "tok \<noteq> 97 \<Longrightarrow> parsed_to l s0 (args_ok l k) c s2"
    using parsed_to_skip[OF less.prems(1,4)] s1(1,3) s2(1) cov by auto
  show ?case
  proof (cases "\<not> b \<and> tok = 97")
    case False
    with s1 s2 skip less.prems show ?thesis by (auto simp: exec_loop.simps[of l k c s] p g parse_errors_def)
  next
    case True
    with s2 have w: "word_at l q e" by simp
    from less.prems(1) have "args_ok l k c" by (simp add: parsed_to_def)
    from put_arg_word[OF this less.prems(2) w] obtain c' where
      c': "put_arg k (Some q) (Some e) c = Inr c'" "args_ok l (k + 1) c'" "mset (words c') = mset (words c) + mset [(q, e)]" by blast
    have up: "parsed_to l s0 (args_ok l (k + 1)) c' s2"
      by (rule parsed_to_grow[where Q' = "args_ok l (k + 1)", OF less.prems(1,4) _ cov c'(2)]) (use s1(1) s2(1) True c'(3) in auto)
    show ?thesis
    proof (cases "k + 1 \<ge> MAXARGS")
      case True
      with \<open>\<not> b \<and> tok = 97\<close> c' show ?thesis by (simp add: exec_loop.simps[of l k c s] p g parse_errors_def)
    next
      case k: False
      have "parses l s2 (\<lambda>(k, c) s. k < MAXARGS \<and> parsed_to l s0 (args_ok l k) c s)
          (bindR (parseredirs l c' s2 r) (\<lambda>(ret, s, r). exec_loop l (k + 1) ret s r))"
        by (rule parses_bind[OF parseredirs_parses[where Q = "args_ok l (k + 1)", OF _ up]])
           (use k s2 in \<open>auto intro!: less.hyps\<close>)
      with s1 s2 less.prems True k c' show ?thesis
        by (auto simp: exec_loop.simps[of l k c s] p g intro: parses_from)
    qed
  qed
qed

lemma after_peek:
  assumes "s \<le> length l" "boundary l s" "set toks \<subseteq> set symbols"
    and "\<And>s1. s \<le> s1 \<Longrightarrow> s1 \<le> length l \<Longrightarrow> boundary l s1 \<Longrightarrow> covers l s [] s1 \<Longrightarrow> parses l s1 P (f s1)"
    and "\<And>s2. s < s2 \<Longrightarrow> s2 \<le> length l \<Longrightarrow> boundary l s2 \<Longrightarrow> covers l s [] s2 \<Longrightarrow> parses l s2 P (g s2)"
  shows "parses l s P (case peek l toks s of (s1, b) \<Rightarrow> if b then case gettoken l s1 of (_, _, _, s2) \<Rightarrow> g s2 else f s1)"
proof -
  obtain s1 b where p: "peek l toks s = (s1, b)" by (cases "peek l toks s")
  obtain tok q e s2 where gt: "gettoken l s1 = (tok, q, e, s2)" by (cases "gettoken l s1")
  note s1 = peek_range(1,2)[OF p] peek_covers[OF p assms(2)]
  show ?thesis
  proof (cases b)
    case True
    with p have p': "peek l toks s = (s1, True)" by simp
    note s2 = peek_progress(1,3)[OF p' gt] gettoken_covers(1,2)[OF gt s1(2)[OF assms(1)] s1(4)]
    have "tok \<noteq> 97" using peeked_token[OF p' gt] assms(3) by simp
    then have "covers l s [] s2" using covers_append[OF s1(3) s2(3) s1(1) _ s1(4)] s2(1) by simp
    then have "parses l s2 P (g s2)" using assms(5)[of s2] s1(1) s2 by simp
    then show ?thesis using True p gt s1(1) s2(1) by (auto intro: parses_from)
  next
    case False
    with p s1 assms(1,4) show ?thesis by (auto intro: parses_from)
  qed
qed

lemma back_loop_parses:
  "parsed_to l s0 (cmd_ok l) c s \<Longrightarrow> s \<le> length l \<Longrightarrow> boundary l s \<Longrightarrow> parses l s (parsed_to l s0 (cmd_ok l)) (back_loop l c s r)"
proof (induction "length l - s" arbitrary: c s r rule: less_induct)
  case less
  have "parses l s (parsed_to l s0 (cmd_ok l)) (case peek l [38] s of (s1, b) \<Rightarrow>
      if b then case gettoken l s1 of (_, _, _, s2) \<Rightarrow> bindR (backcmd c s2 r) (\<lambda>(c, s, r). back_loop l c s r)
      else Inr (c, s1, r))"
  proof (rule after_peek[OF less.prems(2,3)])
    fix s2
    assume s2: "s < s2" "s2 \<le> length l" "boundary l s2" "covers l s [] s2"
    have "parsed_to l s0 (cmd_ok l) (Backcmd c) s2"
      by (rule parsed_to_grow[OF less.prems(1,3) _ s2(4)]) (use less.prems(1) s2 in \<open>auto simp: parsed_to_def\<close>)
    then show "parses l s2 (parsed_to l s0 (cmd_ok l)) (bindR (backcmd c s2 r) (\<lambda>(c, s, r). back_loop l c s r))"
      unfolding backcmd_def using s2
      by (intro parses_bind[OF parses_malloc[where P = "parsed_to l s0 (cmd_ok l)"]]) (auto intro!: less.hyps)
  qed (use parsed_to_skip[OF less.prems(1,3)] in \<open>auto simp: symbols_def\<close>)
  then show ?case by (subst back_loop.simps) (auto split: prod.splits)
qed

lemma join_parses:
  assumes c: "parsed_to l s0 (cmd_ok l) c s1" "boundary l s1" "s1 \<le> s2" "covers l s1 [] s2" "boundary l s2"
    and x: "parses l s2 (parsed_to l s2 (cmd_ok l)) x"
    and K: "\<And>c2. cmd_ok l c2 \<Longrightarrow> cmd_ok l (K c2)" "\<And>c2. words (K c2) = words c @ words c2"
  shows "parses l s2 (parsed_to l s0 (cmd_ok l)) (bindR x (\<lambda>(c2, s, r). malloc_cmd (K c2) s r))"
proof (rule parses_bind[OF x])
  fix c2 s3 r
  assume c2: "parsed_to l s2 (cmd_ok l) c2 s3" "s2 \<le> s3" "s3 \<le> length l" "boundary l s3"
  then have "parsed_to l s0 (cmd_ok l) (K c2) s3"
    using parsed_to_both[OF c c2(1), of "cmd_ok l" "K c2"] K by (simp add: parsed_to_def)
  with c2 show "parses l s3 (parsed_to l s0 (cmd_ok l)) ((\<lambda>(c2, s, r). malloc_cmd (K c2) s r) (c2, s3, r))"
    by (auto intro: parses_malloc)
qed

lemma line_body_parses:
  assumes "parses l s (parsed_to l s (cmd_ok l)) (pp s r)"
    and "\<And>s2 r. s < s2 \<Longrightarrow> s2 \<le> length l \<Longrightarrow> boundary l s2 \<Longrightarrow> parses l s2 (parsed_to l s2 (cmd_ok l)) (pl s2 r)"
  shows "parses l s (parsed_to l s (cmd_ok l)) (line_body pp pl l s r)"
  unfolding line_body_def listcmd_def
proof (intro parses_bind[OF assms(1)], clarify, intro parses_bind[OF back_loop_parses], assumption+, clarify,
    intro after_peek, assumption+)
  fix c s' r' c1 s1 r1 s2
  assume c1: "s \<le> s'" "s' \<le> s1" "parsed_to l s (cmd_ok l) c1 s1" "boundary l s1"
    and s2: "s1 < s2" "s2 \<le> length l" "boundary l s2" "covers l s1 [] s2"
  show "parses l s2 (parsed_to l s (cmd_ok l)) (bindR (pl s2 r1) (\<lambda>(c2, s, r). malloc_cmd (Listcmd c1 c2) s r))"
    by (rule join_parses[OF c1(3,4) _ s2(4,3) assms(2)]) (use c1 s2 in \<open>auto simp: parsed_to_def\<close>)
qed (auto simp: symbols_def intro: parsed_to_skip)

lemma pipe_body_parses:
  assumes "parses l s (parsed_to l s (cmd_ok l)) (pe s r)"
    and "\<And>s2 r. s < s2 \<Longrightarrow> s2 \<le> length l \<Longrightarrow> boundary l s2 \<Longrightarrow> parses l s2 (parsed_to l s2 (cmd_ok l)) (pp s2 r)"
  shows "parses l s (parsed_to l s (cmd_ok l)) (pipe_body pe pp l s r)"
  unfolding pipe_body_def pipecmd_def
proof (intro parses_bind[OF assms(1)], clarify, intro after_peek, assumption+)
  fix c s1 r1 s2
  assume c: "s \<le> s1" "parsed_to l s (cmd_ok l) c s1" "boundary l s1"
    and s2: "s1 < s2" "s2 \<le> length l" "boundary l s2" "covers l s1 [] s2"
  show "parses l s2 (parsed_to l s (cmd_ok l)) (bindR (pp s2 r1) (\<lambda>(c2, s, r). malloc_cmd (Pipecmd c c2) s r))"
    by (rule join_parses[OF c(2,3) _ s2(4,3) assms(2)]) (use c s2 in \<open>auto simp: parsed_to_def\<close>)
qed (auto simp: symbols_def intro: parsed_to_skip)

lemma simple_parses:
  assumes "s \<le> length l" "boundary l s"
  shows "parses l s (parsed_to l s (cmd_ok l)) (bindR (execcmd s r) (\<lambda>(c, s, r). bindR (parseredirs l c s r) (\<lambda>(ret, s, r).
    bindR (exec_loop l 0 ret s r) (\<lambda>((argc, ret), s, r). bindR (put_arg argc None None ret) (\<lambda>ret. Inr (ret, s, r))))))"
proof -
  have M: "0 < MAXARGS" by (simp add: MAXARGS_def)
  have "arg_words (replicate MAXARGS None) (replicate MAXARGS None) = []" by (simp add: MAXARGS_def numeral_eq_Suc)
  then have c0: "parsed_to l s (args_ok l 0) (Execcmd (replicate MAXARGS None) (replicate MAXARGS None)) s"
    by (simp add: parsed_to_def args_at_def)
  have fin: "parses l s1 (parsed_to l s (cmd_ok l)) (bindR (put_arg k None None c) (\<lambda>ret. Inr (ret, s1, r)))"
    if "k < MAXARGS \<and> parsed_to l s (args_ok l k) c s1" "s1 \<le> length l" "boundary l s1" for k c s1 r
    using that put_arg_end[of l k c] args_cmd_ok[of l k c] by (simp add: parsed_to_def)
  show ?thesis
    unfolding execcmd_def
    by (intro parses_bind[OF parses_malloc[where P = "parsed_to l s (args_ok l 0)", OF order_refl assms c0]], clarify,
        intro parses_bind[OF parseredirs_parses[where Q = "args_ok l 0"]], simp, assumption+, clarify,
        intro parses_bind[OF exec_loop_parses[OF _ M]], assumption+, clarify, intro fin, simp_all)
qed

lemma exec_body_parses:
  assumes "s \<le> length l" "boundary l s"
    and "\<And>s1. s \<le> s1 \<Longrightarrow> s1 < length l \<Longrightarrow> boundary l s1 \<Longrightarrow> peek l [40] s1 = (s1, True) \<Longrightarrow>
      parses l s1 (parsed_to l s1 (cmd_ok l)) (pb s1 r)"
  shows "parses l s (parsed_to l s (cmd_ok l)) (exec_body pb l s r)"
proof -
  obtain s1 b where p: "peek l [40] s = (s1, b)" by (cases "peek l [40] s")
  note s1 = peek_range[OF p] peek_covers[OF p assms(2)]
  define x where "x = exec_body pb l s r"
  have "parses l s1 (parsed_to l s1 (cmd_ok l)) x"
  proof (cases b)
    case True
    with s1(3) have "peek l [40] s1 = (s1, True)" by (auto simp: peek_def skip_ws.simps[of l s1] chr_at_def)
    with True s1 assms(3)[of s1] show ?thesis by (simp add: x_def exec_body_def p)
  next
    case False
    with s1 assms(1) simple_parses[of s1 l r] show ?thesis by (simp add: x_def exec_body_def p)
  qed
  then have "parses l s1 (parsed_to l s (cmd_ok l)) x"
    using covers_append[OF s1(4) _ s1(1) _ s1(5)] s1(1) by (cases x) (auto simp: parsed_to_def)
  then show ?thesis using s1(1) x_def by (auto intro: parses_from)
qed

lemma block_body_parses:
  assumes "peek l [40] s = (s, True)" "boundary l s"
    and "\<And>s2. s < s2 \<Longrightarrow> s2 \<le> length l \<Longrightarrow> boundary l s2 \<Longrightarrow> parses l s2 (parsed_to l s2 (cmd_ok l)) (pl s2 r)"
  shows "parses l s (parsed_to l s (cmd_ok l)) (block_body pl l s r)"
proof -
  obtain tok q e s2 where g: "gettoken l s = (tok, q, e, s2)" by (cases "gettoken l s")
  have s: "s \<le> length l" using peek_range(3)[OF assms(1)] by simp
  note s2 = peek_progress[OF assms(1) g] gettoken_covers[OF g s assms(2)]
  have tok: "tok \<noteq> 97" using peeked_token[OF assms(1) g] by (simp add: symbols_def)
  define rest where "rest = (\<lambda>(c, s, r). case peek l [41] s of (s1, b) \<Rightarrow> if \<not> b then Inl (Panic ''syntax - missing )'')
    else case gettoken l s1 of (_, _, _, s2) \<Rightarrow> parseredirs l c s2 r)"
  have "parses l s2 (parsed_to l s (cmd_ok l)) (bindR (pl s2 r) rest)"
  proof (rule parses_bind[OF assms(3)[OF s2(1,3,5)]])
    fix c s' r'
    assume c: "parsed_to l s2 (cmd_ok l) c s'" "s2 \<le> s'" "s' \<le> length l" "boundary l s'"
    then have up: "parsed_to l s (cmd_ok l) c s'"
      using covers_append[OF s2(4) _ _ c(2) s2(5)] s2(1) tok by (auto simp: parsed_to_def)
    have "parses l s' (parsed_to l s (cmd_ok l)) (case peek l [41] s' of (s1, b) \<Rightarrow>
       if b then case gettoken l s1 of (_, _, _, s2) \<Rightarrow> parseredirs l c s2 r' else Inl (Panic ''syntax - missing )''))"
      by (intro after_peek parseredirs_parses parsed_to_skip[OF up c(4)]) (use c in \<open>simp_all add: parse_errors_def symbols_def\<close>)
    then show "parses l s' (parsed_to l s (cmd_ok l)) (rest (c, s', r'))"
      by (simp add: rest_def if_not_P[symmetric] split: prod.splits if_splits)
  qed
  with s2(1) have "parses l s (parsed_to l s (cmd_ok l)) (bindR (pl s2 r) rest)" by (auto intro: parses_from)
  then show ?thesis by (simp add: block_body_def assms(1) g rest_def)
qed

lemma parse_total:
  "s \<le> length l \<Longrightarrow> boundary l s \<Longrightarrow> 4 * (length l - s) + 4 \<le> n \<Longrightarrow> parses l s (parsed_to l s (cmd_ok l)) (parseline n l s r)"
  "s \<le> length l \<Longrightarrow> boundary l s \<Longrightarrow> 4 * (length l - s) + 3 \<le> n \<Longrightarrow> parses l s (parsed_to l s (cmd_ok l)) (parsepipe n l s r)"
  "s \<le> length l \<Longrightarrow> boundary l s \<Longrightarrow> 4 * (length l - s) + 2 \<le> n \<Longrightarrow> parses l s (parsed_to l s (cmd_ok l)) (parseexec n l s r)"
  "peek l [40] s = (s, True) \<Longrightarrow> boundary l s \<Longrightarrow> 4 * (length l - s) + 1 \<le> n \<Longrightarrow> parses l s (parsed_to l s (cmd_ok l)) (parseblock n l s r)"
proof (induction n arbitrary: s r)
  case (Suc n)
  { case 1
    then show ?case by (auto intro!: line_body_parses Suc.IH) }
  { case 2
    then show ?case by (auto intro!: pipe_body_parses Suc.IH) }
  { case 3
    then show ?case by (auto intro!: exec_body_parses Suc.IH) }
  { case 4
    then have "s < length l" using peek_range(3) by blast
    with 4 show ?case by (auto intro!: block_body_parses Suc.IH) }
qed simp_all

text \<open>More fuel does not change a result.\<close>

definition refined :: "'a res \<Rightarrow> 'a res \<Rightarrow> bool" where
  "refined x y \<longleftrightarrow> x = Inl Diverges \<or> x = y"

lemma refined_refl [simp]: "refined x x"
  by (simp add: refined_def)

lemma refined_bind: "refined x y \<Longrightarrow> (\<And>a. refined (f a) (g a)) \<Longrightarrow> refined (bindR x f) (bindR y g)"
  unfolding refined_def by (cases x) (metis bindR_Inl bindR_Inr)+

lemma body_mono:
  assumes "\<And>s r. refined (p s r) (p' s r)" "\<And>s r. refined (q s r) (q' s r)"
  shows "refined (line_body p q l s r) (line_body p' q' l s r)" "refined (pipe_body p q l s r) (pipe_body p' q' l s r)"
    "refined (exec_body p l s r) (exec_body p' l s r)" "refined (block_body p l s r) (block_body p' l s r)"
  using assms by (auto simp: line_body_def pipe_body_def exec_body_def block_body_def split: prod.split intro!: refined_bind)

lemma more_fuel_step:
  "refined (parseline n l s r) (parseline (Suc n) l s r)" "refined (parsepipe n l s r) (parsepipe (Suc n) l s r)"
  "refined (parseexec n l s r) (parseexec (Suc n) l s r)" "refined (parseblock n l s r) (parseblock (Suc n) l s r)"
proof (induction n arbitrary: s r)
  case 0
  { case 1 show ?case by (simp add: refined_def) }
  { case 2 show ?case by (simp add: refined_def) }
  { case 3 show ?case by (simp add: refined_def) }
  { case 4 show ?case by (simp add: refined_def) }
next
  case (Suc n)
  { case 1
    have "refined (line_body (parsepipe n l) (parseline n l) l s r) (line_body (parsepipe (Suc n) l) (parseline (Suc n) l) l s r)"
      by (intro body_mono Suc.IH)
    then show ?case by simp }
  { case 2
    have "refined (pipe_body (parseexec n l) (parsepipe n l) l s r) (pipe_body (parseexec (Suc n) l) (parsepipe (Suc n) l) l s r)"
      by (intro body_mono Suc.IH)
    then show ?case by simp }
  { case 3
    have "refined (exec_body (parseblock n l) l s r) (exec_body (parseblock (Suc n) l) l s r)"
      by (rule body_mono[OF Suc.IH(4) refined_refl])
    then show ?case by simp }
  { case 4
    have "refined (block_body (parseline n l) l s r) (block_body (parseline (Suc n) l) l s r)"
      by (rule body_mono[OF Suc.IH(1) refined_refl])
    then show ?case by simp }
qed

lemma more_fuel: "n \<le> m \<Longrightarrow> refined (parseline n l s r) (parseline m l s r)"
proof (induction m)
  case (Suc m)
  then show ?case using more_fuel_step(1)[of m l s r] by (cases "n = Suc m") (auto simp: refined_def)
qed simp

section \<open>Terminating the words\<close>

definition nul_at :: "nat \<times> nat \<Rightarrow> byte list \<Rightarrow> byte list" where
  "nul_at w buf = buf[snd w := 0]"

lemma nulterminate_fold: "nulterminate c buf = fold nul_at (words c) buf"
proof (induction c arbitrary: buf)
  case (Execcmd argv eargv)
  have "nul_args argv eargv buf = fold nul_at (arg_words argv eargv) buf"
    by (induction argv eargv buf rule: nul_args.induct) (auto simp: nul_at_def)
  then show ?case by simp
qed (simp_all add: nul_at_def)

lemma fold_nul_at:
  "length (fold nul_at ws buf) = length buf"
  "i < length buf \<Longrightarrow> fold nul_at ws buf ! i = (if i \<in> snd ` set ws then 0 else buf ! i)"
  by (induction ws arbitrary: buf) (auto simp: nul_at_def nth_list_update)

definition str_at :: "byte list \<Rightarrow> nat \<Rightarrow> byte list" where
  "str_at buf q = takeWhile (\<lambda>c. c \<noteq> 0) (drop q buf)"

lemma line_of_nth: "i < length (line_of buf) \<Longrightarrow> line_of buf ! i = buf ! i \<and> buf ! i \<noteq> 0 \<and> i < length buf"
  unfolding line_of_def using nth_mem[of i "takeWhile (\<lambda>c. c \<noteq> 0) buf"]
  by (auto simp: takeWhile_nth dest: set_takeWhileD less_le_trans[OF _ length_takeWhile_le])

lemma line_of_shorter: "0 \<in> set buf \<Longrightarrow> length (line_of buf) < length buf"
  unfolding line_of_def by (induction buf) auto

lemma words_terminated:
  assumes nul: "0 \<in> set buf" and ws: "\<And>q e. (q, e) \<in> set ws \<Longrightarrow> word_at (line_of buf) q e" and w: "(q, e) \<in> set ws"
  shows "str_at (fold nul_at ws buf) q = take (e - q) (drop q buf)"
proof -
  let ?b = "fold nul_at ws buf"
  note len = line_of_shorter[OF nul]
  from ws[OF w] have q: "q < e" "e \<le> length (line_of buf)" and o: "\<And>i. q \<le> i \<Longrightarrow> i < e \<Longrightarrow> ordinary (line_of buf ! i)"
    by (auto simp: word_at_def)
  have inside: "?b ! i = buf ! i \<and> buf ! i \<noteq> 0" if i: "q \<le> i" "i < e" for i
  proof -
    have "i \<notin> snd ` set ws" using ws o[OF i] i q by (force simp: word_at_def)
    with line_of_nth[of i buf] i q show ?thesis by (simp add: fold_nul_at)
  qed
  have "?b ! e = 0" using w len q by (force simp: fold_nul_at)
  with inside len q have "takeWhile (\<lambda>c. c \<noteq> 0) (drop q ?b) = take (e - q) (drop q ?b)"
    by (intro takeWhile_eq_take_P_nth) (auto simp: fold_nul_at(1))
  also have "\<dots> = take (e - q) (drop q buf)"
    using inside len q by (intro nth_equalityI) (auto simp: fold_nul_at(1))
  finally show ?thesis by (simp add: str_at_def)
qed

lemma covers_all: "covers l 0 ws (length l) \<Longrightarrow> distinct ws \<and> set ws = {(q, e). word_at l q e}"
proof -
  have W: "words_between l 0 (length l) = {(q, e). word_at l q e}" by (auto simp: words_between_def word_at_def)
  assume "covers l 0 ws (length l)"
  then have m: "mset ws = mset_set {(q, e). word_at l q e}" by (simp add: covers_def W)
  have "finite {(q, e). word_at l q e}" using words_between_finite[of l 0 "length l"] by (simp add: W)
  then have s: "set ws = {(q, e). word_at l q e}" using arg_cong[OF m, of set_mset] by simp
  have "card (set ws) = length ws" using arg_cong[OF m, of size] unfolding s by simp
  then show ?thesis using s by (simp add: card_distinct)
qed

lemma boundary_start [simp]: "boundary l 0"
  by (simp add: boundary_def)

lemma parsecmd_parts:
  assumes "parsecmd buf r = Inr (c, buf')"
  shows "cmd_ok (line_of buf) c \<and> covers (line_of buf) 0 (words c) (length (line_of buf)) \<and> buf' = nulterminate c buf"
proof -
  let ?l = "line_of buf"
  have "parses ?l 0 (parsed_to ?l 0 (cmd_ok ?l)) (parseline (parse_fuel ?l) ?l 0 r)"
    by (rule parse_total) (simp_all add: parse_fuel_def)
  with assms obtain s where s: "parsed_to ?l 0 (cmd_ok ?l) c s" "boundary ?l s" "s \<le> length ?l"
    and e: "fst (peek ?l [] s) = length ?l" "buf' = nulterminate c buf"
    by (auto simp: parsecmd_def Let_def res_simps split: if_splits)
  from peek_covers(1)[of ?l "[]" s _, OF prod.collapse[symmetric] s(2)] e have "covers ?l s [] (length ?l)" by simp
  from parsed_to_skip[OF s this] e show ?thesis by (simp add: parsed_to_def)
qed

section \<open>The properties\<close>

text \<open>C38. The parser of the shell returns on every command line, however deeply it nests: with fuel \<open>4 n + 4\<close> for a
  line of \<open>n\<close> characters, and every larger fuel gives the same result. It stops only with one of its
  messages or because \<^verbatim>\<open>malloc\<close> failed; it never stores beyond \<^verbatim>\<open>argv\<close> or \<^verbatim>\<open>eargv\<close>, nor misses a
  parenthesis it has seen.\<close>

theorem parsecmd_returns:
  "(\<forall>m\<ge>parse_fuel l. parseline m l 0 r = parseline (parse_fuel l) l 0 r) \<and>
   (case parsecmd buf r of Inr _ \<Rightarrow> True
    | Inl e \<Rightarrow> e \<in> {Exits (-1), Panic ''missing file for redirection'', Panic ''syntax'', Panic ''too many args'', Panic ''syntax - missing )''})"
proof -
  have total: "parses l 0 (parsed_to l 0 (cmd_ok l)) (parseline (parse_fuel l) l 0 r)" for l
    by (rule parse_total) (simp_all add: parse_fuel_def)
  from total[of l] have "parseline (parse_fuel l) l 0 r \<noteq> Inl Diverges" by (auto simp: parse_errors_def)
  then have "\<forall>m\<ge>parse_fuel l. parseline m l 0 r = parseline (parse_fuel l) l 0 r" using more_fuel[of _ _ l 0 r] unfolding refined_def by metis
  moreover have "case parsecmd buf r of Inr _ \<Rightarrow> True | Inl e \<Rightarrow> e \<in> parse_errors"
    using total[of "line_of buf"] by (cases "parseline (parse_fuel (line_of buf)) (line_of buf) 0 r") (auto simp: parsecmd_def Let_def parse_errors_def)
  ultimately show ?thesis unfolding parse_errors_def by (rule conjI)
qed

text \<open>C11. What the parser returns is a well-formed command: each simple command has fewer than \<^verbatim>\<open>MAXARGS\<close> arguments
  followed by null pointers, and each redirection has one of the three combinations of mode and
  descriptor. Its arguments and file names are exactly the words of the line, each once: a word is a
  run of characters that are neither white space nor symbols and that no such character precedes or
  follows, so that no word is lost, cut or doubled. After \<^verbatim>\<open>nulterminate\<close> each of them is a
  NUL-terminated string with just the characters of its word, although all of them lie in one buffer.\<close>

theorem parsecmd_well_formed:
  assumes "0 \<in> set buf" "parsecmd buf r = Inr (c, buf')"
  shows "cmd_ok (line_of buf) c \<and> distinct (words c) \<and> set (words c) = {(q, e). word_at (line_of buf) q e} \<and>
    length buf' = length buf \<and> (\<forall>(q, e)\<in>set (words c). str_at buf' q = take (e - q) (drop q buf))"
proof -
  from parsecmd_parts[OF assms(2)] have c: "cmd_ok (line_of buf) c" and b: "buf' = fold nul_at (words c) buf"
    and w: "distinct (words c) \<and> set (words c) = {(q, e). word_at (line_of buf) q e}"
    using covers_all[of "line_of buf" "words c"] by (simp_all add: nulterminate_fold)
  have "str_at buf' q = take (e - q) (drop q buf)" if "(q, e) \<in> set (words c)" for q e
    unfolding b by (rule words_terminated[OF assms(1) _ that]) (use w in auto)
  with b c w show ?thesis by (auto simp: fold_nul_at(1))
qed

text \<open>The line \<^verbatim>\<open>ab c>f|(d;e)&\<close>, its tree and the buffer afterwards.\<close>

definition some_line :: "byte list" where
  "some_line = [97, 98, 32, 99, 62, 102, 124, 40, 100, 59, 101, 41, 38, 10, 0]"

definition simple :: "(nat \<times> nat) list \<Rightarrow> cmd" where
  "simple ws = (let pad = replicate (MAXARGS - length ws) None in
     Execcmd (map (\<lambda>w. Some (fst w)) ws @ pad) (map (\<lambda>w. Some (snd w)) ws @ pad))"

definition some_cmd :: cmd where
  "some_cmd = Backcmd (Pipecmd (Redircmd (simple [(0, 2), (3, 4)]) 5 6 0x601 1) (Listcmd (simple [(8, 9)]) (simple [(10, 11)])))"

definition some_buf :: "byte list" where
  "some_buf = [97, 98, 0, 99, 0, 102, 0, 40, 100, 0, 101, 0, 38, 10, 0]"

lemma some_parse: "parsecmd some_line 20 = Inr (some_cmd, some_buf)"
  by code_simp

theorem parsecmd_well_formed_witness:
  "parsecmd some_line 20 = Inr (some_cmd, some_buf) \<and> cmd_ok (line_of some_line) some_cmd \<and>
   str_at some_buf 0 = take 2 some_line \<and> str_at some_buf 5 = take 1 (drop 5 some_line) \<and> str_at some_buf 8 = take 1 (drop 8 some_line)"
proof -
  have n: "0 \<in> set some_line" by (simp add: some_line_def)
  have "words some_cmd = [(0, 2), (3, 4), (5, 6), (8, 9), (10, 11)]" by code_simp
  with parsecmd_well_formed[OF n some_parse] some_parse show ?thesis by simp
qed

theorem parsecmd_returns_witness:
  "parseline 1000 some_line 0 20 = parseline (parse_fuel some_line) some_line 0 20"
  by (rule mp[OF spec[OF conjunct1[OF parsecmd_returns]]]) (simp add: parse_fuel_def some_line_def)

end
