(* ===== verification/Xv6_Grep.thy ===== *)
theory Xv6_Grep
  imports Xv6_Prelude
begin

text \<open>
  The pattern matcher and the reading loop of \<^verbatim>\<open>user/grep.c\<close>. A NUL-terminated string is the list of its bytes.

  Shown: \<^verbatim>\<open>match\<close> decides the language of the pattern, given as a sequence of pieces; and however the
  input is cut into reads, \<^verbatim>\<open>grep\<close> writes exactly the lines that match, in order, up to the first line
  that fills the buffer or holds a NUL byte.
\<close>

section \<open>Matching\<close>

text \<open>\<open>94\<close> is \<^verbatim>\<open>^\<close>, \<open>42\<close> is \<^verbatim>\<open>*\<close>, \<open>36\<close> is \<^verbatim>\<open>$\<close>, \<open>46\<close> is the full stop, \<open>10\<close> is the newline.\<close>

function matchhere :: "byte list \<Rightarrow> byte list \<Rightarrow> bool"
  and matchstar :: "byte \<Rightarrow> byte list \<Rightarrow> byte list \<Rightarrow> bool" where
  "matchhere re tx =
     (case re of [] \<Rightarrow> True
      | c # re1 \<Rightarrow>
         if re1 \<noteq> [] \<and> hd re1 = 42 then matchstar c (tl re1) tx
         else if c = 36 \<and> re1 = [] then tx = []
         else if tx \<noteq> [] \<and> (c = 46 \<or> c = hd tx) then matchhere re1 (tl tx)
         else False)"
| "matchstar c re tx =
     (if matchhere re tx then True
      else if tx \<noteq> [] \<and> (hd tx = c \<or> c = 46) then matchstar c re (tl tx)
      else False)"
  by pat_completeness auto
termination
  by (relation "measure (case_sum (\<lambda>(re, tx). 2 * (length re + length tx)) (\<lambda>(c, re, tx). 2 * (length re + length tx) + 1))") auto

declare matchhere.simps [simp del] matchstar.simps [simp del]

fun match_from :: "byte list \<Rightarrow> byte list \<Rightarrow> bool" where
  "match_from re tx = (if matchhere re tx then True else case tx of [] \<Rightarrow> False | _ # tx \<Rightarrow> match_from re tx)"

declare match_from.simps [simp del]

definition match :: "byte list \<Rightarrow> byte list \<Rightarrow> bool" where
  "match re tx = (if re \<noteq> [] \<and> hd re = 94 then matchhere (tl re) tx else match_from re tx)"

section \<open>The loop\<close>

text \<open>The lines of the buffer from \<^verbatim>\<open>p\<close> on: what is written, and what is left when \<^verbatim>\<open>strchr\<close> finds no
  newline before the next NUL.\<close>

function grep_lines :: "byte list \<Rightarrow> byte list \<Rightarrow> byte list \<times> byte list" where
  "grep_lines re p =
     (let line = takeWhile (\<lambda>c. c \<noteq> 10 \<and> c \<noteq> 0) p; q = drop (length line) p in
      if q \<noteq> [] \<and> hd q = 10
      then case grep_lines re (tl q) of (out, rest) \<Rightarrow> ((if match re line then line @ [10] else []) @ out, rest)
      else ([], p))"
  by pat_completeness auto
termination by (relation "measure (\<lambda>(re, p). length p)") (auto simp: tl_drop[symmetric] neq_Nil_conv)

declare grep_lines.simps [simp del]

definition grep_bufsize :: nat where "grep_bufsize = 1024"

text \<open>\<open>inp\<close> is what is still to come from the descriptor; the \<open>i\<close>-th \<^verbatim>\<open>read\<close> delivers \<open>rd i\<close> bytes of it, unless there
  are fewer or less room.\<close>

function grep_loop :: "byte list \<Rightarrow> (nat \<Rightarrow> nat) \<Rightarrow> nat \<Rightarrow> byte list \<Rightarrow> byte list \<Rightarrow> byte list" where
  "grep_loop re rd i carry inp =
     (let n = min (grep_bufsize - length carry - 1) (min (rd i) (length inp)) in
      if n = 0 then []
      else case grep_lines re (carry @ take n inp) of (out, rest) \<Rightarrow> out @ grep_loop re rd (i + 1) rest (drop n inp))"
  by pat_completeness auto
termination by (relation "measure (\<lambda>(re, rd, i, carry, inp). length inp)") auto

declare grep_loop.simps [simp del]

definition grep :: "byte list \<Rightarrow> (nat \<Rightarrow> nat) \<Rightarrow> byte list \<Rightarrow> byte list" where
  "grep re rd inp = grep_loop re rd 0 [] inp"

section \<open>The language of a pattern\<close>

datatype piece = One "byte \<Rightarrow> bool" | Many "byte \<Rightarrow> bool"

definition fits :: "byte \<Rightarrow> byte \<Rightarrow> bool" where
  "fits c t \<longleftrightarrow> c = 46 \<or> c = t"

text \<open>The pieces of a pattern, without a final \<^verbatim>\<open>$\<close>, and whether there is one.\<close>

fun pieces :: "byte list \<Rightarrow> piece list" where
  "pieces [] = []"
| "pieces [c] = (if c = 36 then [] else [One (fits c)])"
| "pieces (c # d # re) = (if d = 42 then Many (fits c) # pieces re else One (fits c) # pieces (d # re))"

fun ends :: "byte list \<Rightarrow> bool" where
  "ends [] \<longleftrightarrow> False"
| "ends [c] \<longleftrightarrow> c = 36"
| "ends (c # d # re) \<longleftrightarrow> (if d = 42 then ends re else ends (d # re))"

fun lang :: "piece list \<Rightarrow> byte list set" where
  "lang [] = {[]}"
| "lang (One P # ps) = {c # w |c w. P c \<and> w \<in> lang ps}"
| "lang (Many P # ps) = {u @ w |u w. (\<forall>c\<in>set u. P c) \<and> w \<in> lang ps}"

definition begins :: "byte list \<Rightarrow> byte list \<Rightarrow> bool" where
  "begins re tx \<longleftrightarrow> (\<exists>u v. tx = u @ v \<and> u \<in> lang (pieces re) \<and> (ends re \<longrightarrow> v = []))"

definition matches :: "byte list \<Rightarrow> byte list \<Rightarrow> bool" where
  "matches re tx \<longleftrightarrow>
     (if re \<noteq> [] \<and> hd re = 94 then begins (tl re) tx else \<exists>x y. tx = x @ y \<and> begins re y)"

lemma begins_Nil [simp]: "begins [] tx"
  by (simp add: begins_def)

lemma begins_end [simp]: "begins [36] tx \<longleftrightarrow> tx = []"
  by (auto simp: begins_def)

lemma begins_star:
  "begins (c # 42 # re) tx \<longleftrightarrow> (\<exists>u w. tx = u @ w \<and> (\<forall>x\<in>set u. fits c x) \<and> begins re w)"
proof
  assume "begins (c # 42 # re) tx"
  then obtain x v where x: "tx = x @ v" "x \<in> lang (Many (fits c) # pieces re)" "ends re \<longrightarrow> v = []"
    by (auto simp: begins_def)
  then obtain u w where "x = u @ w" "\<forall>x\<in>set u. fits c x" "w \<in> lang (pieces re)" by auto
  with x show "\<exists>u w. tx = u @ w \<and> (\<forall>x\<in>set u. fits c x) \<and> begins re w"
    by (intro exI[of _ u] exI[of _ "w @ v"]) (auto simp: begins_def)
next
  assume "\<exists>u w. tx = u @ w \<and> (\<forall>x\<in>set u. fits c x) \<and> begins re w"
  then obtain u w v where "tx = u @ w @ v" "\<forall>x\<in>set u. fits c x" "w \<in> lang (pieces re)" "ends re \<longrightarrow> v = []"
    unfolding begins_def by blast
  then show "begins (c # 42 # re) tx"
    unfolding begins_def by (intro exI[of _ "u @ w"] exI[of _ v]) auto
qed

lemma begins_one:
  assumes "\<not> (re \<noteq> [] \<and> hd re = 42)" "\<not> (c = 36 \<and> re = [])"
  shows "begins (c # re) tx \<longleftrightarrow> tx \<noteq> [] \<and> fits c (hd tx) \<and> begins re (tl tx)"
proof -
  have "pieces (c # re) = One (fits c) # pieces re" "ends (c # re) \<longleftrightarrow> ends re"
    using assms by (cases re; simp)+
  then show ?thesis unfolding begins_def by (cases tx) (auto simp: Cons_eq_append_conv)
qed

lemma starred:
  "(\<exists>u w. tx = u @ w \<and> (\<forall>x\<in>set u. fits c x) \<and> begins re w) \<longleftrightarrow>
   begins re tx \<or> tx \<noteq> [] \<and> fits c (hd tx) \<and> (\<exists>u w. tl tx = u @ w \<and> (\<forall>x\<in>set u. fits c x) \<and> begins re w)"
  (is "?L tx \<longleftrightarrow> ?R tx")
proof
  assume "?L tx"
  then obtain u w where u: "tx = u @ w" "\<forall>x\<in>set u. fits c x" "begins re w" by blast
  then show "?R tx" by (cases u) auto
next
  assume "?R tx"
  then consider "begins re tx" | u w where "tx \<noteq> []" "fits c (hd tx)" "tl tx = u @ w" "\<forall>x\<in>set u. fits c x" "begins re w"
    by blast
  then show "?L tx"
  proof cases
    case 1
    then show ?thesis by (intro exI[of _ "[]"] exI[of _ tx]) simp
  next
    case 2
    then show ?thesis by (intro exI[of _ "hd tx # u"] exI[of _ w]) (cases tx, auto)
  qed
qed

lemma matchhere_begins:
  "matchhere re tx \<longleftrightarrow> begins re tx"
  "matchstar c re tx \<longleftrightarrow> (\<exists>u w. tx = u @ w \<and> (\<forall>x\<in>set u. fits c x) \<and> begins re w)"
proof (induction re tx and c re tx rule: matchhere_matchstar.induct)
  case (1 re tx)
  show ?case
  proof (cases re)
    case Nil
    then show ?thesis by (simp add: matchhere.simps[of "[]"])
  next
    case (Cons c re1)
    note IH = 1[OF Cons]
    consider re2 where "re1 = 42 # re2" | "\<not> (re1 \<noteq> [] \<and> hd re1 = 42)" "c = 36" "re1 = []"
      | "\<not> (re1 \<noteq> [] \<and> hd re1 = 42)" "\<not> (c = 36 \<and> re1 = [])" by (cases re1) auto
    then show ?thesis
    proof cases
      case 1
      with Cons IH(1) show ?thesis by (simp add: matchhere.simps[of "d # r" for d r] begins_star)
    next
      case 2
      with Cons show ?thesis by (simp add: matchhere.simps[of "d # r" for d r])
    next
      case 3
      with Cons IH(2)[OF 3] begins_one[OF 3, of tx] show ?thesis by (auto simp: matchhere.simps[of "d # r" for d r] fits_def)
    qed
  qed
next
  case (2 c re tx)
  then show ?case by (subst starred) (auto simp: matchstar.simps[of c] fits_def)
qed

lemma match_from_begins: "match_from re tx \<longleftrightarrow> (\<exists>x y. tx = x @ y \<and> begins re y)"
proof (induction tx)
  case Nil
  then show ?case by (simp add: match_from.simps[of re] matchhere_begins)
next
  case (Cons t tx)
  then show ?case by (auto simp: match_from.simps[of re "t # tx"] matchhere_begins Cons_eq_append_conv)
qed

lemma match_matches: "match re tx \<longleftrightarrow> matches re tx"
  by (auto simp: match_def matches_def matchhere_begins match_from_begins)

section \<open>Lines\<close>

text \<open>The lines that end with a newline, and what follows the last of them.\<close>

fun split_lines :: "byte list \<Rightarrow> byte list list \<times> byte list" where
  "split_lines [] = ([], [])"
| "split_lines (c # cs) =
     (case split_lines cs of (ls, f) \<Rightarrow>
      if c = 10 then ([] # ls, f) else case ls of [] \<Rightarrow> ([], c # f) | l # ls \<Rightarrow> ((c # l) # ls, f))"

definition full_lines :: "byte list \<Rightarrow> byte list list" where
  "full_lines p = fst (split_lines p)"

definition frag :: "byte list \<Rightarrow> byte list" where
  "frag p = snd (split_lines p)"

definition with_newline :: "byte list \<Rightarrow> byte list" where
  "with_newline l = l @ [10]"

lemma split_append: "split_lines (a @ b) = (full_lines a @ full_lines (frag a @ b), frag (frag a @ b))"
proof (induction a)
  case Nil
  then show ?case by (simp add: full_lines_def frag_def)
next
  case (Cons c a)
  then show ?case by (auto simp: full_lines_def frag_def split: prod.splits list.splits)
qed

lemma split_prefix:
  "10 \<notin> set a \<Longrightarrow> split_lines (a @ b) = (case full_lines b of [] \<Rightarrow> ([], a @ frag b) | l # ls \<Rightarrow> ((a @ l) # ls, frag b))"
  by (cases "split_lines b", induction a) (auto simp: full_lines_def frag_def split: prod.splits list.splits)

lemma full_append: "full_lines (a @ b) = full_lines a @ full_lines (frag a @ b)"
  using split_append[of a b] by (simp add: full_lines_def)

lemma split_one: "10 \<notin> set l \<Longrightarrow> split_lines (l @ 10 # r) = (l # full_lines r, frag r)"
  using split_prefix[of l "10 # r"] by (auto simp: full_lines_def frag_def split: prod.splits)

lemma split_none: "10 \<notin> set l \<Longrightarrow> split_lines l = ([], l)"
  using split_prefix[of l "[]"] by (simp add: full_lines_def frag_def)

lemma full_lines_none: "10 \<notin> set l \<Longrightarrow> full_lines l = []"
  by (simp add: full_lines_def split_none)

lemma full_lines_cut: "\<forall>k\<in>set ks. 10 \<notin> set k \<Longrightarrow> full_lines (concat (map with_newline ks) @ r) = ks @ full_lines r"
proof (induction ks)
  case (Cons k ks)
  then show ?case
    using split_one[of k "concat (map with_newline ks) @ r"] by (simp add: with_newline_def[of k] full_lines_def[of "k @ x" for x])
qed simp

lemma split_frag: "full_lines p = [] \<Longrightarrow> frag p = p"
  unfolding full_lines_def frag_def by (induction p) (auto split: prod.splits list.splits if_splits)

lemma frag_no_newline: "10 \<notin> set (frag p)"
  unfolding frag_def by (induction p) (auto split: prod.splits list.splits)

text \<open>The search ends before \<open>p\<close>: its first line, complete or not, holds a NUL, or has no newline yet.\<close>

definition halts :: "byte list \<Rightarrow> bool" where
  "halts p \<longleftrightarrow> 10 \<notin> set p \<or> full_lines p \<noteq> [] \<and> 0 \<in> set (hd (full_lines p))"

lemma halts_append: "halts p \<Longrightarrow> 10 \<notin> set p \<or> full_lines (p @ r) \<noteq> [] \<and> 0 \<in> set (hd (full_lines (p @ r)))"
  unfolding halts_def full_append[of p r] by auto

lemma halts_NUL: "10 \<notin> set l \<Longrightarrow> halts (l @ 0 # r)"
proof -
  assume l: "10 \<notin> set l"
  then have "split_lines ((l @ [0]) @ r) = (case full_lines r of [] \<Rightarrow> ([], (l @ [0]) @ frag r) | k # ks \<Rightarrow> (((l @ [0]) @ k) # ks, frag r))"
    by (intro split_prefix) simp
  moreover have "10 \<notin> set r" if "full_lines r = []"
    using that frag_no_newline[of r] split_none split_frag[of r] by simp
  ultimately show ?thesis using l by (auto simp: halts_def full_lines_def[of "l @ x" for x] split: list.splits)
qed

lemma grep_lines_spec:
  "\<exists>ks r. p = concat (map with_newline ks) @ r \<and> (\<forall>k\<in>set ks. 10 \<notin> set k \<and> 0 \<notin> set k) \<and> halts r \<and>
     grep_lines re p = (concat (map with_newline (filter (matches re) ks)), r)"
proof (induction re p rule: grep_lines.induct)
  case (1 re p)
  define line where "line = takeWhile (\<lambda>c. c \<noteq> 10 \<and> c \<noteq> 0) p"
  define q where "q = drop (length line) p"
  have g: "grep_lines re p = (if q \<noteq> [] \<and> hd q = 10
      then case grep_lines re (tl q) of (out, rest) \<Rightarrow> ((if match re line then line @ [10] else []) @ out, rest) else ([], p))"
    by (subst grep_lines.simps) (simp add: Let_def line_def q_def)
  have q: "q = dropWhile (\<lambda>c. c \<noteq> 10 \<and> c \<noteq> 0) p" unfolding q_def line_def by (rule dropWhile_eq_drop[symmetric])
  have p: "p = line @ q" unfolding line_def q by (rule takeWhile_dropWhile_id[symmetric])
  have line: "10 \<notin> set line" "0 \<notin> set line" unfolding line_def by (auto dest: set_takeWhileD)
  have hd: "q \<noteq> [] \<Longrightarrow> hd q = 10 \<or> hd q = 0"
    unfolding q using hd_dropWhile[of "\<lambda>c. c \<noteq> 10 \<and> c \<noteq> 0" p] by blast
  show ?case
  proof (cases "q \<noteq> [] \<and> hd q = 10")
    case False
    then have "halts p" using hd p line halts_NUL[OF line(1), of "tl q"] by (cases q) (auto simp: halts_def)
    then show ?thesis using g False by (intro exI[of _ "[]"] exI[of _ p]) auto
  next
    case True
    then obtain r where r: "q = 10 # r" by (metis list.collapse)
    from 1[OF line_def q_def True] r obtain ks r' where
      ih: "r = concat (map with_newline ks) @ r'" "\<forall>k\<in>set ks. 10 \<notin> set k \<and> 0 \<notin> set k" "halts r'"
      "grep_lines re r = (concat (map with_newline (filter (matches re) ks)), r')" by auto
    then have "grep_lines re p = (concat (map with_newline (filter (matches re) (line # ks))), r')"
      using g r by (simp add: match_matches with_newline_def[of line])
    moreover have "p = concat (map with_newline (line # ks)) @ r'" using p r ih(1) by (simp add: with_newline_def[of line])
    ultimately show ?thesis using ih(2,3) line by (intro exI[of _ "line # ks"] exI[of _ r']) simp
  qed
qed

text \<open>The lines that are searched: the loop stops at one that fills the buffer, and at a NUL.\<close>

definition searched :: "byte list \<Rightarrow> bool" where
  "searched l \<longleftrightarrow> length l + 1 < grep_bufsize \<and> 0 \<notin> set l"

lemma grep_loop_end:
  assumes "halts carry" "inp = [] \<or> grep_bufsize \<le> length carry + 1"
  shows "takeWhile searched (full_lines (carry @ inp)) = []"
proof (cases "10 \<in> set carry")
  case True
  then show ?thesis
    using halts_append[OF assms(1), of inp] by (cases "full_lines (carry @ inp)") (auto simp: searched_def)
next
  case False
  show ?thesis
  proof (cases "inp = []")
    case True
    then show ?thesis using False by (simp add: full_lines_none)
  next
    case ne: False
    then show ?thesis
      using assms(2) split_prefix[OF False, of inp] by (auto simp: full_lines_def searched_def split: list.splits)
  qed
qed

lemma grep_loop_spec:
  assumes rd: "\<And>i. rd i > 0"
  shows "halts carry \<Longrightarrow>
    grep_loop re rd i carry inp = concat (map with_newline (filter (matches re) (takeWhile searched (full_lines (carry @ inp)))))"
proof (induction "length inp" arbitrary: i carry inp rule: less_induct)
  case less
  define n where "n = min (grep_bufsize - length carry - 1) (min (rd i) (length inp))"
  have g: "grep_loop re rd i carry inp = (if n = 0 then []
      else case grep_lines re (carry @ take n inp) of (out, rest) \<Rightarrow> out @ grep_loop re rd (i + 1) rest (drop n inp))"
    by (subst grep_loop.simps) (simp only: Let_def n_def)
  show ?case
  proof (cases "n = 0")
    case True
    then have "inp = [] \<or> grep_bufsize \<le> length carry + 1"
      using rd[of i] by (auto simp: n_def min_def split: if_splits)
    with True g grep_loop_end[OF less.prems] show ?thesis by simp
  next
    case False
    from grep_lines_spec[of "carry @ take n inp" re] obtain ks r where
      d: "carry @ take n inp = concat (map with_newline ks) @ r" "\<forall>k\<in>set ks. 10 \<notin> set k \<and> 0 \<notin> set k" "halts r"
      "grep_lines re (carry @ take n inp) = (concat (map with_newline (filter (matches re) ks)), r)" by blast
    have "carry @ inp = concat (map with_newline ks) @ r @ drop n inp"
      using d(1) by (metis append.assoc append_take_drop_id)
    then have lines: "full_lines (carry @ inp) = ks @ full_lines (r @ drop n inp)" using full_lines_cut d(2) by simp
    have "length (concat (map with_newline ks)) < grep_bufsize"
      using arg_cong[OF d(1), of length] False by (simp add: n_def grep_bufsize_def min_def split: if_splits)
    then have "searched k" if "k \<in> set ks" for k
      using that d(2) sum_list_map_remove1[of k ks "\<lambda>l. Suc (length l)"]
      by (auto simp: searched_def length_concat with_newline_def comp_def)
    then have "takeWhile searched (full_lines (carry @ inp)) = ks @ takeWhile searched (full_lines (r @ drop n inp))"
      unfolding lines by simp
    moreover have "grep_loop re rd (i + 1) r (drop n inp) =
        concat (map with_newline (filter (matches re) (takeWhile searched (full_lines (r @ drop n inp)))))"
      using False by (intro less.hyps d(3)) (auto simp: n_def)
    ultimately show ?thesis using g d(4) False by simp
  qed
qed

section \<open>The properties\<close>

text \<open>C12. \<^verbatim>\<open>grep\<close> is right, and its output does not depend on how the input arrives, as long as each read delivers at
  least one byte of an input that has not ended. The lines searched are the complete lines up to the
  first one that has 1023 bytes or more, which fills the buffer, or that holds a NUL byte; nothing
  after it is searched. Of these lines, \<^verbatim>\<open>grep\<close> writes those in which the pattern occurs, in order and with their
  newlines. A pattern occurs in a line when, after \<^verbatim>\<open>^\<close> at the start of the line and otherwise anywhere, the
  line goes on with a word of the pattern's language, up to its end if the pattern ends in \<^verbatim>\<open>$\<close>.\<close>

theorem grep_prints_matching_lines:
  assumes "\<And>i. 0 < rd i"
  shows "grep re rd inp = concat (map with_newline (filter (matches re)
    (takeWhile (\<lambda>l. length l < 1023 \<and> 0 \<notin> set l) (full_lines inp))))"
proof -
  have "searched = (\<lambda>l. length l < 1023 \<and> 0 \<notin> set l)" by (auto simp: searched_def grep_bufsize_def fun_eq_iff)
  then show ?thesis using grep_loop_spec[where carry = "[]", OF assms] by (simp add: grep_def halts_def)
qed

text \<open>The lines \<^verbatim>\<open>ab\<close>, \<^verbatim>\<open>b\<close>, \<^verbatim>\<open>acc\<close>, one with a NUL, and \<^verbatim>\<open>b\<close> again, and the pattern \<^verbatim>\<open>^a*.$\<close>, read two bytes at a time.\<close>

theorem grep_prints_matching_lines_witness:
  "grep [94, 97, 42, 46, 36] (\<lambda>_. 2) [97, 98, 10, 98, 10, 97, 99, 99, 10, 0, 10, 98, 10] = [97, 98, 10, 98, 10] \<and>
   concat (map with_newline (filter (matches [94, 97, 42, 46, 36]) [[97, 98], [98], [97, 99, 99]])) = [97, 98, 10, 98, 10]"
proof -
  have "grep [94, 97, 42, 46, 36] (\<lambda>_. 2) [97, 98, 10, 98, 10, 97, 99, 99, 10, 0, 10, 98, 10] = [97, 98, 10, 98, 10]" by code_simp
  moreover have "full_lines [97, 98, 10, 98, 10, 97, 99, 99, 10, 0, 10, 98, 10] = [[97, 98], [98], [97, 99, 99], [0], [98]]"
    by (simp add: full_lines_def)
  ultimately show ?thesis
    using grep_prints_matching_lines[of "\<lambda>_. 2" "[94, 97, 42, 46, 36]" "[97, 98, 10, 98, 10, 97, 99, 99, 10, 0, 10, 98, 10]"] by simp
qed

end
