(* ===== verification/Xv6_Machine.thy ===== *)
theory Xv6_Machine
  imports Xv6_Trap
begin

text \<open>
  The assembly code of the kernel and the registers it works on: \<^verbatim>\<open>kernel/trampoline.S\<close>, \<^verbatim>\<open>kernel/kernelvec.S\<close>,
  \<^verbatim>\<open>kernel/swtch.S\<close> and \<^verbatim>\<open>kernel/entry.S\<close> as lists of instructions for a small machine, the register accessors of
  \<^verbatim>\<open>kernel/riscv.h\<close>, and the code that sets a core up, \<^verbatim>\<open>kernel/start.c\<close> and \<^verbatim>\<open>kernel/plic.c\<close>. The machine has the
  instructions that the code uses. A load or store of a double word goes to the physical
  address given by a translation of virtual addresses for the value of \<^verbatim>\<open>satp\<close>; in machine mode there is no
  translation. Control registers keep what is written to them; \<^verbatim>\<open>sret\<close> and \<^verbatim>\<open>mret\<close> also change the mode
  and the interrupt bits of the status register.

  Shown: a trap from user space and the return to it restore every register of the
  user program, and so do a trap taken in the kernel and a timer interrupt; \<^verbatim>\<open>swtch\<close> gives control back with
  the registers it was called with.
\<close>

section \<open>The machine\<close>

datatype reg = RA | SP | GP | TP | T0 | T1 | T2 | S0 | S1 | A0 | A1 | A2 | A3 | A4 | A5 | A6 | A7 | S2 | S3 | S4 | S5 | S6 | S7 | S8 | S9 | S10 | S11 | T3 | T4 | T5 | T6

datatype csreg = C_sscratch | C_satp | C_sstatus | C_sepc | C_stvec | C_scause | C_stval | C_sip | C_sie | C_mstatus | C_mepc | C_mie
  | C_medeleg | C_mideleg | C_mtvec | C_mscratch | C_mhartid | C_mcounteren | C_time | C_pmpaddr0 | C_pmpcfg0

datatype mode = Umode | Smode | Mmode

record core =
  gpr :: "reg \<Rightarrow> uint64"
  csr :: "csreg \<Rightarrow> uint64"
  cmem :: memory
  pc :: uint64
  cmode :: mode

datatype instr =
    Sd reg int reg            \<comment> \<open>\<^verbatim>\<open>sd r, off(b)\<close>\<close>
  | Ld reg int reg
  | Li reg uint64
  | Addi reg reg int
  | IAdd reg reg reg
  | IMul reg reg reg
  | Csrr reg csreg
  | Csrw csreg reg
  | Csrrw reg csreg reg
  | Sfence_vma
  | Jr reg
  | Sret
  | Mret

definition put_gpr :: "reg \<Rightarrow> uint64 \<Rightarrow> core \<Rightarrow> core" where
  "put_gpr r v c = c\<lparr>gpr := (gpr c)(r := v)\<rparr>"

definition put_csr :: "csreg \<Rightarrow> uint64 \<Rightarrow> core \<Rightarrow> core" where
  "put_csr r v c = c\<lparr>csr := (csr c)(r := v)\<rparr>"

definition ea :: "(uint64 \<Rightarrow> nat \<Rightarrow> nat) \<Rightarrow> reg \<Rightarrow> int \<Rightarrow> core \<Rightarrow> nat" where
  "ea xl b off c = (let va = unat (gpr c b + of_int off) in if cmode c = Mmode then va else xl (csr c C_satp) va)"

definition MSTATUS_MPP_MASK :: uint64 where "MSTATUS_MPP_MASK = push_bit 11 3"
definition MSTATUS_MPP_S :: uint64 where "MSTATUS_MPP_S = push_bit 11 1"
definition MSTATUS_MIE :: uint64 where "MSTATUS_MIE = push_bit 3 1"

text \<open>The previous privilege and interrupt bits come back.\<close>

definition do_sret :: "core \<Rightarrow> core" where
  "do_sret c =
     (let st = csr c C_sstatus; sie = (if st AND SSTATUS_SPIE \<noteq> 0 then SSTATUS_SIE else 0)
      in put_csr C_sstatus ((st AND NOT (SSTATUS_SPP OR SSTATUS_SIE)) OR SSTATUS_SPIE OR sie)
           (c\<lparr>pc := csr c C_sepc, cmode := (if st AND SSTATUS_SPP \<noteq> 0 then Smode else Umode)\<rparr>))"

definition do_mret :: "core \<Rightarrow> core" where
  "do_mret c =
     (let st = csr c C_mstatus; mpp = st AND MSTATUS_MPP_MASK; mie = (if bit st 7 then MSTATUS_MIE else 0)
      in put_csr C_mstatus ((st AND NOT (MSTATUS_MPP_MASK OR MSTATUS_MIE)) OR push_bit 7 1 OR mie)
           (c\<lparr>pc := csr c C_mepc, cmode := (if mpp = 0 then Umode else if mpp = MSTATUS_MPP_S then Smode else Mmode)\<rparr>))"

fun exec1 :: "(uint64 \<Rightarrow> nat \<Rightarrow> nat) \<Rightarrow> instr \<Rightarrow> core \<Rightarrow> core" where
  "exec1 xl (Sd r off b) c = c\<lparr>cmem := wr64 (cmem c) (ea xl b off c) (gpr c r)\<rparr>"
| "exec1 xl (Ld r off b) c = put_gpr r (rd64 (cmem c) (ea xl b off c)) c"
| "exec1 xl (Li r v) c = put_gpr r v c"
| "exec1 xl (Addi r a i) c = put_gpr r (gpr c a + of_int i) c"
| "exec1 xl (IAdd r a b) c = put_gpr r (gpr c a + gpr c b) c"
| "exec1 xl (IMul r a b) c = put_gpr r (gpr c a * gpr c b) c"
| "exec1 xl (Csrr r k) c = put_gpr r (csr c k) c"
| "exec1 xl (Csrw k r) c = put_csr k (gpr c r) c"
| "exec1 xl (Csrrw r k a) c = put_csr k (gpr c a) (put_gpr r (csr c k) c)"
| "exec1 xl Sfence_vma c = c"
| "exec1 xl (Jr r) c = c\<lparr>pc := gpr c r\<rparr>"
| "exec1 xl Sret c = do_sret c"
| "exec1 xl Mret c = do_mret c"

definition run :: "(uint64 \<Rightarrow> nat \<Rightarrow> nat) \<Rightarrow> instr list \<Rightarrow> core \<Rightarrow> core" where
  "run xl is c = fold (exec1 xl) is c"

section \<open>The code\<close>

definition uservec :: "instr list" where
  "uservec =
   [Csrw C_sscratch A0, Li A0 TRAPFRAME, Sd RA 40 A0, Sd SP 48 A0, Sd GP 56 A0, Sd TP 64 A0, Sd T0 72 A0,
    Sd T1 80 A0, Sd T2 88 A0, Sd S0 96 A0, Sd S1 104 A0, Sd A1 120 A0, Sd A2 128 A0, Sd A3 136 A0,
    Sd A4 144 A0, Sd A5 152 A0, Sd A6 160 A0, Sd A7 168 A0, Sd S2 176 A0, Sd S3 184 A0, Sd S4 192 A0,
    Sd S5 200 A0, Sd S6 208 A0, Sd S7 216 A0, Sd S8 224 A0, Sd S9 232 A0, Sd S10 240 A0, Sd S11 248 A0,
    Sd T3 256 A0, Sd T4 264 A0, Sd T5 272 A0, Sd T6 280 A0, Csrr T0 C_sscratch, Sd T0 112 A0, Ld SP 8 A0,
    Ld TP 32 A0, Ld T0 16 A0, Ld T1 0 A0, Sfence_vma, Csrw C_satp T1, Sfence_vma, Jr T0]"

definition userret :: "instr list" where
  "userret =
   [Sfence_vma, Csrw C_satp A0, Sfence_vma, Li A0 TRAPFRAME, Ld RA 40 A0, Ld SP 48 A0, Ld GP 56 A0,
    Ld TP 64 A0, Ld T0 72 A0, Ld T1 80 A0, Ld T2 88 A0, Ld S0 96 A0, Ld S1 104 A0, Ld A1 120 A0, Ld A2 128 A0,
    Ld A3 136 A0, Ld A4 144 A0, Ld A5 152 A0, Ld A6 160 A0, Ld A7 168 A0, Ld S2 176 A0, Ld S3 184 A0,
    Ld S4 192 A0, Ld S5 200 A0, Ld S6 208 A0, Ld S7 216 A0, Ld S8 224 A0, Ld S9 232 A0, Ld S10 240 A0,
    Ld S11 248 A0, Ld T3 256 A0, Ld T4 264 A0, Ld T5 272 A0, Ld T6 280 A0, Ld A0 112 A0, Sret]"

definition swtch :: "instr list" where
  "swtch =
   [Sd RA 0 A0, Sd SP 8 A0, Sd S0 16 A0, Sd S1 24 A0, Sd S2 32 A0, Sd S3 40 A0, Sd S4 48 A0, Sd S5 56 A0,
    Sd S6 64 A0, Sd S7 72 A0, Sd S8 80 A0, Sd S9 88 A0, Sd S10 96 A0, Sd S11 104 A0, Ld RA 0 A1, Ld SP 8 A1,
    Ld S0 16 A1, Ld S1 24 A1, Ld S2 32 A1, Ld S3 40 A1, Ld S4 48 A1, Ld S5 56 A1, Ld S6 64 A1, Ld S7 72 A1,
    Ld S8 80 A1, Ld S9 88 A1, Ld S10 96 A1, Ld S11 104 A1, Jr RA]"

text \<open>Before and after the call of \<^verbatim>\<open>kerneltrap\<close>.\<close>

definition kernelvec_save :: "instr list" where
  "kernelvec_save =
   [Addi SP SP (-256), Sd RA 0 SP, Sd SP 8 SP, Sd GP 16 SP, Sd TP 24 SP, Sd T0 32 SP, Sd T1 40 SP, Sd T2 48 SP,
    Sd S0 56 SP, Sd S1 64 SP, Sd A0 72 SP, Sd A1 80 SP, Sd A2 88 SP, Sd A3 96 SP, Sd A4 104 SP, Sd A5 112 SP,
    Sd A6 120 SP, Sd A7 128 SP, Sd S2 136 SP, Sd S3 144 SP, Sd S4 152 SP, Sd S5 160 SP, Sd S6 168 SP,
    Sd S7 176 SP, Sd S8 184 SP, Sd S9 192 SP, Sd S10 200 SP, Sd S11 208 SP, Sd T3 216 SP, Sd T4 224 SP,
    Sd T5 232 SP, Sd T6 240 SP]"

definition kernelvec_restore :: "instr list" where
  "kernelvec_restore =
   [Ld RA 0 SP, Ld SP 8 SP, Ld GP 16 SP, Ld T0 32 SP, Ld T1 40 SP, Ld T2 48 SP, Ld S0 56 SP, Ld S1 64 SP,
    Ld A0 72 SP, Ld A1 80 SP, Ld A2 88 SP, Ld A3 96 SP, Ld A4 104 SP, Ld A5 112 SP, Ld A6 120 SP, Ld A7 128 SP,
    Ld S2 136 SP, Ld S3 144 SP, Ld S4 152 SP, Ld S5 160 SP, Ld S6 168 SP, Ld S7 176 SP, Ld S8 184 SP,
    Ld S9 192 SP, Ld S10 200 SP, Ld S11 208 SP, Ld T3 216 SP, Ld T4 224 SP, Ld T5 232 SP, Ld T6 240 SP,
    Addi SP SP 256, Sret]"

definition kernelvec :: "(uint64 \<Rightarrow> nat \<Rightarrow> nat) \<Rightarrow> (core \<Rightarrow> core) \<Rightarrow> core \<Rightarrow> core" where
  "kernelvec xl handler c = run xl kernelvec_restore (handler (run xl kernelvec_save c))"

definition timervec :: "instr list" where
  "timervec =
   [Csrrw A0 C_mscratch A0, Sd A1 0 A0, Sd A2 8 A0, Sd A3 16 A0, Ld A1 24 A0, Ld A2 32 A0, Ld A3 0 A1,
    IAdd A3 A3 A2, Sd A3 0 A1, Li A1 2, Csrw C_sip A1, Ld A3 16 A0, Ld A2 8 A0, Ld A1 0 A0,
    Csrrw A0 C_mscratch A0, Mret]"

text \<open>Up to the call of \<^verbatim>\<open>start\<close>; \<open>stack0\<close> is the address of the stacks.\<close>

definition entry :: "uint64 \<Rightarrow> instr list" where
  "entry stack0 = [Li SP stack0, Li A0 (1024 * 4), Csrr A1 C_mhartid, Addi A1 A1 1, IMul A0 A0 A1, IAdd SP SP A0]"


section \<open>Register accessors\<close>

definition r_mhartid :: "core \<Rightarrow> uint64" where "r_mhartid c = csr c C_mhartid"
definition r_mstatus :: "core \<Rightarrow> uint64" where "r_mstatus c = csr c C_mstatus"
definition r_sstatus :: "core \<Rightarrow> uint64" where "r_sstatus c = csr c C_sstatus"
definition r_sip :: "core \<Rightarrow> uint64" where "r_sip c = csr c C_sip"
definition r_sie :: "core \<Rightarrow> uint64" where "r_sie c = csr c C_sie"
definition r_mie :: "core \<Rightarrow> uint64" where "r_mie c = csr c C_mie"
definition r_sepc :: "core \<Rightarrow> uint64" where "r_sepc c = csr c C_sepc"
definition r_medeleg :: "core \<Rightarrow> uint64" where "r_medeleg c = csr c C_medeleg"
definition r_mideleg :: "core \<Rightarrow> uint64" where "r_mideleg c = csr c C_mideleg"
definition r_stvec :: "core \<Rightarrow> uint64" where "r_stvec c = csr c C_stvec"
definition r_satp :: "core \<Rightarrow> uint64" where "r_satp c = csr c C_satp"
definition r_scause :: "core \<Rightarrow> uint64" where "r_scause c = csr c C_scause"
definition r_stval :: "core \<Rightarrow> uint64" where "r_stval c = csr c C_stval"
definition r_mcounteren :: "core \<Rightarrow> uint64" where "r_mcounteren c = csr c C_mcounteren"
definition r_time :: "core \<Rightarrow> uint64" where "r_time c = csr c C_time"

definition w_mstatus :: "uint64 \<Rightarrow> core \<Rightarrow> core" where "w_mstatus x c = put_csr C_mstatus x c"
definition w_mepc :: "uint64 \<Rightarrow> core \<Rightarrow> core" where "w_mepc x c = put_csr C_mepc x c"
definition w_sstatus :: "uint64 \<Rightarrow> core \<Rightarrow> core" where "w_sstatus x c = put_csr C_sstatus x c"
definition w_sip :: "uint64 \<Rightarrow> core \<Rightarrow> core" where "w_sip x c = put_csr C_sip x c"
definition w_sie :: "uint64 \<Rightarrow> core \<Rightarrow> core" where "w_sie x c = put_csr C_sie x c"
definition w_mie :: "uint64 \<Rightarrow> core \<Rightarrow> core" where "w_mie x c = put_csr C_mie x c"
definition w_sepc :: "uint64 \<Rightarrow> core \<Rightarrow> core" where "w_sepc x c = put_csr C_sepc x c"
definition w_medeleg :: "uint64 \<Rightarrow> core \<Rightarrow> core" where "w_medeleg x c = put_csr C_medeleg x c"
definition w_mideleg :: "uint64 \<Rightarrow> core \<Rightarrow> core" where "w_mideleg x c = put_csr C_mideleg x c"
definition w_stvec :: "uint64 \<Rightarrow> core \<Rightarrow> core" where "w_stvec x c = put_csr C_stvec x c"
definition w_mtvec :: "uint64 \<Rightarrow> core \<Rightarrow> core" where "w_mtvec x c = put_csr C_mtvec x c"
definition w_pmpcfg0 :: "uint64 \<Rightarrow> core \<Rightarrow> core" where "w_pmpcfg0 x c = put_csr C_pmpcfg0 x c"
definition w_pmpaddr0 :: "uint64 \<Rightarrow> core \<Rightarrow> core" where "w_pmpaddr0 x c = put_csr C_pmpaddr0 x c"
definition w_satp :: "uint64 \<Rightarrow> core \<Rightarrow> core" where "w_satp x c = put_csr C_satp x c"
definition w_mscratch :: "uint64 \<Rightarrow> core \<Rightarrow> core" where "w_mscratch x c = put_csr C_mscratch x c"
definition w_mcounteren :: "uint64 \<Rightarrow> core \<Rightarrow> core" where "w_mcounteren x c = put_csr C_mcounteren x c"

definition r_sp :: "core \<Rightarrow> uint64" where "r_sp c = gpr c SP"
definition r_tp :: "core \<Rightarrow> uint64" where "r_tp c = gpr c TP"
definition w_tp :: "uint64 \<Rightarrow> core \<Rightarrow> core" where "w_tp x c = put_gpr TP x c"
definition r_ra :: "core \<Rightarrow> uint64" where "r_ra c = gpr c RA"

definition intr_on :: "core \<Rightarrow> core" where "intr_on c = w_sstatus (r_sstatus c OR SSTATUS_SIE) c"
definition intr_off :: "core \<Rightarrow> core" where "intr_off c = w_sstatus (r_sstatus c AND NOT SSTATUS_SIE) c"
definition intr_get :: "core \<Rightarrow> bool" where "intr_get c \<longleftrightarrow> r_sstatus c AND SSTATUS_SIE \<noteq> 0"

definition cpuid :: "core \<Rightarrow> int" where "cpuid c = sint (ucast (r_tp c) :: 32 word)"

section \<open>Starting a core\<close>

definition SIE_SEIE :: uint64 where "SIE_SEIE = push_bit 9 1"
definition SIE_STIE :: uint64 where "SIE_STIE = push_bit 5 1"
definition SIE_SSIE :: uint64 where "SIE_SSIE = push_bit 1 1"
definition MIE_MTIE :: uint64 where "MIE_MTIE = push_bit 7 1"

definition CLINT :: nat where "CLINT = 0x2000000"
definition CLINT_MTIMECMP :: "nat \<Rightarrow> nat" where "CLINT_MTIMECMP h = CLINT + 0x4000 + 8 * h"
definition CLINT_MTIME :: nat where "CLINT_MTIME = CLINT + 0xBFF8"

text \<open>The addresses of \<^verbatim>\<open>timer_scratch\<close>, \<^verbatim>\<open>timervec\<close> and \<^verbatim>\<open>main\<close> are given.\<close>

definition timerinit :: "nat \<Rightarrow> uint64 \<Rightarrow> core \<Rightarrow> core" where
  "timerinit timer_scratch timervec_addr c =
     (let hid = unat (r_mhartid c); interval = 1000000;
          c = c\<lparr>cmem := wr64 (cmem c) (CLINT_MTIMECMP hid) (rd64 (cmem c) CLINT_MTIME + interval)\<rparr>;
          scratch = timer_scratch + 40 * hid;
          c = c\<lparr>cmem := wr64 (wr64 (cmem c) (scratch + 24) (of_nat (CLINT_MTIMECMP hid))) (scratch + 32) interval\<rparr>;
          c = w_mscratch (of_nat scratch) c;
          c = w_mtvec timervec_addr c;
          c = w_mstatus (r_mstatus c OR MSTATUS_MIE) c
      in w_mie (r_mie c OR MIE_MTIE) c)"

definition start :: "nat \<Rightarrow> uint64 \<Rightarrow> uint64 \<Rightarrow> core \<Rightarrow> core" where
  "start timer_scratch timervec_addr main_addr c =
     (let c = w_mstatus ((r_mstatus c AND NOT MSTATUS_MPP_MASK) OR MSTATUS_MPP_S) c;
          c = w_mepc main_addr c;
          c = w_satp 0 c;
          c = w_medeleg 0xffff c;
          c = w_mideleg 0xffff c;
          c = w_sie (r_sie c OR SIE_SEIE OR SIE_STIE OR SIE_SSIE) c;
          c = w_pmpaddr0 0x3fffffffffffff c;
          c = w_pmpcfg0 0xf c;
          c = timerinit timer_scratch timervec_addr c;
          c = w_tp (r_mhartid c) c
      in do_mret c)"

section \<open>The interrupt controller\<close>

definition PLIC_SENABLE :: "nat \<Rightarrow> nat" where "PLIC_SENABLE hart = PLIC + 0x2080 + hart * 0x100"
definition PLIC_SPRIORITY :: "nat \<Rightarrow> nat" where "PLIC_SPRIORITY hart = PLIC + 0x201000 + hart * 0x2000"
definition PLIC_SCLAIM :: "nat \<Rightarrow> nat" where "PLIC_SCLAIM hart = PLIC + 0x201004 + hart * 0x2000"

definition plicinit :: "core \<Rightarrow> core" where
  "plicinit c = c\<lparr>cmem := wr32 (wr32 (cmem c) (PLIC + nat UART0_IRQ * 4) 1) (PLIC + nat VIRTIO0_IRQ * 4) 1\<rparr>"

definition plicinithart :: "core \<Rightarrow> core" where
  "plicinithart c =
     (let hart = nat (cpuid c)
      in c\<lparr>cmem := wr32 (wr32 (cmem c) (PLIC_SENABLE hart) (push_bit (nat UART0_IRQ) 1 OR push_bit (nat VIRTIO0_IRQ) 1)) (PLIC_SPRIORITY hart) 0\<rparr>)"

definition plic_claim :: "core \<Rightarrow> int" where
  "plic_claim c = sint (rd32 (cmem c) (PLIC_SCLAIM (nat (cpuid c))))"

definition plic_complete :: "int \<Rightarrow> core \<Rightarrow> core" where
  "plic_complete i c = c\<lparr>cmem := wr32 (cmem c) (PLIC_SCLAIM (nat (cpuid c))) (of_int i)\<rparr>"

section \<open>Saving and restoring registers\<close>

lemma run_simps [simp]: "run xl [] c = c" "run xl (i # is) c = run xl is (exec1 xl i c)"
  by (simp_all add: run_def)

lemma run_append: "run xl (is @ js) c = run xl js (run xl is c)"
  by (simp add: run_def)

lemma put_simps [simp]:
  "gpr (put_gpr r v c) = (gpr c)(r := v)" "csr (put_gpr r v c) = csr c" "cmem (put_gpr r v c) = cmem c" "pc (put_gpr r v c) = pc c"
  "cmode (put_gpr r v c) = cmode c" "gpr (put_csr k v c) = gpr c" "csr (put_csr k v c) = (csr c)(k := v)"
  "cmem (put_csr k v c) = cmem c" "pc (put_csr k v c) = pc c" "cmode (put_csr k v c) = cmode c"
  by (simp_all add: put_gpr_def put_csr_def)

lemma ret_simps [simp]:
  "gpr (do_sret c) = gpr c" "cmem (do_sret c) = cmem c" "pc (do_sret c) = csr c C_sepc" "csr (do_sret c) C_satp = csr c C_satp"
  "gpr (do_mret c) = gpr c" "cmem (do_mret c) = cmem c" "pc (do_mret c) = csr c C_mepc"
  "k \<noteq> C_mstatus \<Longrightarrow> csr (do_mret c) k = csr c k"
  by (simp_all add: do_sret_def do_mret_def Let_def)

definition saves :: "(reg \<times> int) list \<Rightarrow> reg \<Rightarrow> instr list" where
  "saves tab b = map (\<lambda>(r, off). Sd r off b) tab"

definition loads :: "(reg \<times> int) list \<Rightarrow> reg \<Rightarrow> instr list" where
  "loads tab b = map (\<lambda>(r, off). Ld r off b) tab"

text \<open>Offsets that are distinct multiples of 8 below \<open>n\<close>.\<close>

definition slots_ok :: "int \<Rightarrow> (reg \<times> int) list \<Rightarrow> bool" where
  "slots_ok n tab \<longleftrightarrow> distinct (map snd tab) \<and> (\<forall>(r, off)\<in>set tab. 0 \<le> off \<and> off < n \<and> off mod 8 = 0)"

text \<open>The area of \<open>n\<close> bytes that register \<open>b\<close> points to is at physical address \<open>a\<close>.\<close>

definition area_at :: "(uint64 \<Rightarrow> nat \<Rightarrow> nat) \<Rightarrow> reg \<Rightarrow> int \<Rightarrow> nat \<Rightarrow> core \<Rightarrow> bool" where
  "area_at xl b n a c \<longleftrightarrow> (\<forall>off. 0 \<le> off \<and> off < n \<longrightarrow> ea xl b off c = a + nat off)"

lemma area_at_cong:
  "gpr c' b = gpr c b \<Longrightarrow> csr c' C_satp = csr c C_satp \<Longrightarrow> cmode c' = cmode c \<Longrightarrow> area_at xl b n a c' = area_at xl b n a c"
  by (simp add: area_at_def ea_def Let_def)

lemma run_saves:
  assumes "slots_ok n tab" "area_at xl b n a c"
  defines "c' \<equiv> run xl (saves tab b) c"
  shows "gpr c' = gpr c \<and> csr c' = csr c \<and> pc c' = pc c \<and> cmode c' = cmode c \<and>
    (\<forall>(r, off)\<in>set tab. rd64 (cmem c') (a + nat off) = gpr c r) \<and>
    (\<forall>x. (\<forall>(r, off)\<in>set tab. x + 8 \<le> a + nat off \<or> a + nat off + 8 \<le> x) \<longrightarrow> rd64 (cmem c') x = rd64 (cmem c) x)"
  using assms(1,2) unfolding c'_def
proof (induction tab arbitrary: c)
  case Nil
  then show ?case by (simp add: saves_def)
next
  case (Cons ro tab)
  obtain r off where ro: "ro = (r, off)" by (cases ro)
  let ?d = "c\<lparr>cmem := wr64 (cmem c) (a + nat off) (gpr c r)\<rparr>"
  have off: "0 \<le> off" "off < n" "off mod 8 = 0" and ok: "slots_ok n tab"
    and new: "\<And>r' off'. (r', off') \<in> set tab \<Longrightarrow> off' \<noteq> off \<and> off' mod 8 = 0 \<and> 0 \<le> off'"
    using Cons.prems(1) ro by (force simp: slots_ok_def)+
  have ea: "ea xl b off c = a + nat off" using Cons.prems(2) off by (simp add: area_at_def)
  have area: "area_at xl b n a ?d" using Cons.prems(2) by (simp add: area_at_cong[of ?d b c])
  have step: "run xl (saves (ro # tab) b) c = run xl (saves tab b) ?d" by (simp add: saves_def ro ea)
  note IH = Cons.IH[OF ok area]
  have apart: "a + nat off + 8 \<le> a + nat off' \<or> a + nat off' + 8 \<le> a + nat off" if "(r', off') \<in> set tab" for r' off'
  proof -
    have "off + 8 \<le> off' \<or> off' + 8 \<le> off" using new[OF that] off(3) by presburger
    with off(1) new[OF that] show ?thesis by auto
  qed
  have first: "rd64 (cmem (run xl (saves tab b) ?d)) (a + nat off) = gpr c r"
  proof -
    have "rd64 (cmem (run xl (saves tab b) ?d)) (a + nat off) = rd64 (cmem ?d) (a + nat off)"
      using IH apart by blast
    then show ?thesis by (simp add: rd_wr_same)
  qed
  show ?case
    unfolding step using IH first by (auto simp: ro rd_wr_disj)
qed

lemma run_loads:
  fixes xl :: "uint64 \<Rightarrow> nat \<Rightarrow> nat" and c :: core
  assumes "distinct (map fst tab)" "b \<notin> fst ` set tab"
  defines "c' \<equiv> run xl (loads tab b) c"
  shows "csr c' = csr c \<and> cmem c' = cmem c \<and> pc c' = pc c \<and> cmode c' = cmode c \<and>
    (\<forall>(r, off)\<in>set tab. gpr c' r = rd64 (cmem c) (ea xl b off c)) \<and> (\<forall>r. r \<notin> fst ` set tab \<longrightarrow> gpr c' r = gpr c r)"
  using assms(1,2) unfolding c'_def
proof (induction tab arbitrary: c)
  case Nil
  then show ?case by (simp add: loads_def)
next
  case (Cons ro tab)
  obtain r off where ro: "ro = (r, off)" by (cases ro)
  let ?d = "put_gpr r (rd64 (cmem c) (ea xl b off c)) c"
  have tab: "distinct (map fst tab)" "b \<notin> fst ` set tab" "r \<notin> fst ` set tab" "r \<noteq> b" using Cons.prems ro by auto
  have step: "run xl (loads (ro # tab) b) c = run xl (loads tab b) ?d" by (simp add: loads_def ro)
  have ea: "ea xl b x ?d = ea xl b x c" for x using tab(4) by (simp add: ea_def Let_def)
  from Cons.IH[OF tab(1,2), of ?d] tab(3) show ?case unfolding step by (auto simp: ro ea)
qed

section \<open>Traps from user space\<close>

text \<open>The registers in the order of \<^verbatim>\<open>struct trapframe\<close>.\<close>

definition tf_regs :: "reg list" where
  "tf_regs = [RA, SP, GP, TP, T0, T1, T2, S0, S1, A0, A1, A2, A3, A4, A5, A6, A7, S2, S3, S4, S5, S6, S7, S8, S9, S10, S11, T3, T4, T5, T6]"

definition tf_tab :: "(reg \<times> int) list" where
  "tf_tab = zip tf_regs (map (\<lambda>i. 40 + 8 * int i) [0..<31])"

definition tf_off :: "reg \<Rightarrow> int" where
  "tf_off r = the (map_of tf_tab r)"

text \<open>The table without \<^verbatim>\<open>a0\<close>, which holds the address of the trap frame.\<close>

definition tf_rest :: "(reg \<times> int) list" where
  "tf_rest = filter (\<lambda>(r, off). r \<noteq> A0) tf_tab"

lemma tf_tab_eq: "tf_tab =
  [(RA, 40), (SP, 48), (GP, 56), (TP, 64), (T0, 72), (T1, 80), (T2, 88), (S0, 96), (S1, 104), (A0, 112), (A1, 120), (A2, 128),
   (A3, 136), (A4, 144), (A5, 152), (A6, 160), (A7, 168), (S2, 176), (S3, 184), (S4, 192), (S5, 200), (S6, 208), (S7, 216),
   (S8, 224), (S9, 232), (S10, 240), (S11, 248), (T3, 256), (T4, 264), (T5, 272), (T6, 280)]"
  by code_simp

lemma tf_rest_eq: "tf_rest =
  [(RA, 40), (SP, 48), (GP, 56), (TP, 64), (T0, 72), (T1, 80), (T2, 88), (S0, 96), (S1, 104), (A1, 120), (A2, 128),
   (A3, 136), (A4, 144), (A5, 152), (A6, 160), (A7, 168), (S2, 176), (S3, 184), (S4, 192), (S5, 200), (S6, 208), (S7, 216),
   (S8, 224), (S9, 232), (S10, 240), (S11, 248), (T3, 256), (T4, 264), (T5, 272), (T6, 280)]"
  by code_simp

lemma tf_rest_ok: "slots_ok 288 tf_rest" "distinct (map fst tf_rest)" "A0 \<notin> fst ` set tf_rest"
  by (simp_all add: tf_rest_eq slots_ok_def)

lemma tf_rest_off: "r \<noteq> A0 \<Longrightarrow> (r, tf_off r) \<in> set tf_rest"
  by (cases r) (simp_all add: tf_off_def tf_tab_eq tf_rest_eq)

lemma tf_off_range: "r \<noteq> A0 \<Longrightarrow> 0 \<le> tf_off r \<and> tf_off r < 288 \<and> (tf_off r + 8 \<le> 112 \<or> 120 \<le> tf_off r)"
  by (cases r) (simp_all add: tf_off_def tf_tab_eq)

lemma tf_off_A0: "tf_off A0 = 112"
  by (simp add: tf_off_def tf_tab_eq)

lemma uservec_split:
  "uservec = [Csrw C_sscratch A0, Li A0 TRAPFRAME] @ saves tf_rest A0 @
     [Csrr T0 C_sscratch, Sd T0 112 A0, Ld SP 8 A0, Ld TP 32 A0, Ld T0 16 A0, Ld T1 0 A0, Sfence_vma, Csrw C_satp T1, Sfence_vma, Jr T0]"
  by (simp add: uservec_def saves_def tf_rest_eq)

lemma userret_split:
  "userret = [Sfence_vma, Csrw C_satp A0, Sfence_vma, Li A0 TRAPFRAME] @ loads tf_rest A0 @ [Ld A0 112 A0, Sret]"
  by (simp add: userret_def loads_def tf_rest_eq)

lemma unat_small_int: "0 \<le> off \<Longrightarrow> off < 2 ^ 63 \<Longrightarrow> unat (of_int off :: uint64) = nat off"
  by (simp add: unsigned_of_int take_bit_int_eq_self)

text \<open>The user page table with the value \<open>u\<close> of \<^verbatim>\<open>satp\<close> maps \<^verbatim>\<open>TRAPFRAME\<close> to the trap frame at \<open>tf\<close>.\<close>

definition maps_trapframe :: "(uint64 \<Rightarrow> nat \<Rightarrow> nat) \<Rightarrow> uint64 \<Rightarrow> nat \<Rightarrow> bool" where
  "maps_trapframe xl u tf \<longleftrightarrow> (\<forall>i<PGSIZE. xl u (unat TRAPFRAME + i) = tf + i)"

lemma TRAPFRAME_off: "0 \<le> off \<Longrightarrow> off < 288 \<Longrightarrow> unat (TRAPFRAME + of_int off) = unat TRAPFRAME + nat off"
proof -
  assume off: "0 \<le> off" "off < 288"
  have T: "TRAPFRAME = 0x3FFFFFE000" by (simp add: TRAPFRAME_def TRAMPOLINE_def MAXVA_def PGSIZE_def)
  have o: "unat (of_int off :: uint64) = nat off" using off by (intro unat_small_int) auto
  show ?thesis unfolding unat_word_ariths(1) o using off by (simp add: T)
qed

lemma trapframe_area:
  assumes "maps_trapframe xl u tf" "gpr c A0 = TRAPFRAME" "csr c C_satp = u" "cmode c \<noteq> Mmode"
  shows "area_at xl A0 288 tf c"
  using assms TRAPFRAME_off by (auto simp: area_at_def ea_def Let_def maps_trapframe_def PGSIZE_def nat_less_iff)

lemma area_at_ea: "area_at xl b n a c \<Longrightarrow> 0 \<le> off \<Longrightarrow> off < n \<Longrightarrow> ea xl b off c = a + nat off"
  by (simp add: area_at_def)

lemma uservec_effect:
  assumes tf: "maps_trapframe xl (csr c C_satp) tf" and m: "cmode c = Smode"
  defines "c' \<equiv> run xl uservec c"
  shows "\<forall>r. rd64 (cmem c') (tf + nat (tf_off r)) = gpr c r"
    and "gpr c' SP = rd64 (cmem c) (tf + 8)" "gpr c' TP = rd64 (cmem c) (tf + 32)" "pc c' = rd64 (cmem c) (tf + 16)"
    "csr c' C_satp = rd64 (cmem c) tf" "cmode c' = Smode" "csr c' C_sepc = csr c C_sepc" "csr c' C_sstatus = csr c C_sstatus"
proof -
  define c0 where "c0 = put_gpr A0 TRAPFRAME (put_csr C_sscratch (gpr c A0) c)"
  define c1 where "c1 = run xl (saves tf_rest A0) c0"
  have a0: "area_at xl A0 288 tf c0" by (rule trapframe_area[OF tf]) (simp_all add: c0_def m)
  note s = run_saves[OF tf_rest_ok(1) a0, folded c1_def]
  define c2 where "c2 = put_gpr T0 (gpr c A0) c1"
  define c3 where "c3 = c2\<lparr>cmem := wr64 (cmem c2) (tf + 112) (gpr c A0)\<rparr>"
  have g: "gpr c3 A0 = TRAPFRAME" "csr c3 = csr c0" "cmode c3 = Smode" using s by (simp_all add: c3_def c2_def c0_def m)
  have a2: "area_at xl A0 288 tf c2" by (subst area_at_cong[of c2 A0 c0]) (use a0 s in \<open>simp_all add: c2_def\<close>)
  have run: "run xl uservec c = run xl [Ld SP 8 A0, Ld TP 32 A0, Ld T0 16 A0, Ld T1 0 A0, Sfence_vma, Csrw C_satp T1, Sfence_vma, Jr T0] c3"
    using s area_at_ea[OF a2, of 112] by (simp add: uservec_split run_append c0_def[symmetric] c1_def[symmetric] c3_def c2_def) (simp add: c0_def)
  have ea: "ea xl A0 off d = tf + nat off" if "0 \<le> off" "off < 288" "gpr d A0 = gpr c3 A0" "csr d = csr c3" "cmode d = cmode c3" for off d
    using that area_at_ea[OF trapframe_area[OF tf, of d]] g by (simp add: c0_def)
  have old: "rd64 (cmem c3) (tf + k) = rd64 (cmem c) (tf + k)" if "k + 8 \<le> 40" for k
    using that s by (auto simp: c3_def c2_def c0_def rd_wr_disj tf_rest_eq)
  have mem: "rd64 (cmem c3) (tf + nat (tf_off r)) = gpr c r" for r
  proof (cases "r = A0")
    case True
    then show ?thesis by (simp add: tf_off_A0 c3_def rd_wr_same)
  next
    case False
    from s have "\<forall>(r, off)\<in>set tf_rest. rd64 (cmem c1) (tf + nat off) = gpr c0 r" by blast
    from bspec[OF this tf_rest_off[OF False]] have v: "rd64 (cmem c1) (tf + nat (tf_off r)) = gpr c0 r" by simp
    have "tf + nat (tf_off r) + 8 \<le> tf + 112 \<or> tf + 112 + 8 \<le> tf + nat (tf_off r)" using tf_off_range[OF False] by auto
    with v False show ?thesis by (simp add: c3_def c2_def rd_wr_disj c0_def)
  qed
  show "\<forall>r. rd64 (cmem c') (tf + nat (tf_off r)) = gpr c r" using mem by (simp add: c'_def run)
  show "gpr c' SP = rd64 (cmem c) (tf + 8)" "gpr c' TP = rd64 (cmem c) (tf + 32)" "pc c' = rd64 (cmem c) (tf + 16)"
    "csr c' C_satp = rd64 (cmem c) tf" "cmode c' = Smode"
    using old[of 8] old[of 32] old[of 16] old[of 0] g by (simp_all add: c'_def run ea)
  show "csr c' C_sepc = csr c C_sepc" "csr c' C_sstatus = csr c C_sstatus" using g by (simp_all add: c'_def run c0_def)
qed

lemma userret_effect:
  assumes tf: "maps_trapframe xl (gpr c A0) tf" and m: "cmode c = Smode"
  defines "c' \<equiv> run xl userret c"
  shows "gpr c' r = rd64 (cmem c) (tf + nat (tf_off r))" "csr c' C_satp = gpr c A0" "pc c' = csr c C_sepc"
    "cmode c' = (if csr c C_sstatus AND SSTATUS_SPP \<noteq> 0 then Smode else Umode)" "cmem c' = cmem c"
proof -
  define c0 where "c0 = put_gpr A0 TRAPFRAME (put_csr C_satp (gpr c A0) c)"
  define c1 where "c1 = run xl (loads tf_rest A0) c0"
  have a0: "area_at xl A0 288 tf c0" by (rule trapframe_area[OF tf]) (simp_all add: c0_def m)
  note l = run_loads[OF tf_rest_ok(2,3), where xl = xl and c = c0, folded c1_def]
  have A0: "gpr c1 A0 = gpr c0 A0" using l tf_rest_ok(3) by blast
  have "area_at xl A0 288 tf c1" by (subst area_at_cong[of c1 A0 c0]) (use a0 l A0 in simp_all)
  from area_at_ea[OF this, of 112] have run: "run xl userret c = do_sret (put_gpr A0 (rd64 (cmem c1) (tf + 112)) c1)"
    by (simp add: userret_split run_append c0_def[symmetric] c1_def[symmetric])
  have "gpr c1 r = rd64 (cmem c) (tf + nat (tf_off r))" if "r \<noteq> A0" for r
  proof -
    from l have "\<forall>(r, off)\<in>set tf_rest. gpr c1 r = rd64 (cmem c0) (ea xl A0 off c0)" by blast
    from bspec[OF this tf_rest_off[OF that]] tf_off_range[OF that]
    have "gpr c1 r = rd64 (cmem c0) (ea xl A0 (tf_off r) c0)" "0 \<le> tf_off r" "tf_off r < 288" by simp_all
    with area_at_ea[OF a0, of "tf_off r"] show ?thesis by (simp add: c0_def)
  qed
  with l show "gpr c' r = rd64 (cmem c) (tf + nat (tf_off r))"
    by (cases "r = A0") (simp_all add: c'_def run tf_off_A0 c0_def)
  show "csr c' C_satp = gpr c A0" "pc c' = csr c C_sepc" "cmem c' = cmem c" using l by (simp_all add: c'_def run c0_def)
  show "cmode c' = (if csr c C_sstatus AND SSTATUS_SPP \<noteq> 0 then Smode else Umode)"
    using l by (simp add: c'_def run c0_def do_sret_def Let_def)
qed

section \<open>Traps in the kernel\<close>

definition ktab :: "(reg \<times> int) list" where
  "ktab = zip tf_regs (map (\<lambda>i. 8 * int i) [0..<31])"

definition k_off :: "reg \<Rightarrow> int" where
  "k_off r = tf_off r - 40"

definition krest :: "(reg \<times> int) list" where
  "krest = filter (\<lambda>(r, off). r \<notin> {RA, SP, TP}) ktab"

lemma ktab_eq: "ktab =
  [(RA, 0), (SP, 8), (GP, 16), (TP, 24), (T0, 32), (T1, 40), (T2, 48), (S0, 56), (S1, 64), (A0, 72), (A1, 80), (A2, 88),
   (A3, 96), (A4, 104), (A5, 112), (A6, 120), (A7, 128), (S2, 136), (S3, 144), (S4, 152), (S5, 160), (S6, 168), (S7, 176),
   (S8, 184), (S9, 192), (S10, 200), (S11, 208), (T3, 216), (T4, 224), (T5, 232), (T6, 240)]"
  by code_simp

lemma krest_eq: "krest =
  [(GP, 16), (T0, 32), (T1, 40), (T2, 48), (S0, 56), (S1, 64), (A0, 72), (A1, 80), (A2, 88),
   (A3, 96), (A4, 104), (A5, 112), (A6, 120), (A7, 128), (S2, 136), (S3, 144), (S4, 152), (S5, 160), (S6, 168), (S7, 176),
   (S8, 184), (S9, 192), (S10, 200), (S11, 208), (T3, 216), (T4, 224), (T5, 232), (T6, 240)]"
  by (simp add: krest_def ktab_eq)

lemma ktab_ok: "slots_ok 256 ktab" "distinct (map fst krest)" "SP \<notin> fst ` set krest"
  by (simp_all add: ktab_eq krest_eq slots_ok_def)

lemma k_off_in: "(r, k_off r) \<in> set ktab" "r \<notin> {RA, SP, TP} \<Longrightarrow> (r, k_off r) \<in> set krest" "0 \<le> k_off r \<and> k_off r < 248"
  by (cases r; simp add: k_off_def tf_off_def tf_tab_eq ktab_eq krest_eq)+

lemma kernelvec_split:
  "kernelvec_save = [Addi SP SP (-256)] @ saves ktab SP"
  "kernelvec_restore = [Ld RA 0 SP, Ld SP 8 SP] @ loads krest SP @ [Addi SP SP 256, Sret]"
  by (simp_all add: kernelvec_save_def kernelvec_restore_def saves_def loads_def ktab_eq krest_eq)

text \<open>The 256 bytes below the stack pointer are at physical address \<open>st\<close>.\<close>

definition stack_below :: "(uint64 \<Rightarrow> nat \<Rightarrow> nat) \<Rightarrow> nat \<Rightarrow> core \<Rightarrow> bool" where
  "stack_below xl st c \<longleftrightarrow> cmode c = Smode \<and> area_at xl SP 256 st (put_gpr SP (gpr c SP - 256) c)"

text \<open>What the C code that is called keeps: the stack pointer, the address space and the saved registers.\<close>

definition keeps_frame :: "nat \<Rightarrow> core \<Rightarrow> core \<Rightarrow> bool" where
  "keeps_frame st c d \<longleftrightarrow> gpr d SP = gpr c SP \<and> csr d C_satp = csr c C_satp \<and> cmode d = cmode c \<and>
     (\<forall>i. st \<le> i \<and> i < st + 256 \<longrightarrow> cmem d i = cmem c i)"

lemma kernelvec_effect:
  assumes st: "stack_below xl st c" and keep: "keeps_frame st (run xl kernelvec_save c) (handler (run xl kernelvec_save c))"
  defines "d \<equiv> handler (run xl kernelvec_save c)"
  shows "r \<noteq> TP \<Longrightarrow> gpr (kernelvec xl handler c) r = gpr c r" "gpr (kernelvec xl handler c) TP = gpr d TP"
    "pc (kernelvec xl handler c) = csr d C_sepc" "cmem (kernelvec xl handler c) = cmem d"
proof -
  define c0 where "c0 = put_gpr SP (gpr c SP - 256) c"
  define c1 where "c1 = run xl (saves ktab SP) c0"
  have a0: "area_at xl SP 256 st c0" and m: "cmode c0 = Smode" using st by (simp_all add: stack_below_def c0_def)
  have save: "run xl kernelvec_save c = c1" by (simp add: kernelvec_split run_append c1_def c0_def)
  note s = run_saves[OF ktab_ok(1) a0, folded c1_def]
  have k: "gpr d SP = gpr c0 SP" "csr d C_satp = csr c0 C_satp" "cmode d = cmode c0"
    using keep s by (simp_all add: keeps_frame_def d_def save)
  have mem: "rd64 (cmem d) (st + nat (k_off r)) = gpr c0 r" for r
  proof -
    from s have "\<forall>(r, off)\<in>set ktab. rd64 (cmem c1) (st + nat off) = gpr c0 r" by blast
    from bspec[OF this k_off_in(1)] have v: "rd64 (cmem c1) (st + nat (k_off r)) = gpr c0 r" by simp
    have "rd64 (cmem d) (st + nat (k_off r)) = rd64 (cmem c1) (st + nat (k_off r))"
      by (rule rd_cong(2)) (use keep k_off_in(3)[of r] in \<open>auto simp: keeps_frame_def d_def save\<close>)
    with v show ?thesis by simp
  qed
  have ad: "area_at xl SP 256 st e" if "gpr e SP = gpr c0 SP" "csr e C_satp = csr c0 C_satp" "cmode e = cmode c0" for e
    by (subst area_at_cong[of e SP c0]) (use a0 that in simp_all)
  define e where "e = put_gpr SP (gpr c0 SP) (put_gpr RA (gpr c0 RA) d)"
  define f where "f = run xl (loads krest SP) e"
  have offs: "k_off RA = 0" "k_off SP = 8" by (simp_all add: k_off_def tf_off_def tf_tab_eq)
  have e: "run xl [Ld RA 0 SP, Ld SP 8 SP] d = e"
    using mem[of RA] mem[of SP] area_at_ea[OF ad[of d], of 0] area_at_ea[OF ad[of "put_gpr RA (gpr c0 RA) d"], of 8] k
    by (simp add: e_def offs)
  note l = run_loads[OF ktab_ok(2,3), where xl = xl and c = e, folded f_def]
  have res: "kernelvec xl handler c = do_sret (put_gpr SP (gpr f SP + 256) f)"
    unfolding kernelvec_def kernelvec_split(2) run_append d_def[symmetric] e f_def[symmetric] by simp
  have f: "gpr f r = gpr c0 r" if "r \<noteq> TP" for r
  proof (cases "r \<in> {RA, SP}")
    case True
    then have "r \<notin> fst ` set krest" by (auto simp: krest_eq)
    with l have "gpr f r = gpr e r" by blast
    with True show ?thesis by (auto simp: e_def)
  next
    case False
    from l have "\<forall>(r, off)\<in>set krest. gpr f r = rd64 (cmem e) (ea xl SP off e)" by blast
    from bspec[OF this k_off_in(2)] False that have "gpr f r = rd64 (cmem e) (ea xl SP (k_off r) e)" by simp
    with area_at_ea[OF ad[of e], of "k_off r"] k_off_in(3)[of r] mem[of r] k show ?thesis by (simp add: e_def)
  qed
  show "gpr (kernelvec xl handler c) r = gpr c r" if "r \<noteq> TP"
    using f[of r] f[of SP] that by (auto simp: res c0_def)
  have "TP \<notin> fst ` set krest" by (auto simp: krest_eq)
  with l have "gpr f TP = gpr e TP" by blast
  then show "gpr (kernelvec xl handler c) TP = gpr d TP" by (simp add: res e_def)
  show "pc (kernelvec xl handler c) = csr d C_sepc" "cmem (kernelvec xl handler c) = cmem d" using l by (simp_all add: res e_def)
qed

section \<open>Context switches\<close>

text \<open>\<^verbatim>\<open>struct context\<close>.\<close>

definition ctx :: "(reg \<times> int) list" where
  "ctx = [(RA, 0), (SP, 8), (S0, 16), (S1, 24), (S2, 32), (S3, 40), (S4, 48), (S5, 56), (S6, 64), (S7, 72), (S8, 80), (S9, 88), (S10, 96), (S11, 104)]"

lemma ctx_ok: "slots_ok 112 ctx" "distinct (map fst ctx)" "A1 \<notin> fst ` set ctx"
  by (simp_all add: ctx_def slots_ok_def)

lemma swtch_split: "swtch = saves ctx A0 @ loads ctx A1 @ [Jr RA]"
  by (simp add: swtch_def saves_def loads_def ctx_def)

lemma swtch_effect:
  assumes "area_at xl A0 112 p c" "area_at xl A1 112 q c" "p + 112 \<le> q \<or> q + 112 \<le> p"
  defines "c' \<equiv> run xl swtch c"
  shows "\<forall>(r, off)\<in>set ctx. rd64 (cmem c') (p + nat off) = gpr c r \<and> gpr c' r = rd64 (cmem c) (q + nat off)"
    and "pc c' = gpr c' RA" "\<forall>r. r \<notin> fst ` set ctx \<longrightarrow> gpr c' r = gpr c r"
proof -
  define c1 where "c1 = run xl (saves ctx A0) c"
  define c2 where "c2 = run xl (loads ctx A1) c1"
  note s = run_saves[OF ctx_ok(1) assms(1), folded c1_def]
  note l = run_loads[OF ctx_ok(2,3), where xl = xl and c = c1, folded c2_def]
  have c': "c' = c2\<lparr>pc := gpr c2 RA\<rparr>" by (simp add: c'_def swtch_split run_append c1_def c2_def)
  have a1: "area_at xl A1 112 q c1" by (subst area_at_cong[of c1 A1 c]) (use s assms(2) in simp_all)
  have "rd64 (cmem c1) (p + nat off) = gpr c r \<and> gpr c2 r = rd64 (cmem c) (q + nat off)" if ro: "(r, off) \<in> set ctx" for r off
  proof -
    from ctx_ok(1) ro have off: "0 \<le> off" "off < 112" "off mod 8 = 0" by (auto simp: slots_ok_def)
    have within: "0 \<le> o' \<and> o' + 8 \<le> 112" if "(r', o') \<in> set ctx" for r' o' using that by (auto simp: ctx_def)
    have "gpr c2 r = rd64 (cmem c1) (q + nat off)" using l ro area_at_ea[OF a1 off(1,2)] by force
    also have "\<dots> = rd64 (cmem c) (q + nat off)"
    proof -
      have "\<forall>(r', o')\<in>set ctx. q + nat off + 8 \<le> p + nat o' \<or> p + nat o' + 8 \<le> q + nat off"
        using assms(3) within within[OF ro] by force
      with s show ?thesis by blast
    qed
    finally show ?thesis using s ro by auto
  qed
  with l show "\<forall>(r, off)\<in>set ctx. rd64 (cmem c') (p + nat off) = gpr c r \<and> gpr c' r = rd64 (cmem c) (q + nat off)"
    by (auto simp: c')
  show "pc c' = gpr c' RA" "\<forall>r. r \<notin> fst ` set ctx \<longrightarrow> gpr c' r = gpr c r" using l s by (auto simp: c')
qed

section \<open>Timer interrupts\<close>

text \<open>The scratch area of a core at \<open>s\<close> with the address \<open>t\<close> of its timer, apart from each other.\<close>

definition scratch_ok :: "nat \<Rightarrow> nat \<Rightarrow> core \<Rightarrow> bool" where
  "scratch_ok s t c \<longleftrightarrow> csr c C_mscratch = of_nat s \<and> rd64 (cmem c) (s + 24) = of_nat t \<and> s + 40 < 2 ^ 64 \<and> t + 8 < 2 ^ 64 \<and>
     (s + 40 \<le> t \<or> t + 8 \<le> s)"

lemma unat_at: "s + 40 < 2 ^ 64 \<Longrightarrow> 0 \<le> off \<Longrightarrow> off < 40 \<Longrightarrow> unat (of_nat s + of_int off :: uint64) = s + nat off"
proof -
  assume a: "s + 40 < 2 ^ 64" "0 \<le> off" "off < 40"
  have "unat (of_int off :: uint64) = nat off" using a by (intro unat_small_int) auto
  moreover have "unat (of_nat s :: uint64) = s" using a by (simp add: unat_of_nat)
  ultimately show ?thesis using a by (simp add: unat_word_ariths)
qed

definition tick_mem :: "nat \<Rightarrow> nat \<Rightarrow> core \<Rightarrow> memory" where
  "tick_mem s t c = wr64 (wr64 (wr64 (wr64 (cmem c) s (gpr c A1)) (s + 8) (gpr c A2)) (s + 16) (gpr c A3))
     t (rd64 (cmem c) t + rd64 (cmem c) (s + 32))"

lemma timervec_run:
  assumes ok: "scratch_ok s t c" and m: "cmode c = Mmode"
  shows "run xl timervec c = do_mret (c\<lparr>csr := (csr c)(C_sip := 2), cmem := tick_mem s t c\<rparr>)"
proof -
  have s: "csr c C_mscratch = of_nat s" "rd64 (cmem c) (s + 24) = of_nat t" and apart: "s + 40 \<le> t \<or> t + 8 \<le> s"
    and lt: "s + 40 < 2 ^ 64" "t + 8 < 2 ^ 64" using ok by (simp_all add: scratch_ok_def)
  have ut: "unat (of_nat t :: uint64) = t" "unat (of_nat s :: uint64) = s" using lt by (simp_all add: unat_of_nat)
  have at: "unat (of_nat s + 8 :: uint64) = s + 8" "unat (of_nat s + 16 :: uint64) = s + 16" "unat (of_nat s + 24 :: uint64) = s + 24"
    "unat (of_nat s + 32 :: uint64) = s + 32"
    using unat_at[OF lt(1), of 8] unat_at[OF lt(1), of 16] unat_at[OF lt(1), of 24] unat_at[OF lt(1), of 32] by simp_all
  define m1 where "m1 = wr64 (wr64 (wr64 (cmem c) s (gpr c A1)) (s + 8) (gpr c A2)) (s + 16) (gpr c A3)"
  have r1: "rd64 m1 (s + 24) = of_nat t" "rd64 m1 (s + 32) = rd64 (cmem c) (s + 32)" "rd64 m1 t = rd64 (cmem c) t"
    using apart s(2) by (auto simp: m1_def rd_wr_disj)
  have tm: "tick_mem s t c = wr64 m1 t (rd64 (cmem c) t + rd64 (cmem c) (s + 32))" by (simp add: tick_mem_def m1_def)
  have r2: "rd64 (tick_mem s t c) s = gpr c A1" "rd64 (tick_mem s t c) (s + 8) = gpr c A2" "rd64 (tick_mem s t c) (s + 16) = gpr c A3"
    using apart by (auto simp: tick_mem_def rd_wr_disj rd_wr_same)
  have "run xl (take 8 timervec) c =
      c\<lparr>gpr := (gpr c)(A0 := of_nat s, A1 := of_nat t, A2 := rd64 (cmem c) (s + 32), A3 := rd64 (cmem c) t + rd64 (cmem c) (s + 32)),
        csr := (csr c)(C_mscratch := gpr c A0), cmem := m1\<rparr>"
    using r1 by (simp add: timervec_def ea_def Let_def m s at ut m1_def[symmetric] put_gpr_def put_csr_def fun_upd_twist)
  then have "run xl timervec c = run xl (drop 8 timervec)
      (c\<lparr>gpr := (gpr c)(A0 := of_nat s, A1 := of_nat t, A2 := rd64 (cmem c) (s + 32), A3 := rd64 (cmem c) t + rd64 (cmem c) (s + 32)),
        csr := (csr c)(C_mscratch := gpr c A0), cmem := m1\<rparr>)"
    by (metis append_take_drop_id run_append)
  also have "\<dots> = do_mret (c\<lparr>gpr := gpr c, csr := (csr c)(C_sip := 2), cmem := tick_mem s t c\<rparr>)"
    using r2 by (simp add: timervec_def ea_def Let_def m at ut tm[symmetric] put_gpr_def put_csr_def fun_upd_twist)
      (rule arg_cong[where f = do_mret], use s(1) in \<open>auto simp: fun_eq_iff\<close>)
  finally show ?thesis by simp
qed

lemma timervec_effect:
  assumes ok: "scratch_ok s t c" and m: "cmode c = Mmode"
  shows "gpr (run xl timervec c) = gpr c \<and> csr (run xl timervec c) C_mscratch = csr c C_mscratch \<and>
    csr (run xl timervec c) C_sip = 2 \<and> pc (run xl timervec c) = csr c C_mepc \<and>
    rd64 (cmem (run xl timervec c)) t = rd64 (cmem c) t + rd64 (cmem c) (s + 32) \<and>
    (\<forall>x. (x < s \<or> s + 24 \<le> x) \<and> (x < t \<or> t + 8 \<le> x) \<longrightarrow> cmem (run xl timervec c) x = cmem c x)"
  unfolding timervec_run[OF assms] by (auto simp: tick_mem_def rd_wr_same wr_out)

section \<open>The properties\<close>

text \<open>C9. Trap entry and exit from user space are transparent. \<^verbatim>\<open>uservec\<close> stores each of the 31 user registers in its field of the trap
  frame, and enters the kernel at the address, with the stack, the hart id and the page table that the
  trap frame names. If the kernel then leaves the saved registers as they are, \<^verbatim>\<open>userret\<close> with the user page
  table brings every register back and goes to \<^verbatim>\<open>sepc\<close> in user mode; a field that the kernel changed, as for the
  result of a system call, is what the user program gets in that register.\<close>

theorem user_trap_roundtrip:
  assumes tf: "maps_trapframe xl u tf" and c: "csr c C_satp = u" "cmode c = Smode"
    and d: "gpr d A0 = u" "cmode d = Smode" "csr d C_sstatus AND SSTATUS_SPP = 0"
  shows "pc (run xl uservec c) = rd64 (cmem c) (tf + TF_kernel_trap) \<and> gpr (run xl uservec c) SP = rd64 (cmem c) (tf + TF_kernel_sp) \<and>
    gpr (run xl uservec c) TP = rd64 (cmem c) (tf + TF_kernel_hartid) \<and> csr (run xl uservec c) C_satp = rd64 (cmem c) (tf + TF_kernel_satp) \<and>
    pc (run xl userret d) = csr d C_sepc \<and> cmode (run xl userret d) = Umode \<and> csr (run xl userret d) C_satp = u \<and>
    (\<forall>r. gpr (run xl userret d) r =
      (if rd64 (cmem d) (tf + nat (tf_off r)) = rd64 (cmem (run xl uservec c)) (tf + nat (tf_off r)) then gpr c r
       else rd64 (cmem d) (tf + nat (tf_off r))))"
  using uservec_effect[of xl c tf] userret_effect[of xl d tf] assms
  by (simp add: TF_kernel_trap_def TF_kernel_sp_def TF_kernel_hartid_def TF_kernel_satp_def)

text \<open>C39. Interrupts in the kernel are transparent to the code they interrupt. \<^verbatim>\<open>kernelvec\<close> around a handler that keeps the stack
  pointer, the address space and the 256 bytes below the interrupted stack pointer returns to \<^verbatim>\<open>sepc\<close> with every
  register as before, except \<^verbatim>\<open>tp\<close>, which is the handler's, since the thread may have moved to another core.
  \<^verbatim>\<open>timervec\<close> returns to \<^verbatim>\<open>mepc\<close> with every register and \<^verbatim>\<open>mscratch\<close> as before, raises the software interrupt, moves
  the next timer interrupt by the interval and touches no other memory than its scratch area.\<close>

theorem kernel_traps_transparent:
  assumes k: "stack_below xl st c" "keeps_frame st (run xl kernelvec_save c) (handler (run xl kernelvec_save c))"
    and t: "scratch_ok s t e" "cmode e = Mmode"
  shows "(\<forall>r. gpr (kernelvec xl handler c) r = (if r = TP then gpr (handler (run xl kernelvec_save c)) TP else gpr c r)) \<and>
    pc (kernelvec xl handler c) = csr (handler (run xl kernelvec_save c)) C_sepc \<and>
    gpr (run xl timervec e) = gpr e \<and> csr (run xl timervec e) C_mscratch = csr e C_mscratch \<and> csr (run xl timervec e) C_sip = 2 \<and>
    pc (run xl timervec e) = csr e C_mepc \<and> rd64 (cmem (run xl timervec e)) t = rd64 (cmem e) t + rd64 (cmem e) (s + 32) \<and>
    (\<forall>x. (x < s \<or> s + 24 \<le> x) \<and> (x < t \<or> t + 8 \<le> x) \<longrightarrow> cmem (run xl timervec e) x = cmem e x)"
  using kernelvec_effect[where handler = handler, OF k] timervec_effect[OF t] by simp

text \<open>C40. Context switches come back. \<^verbatim>\<open>swtch(old, new)\<close> saves the return address, the stack pointer and the callee-saved
  registers in \<^verbatim>\<open>old\<close> and continues where \<^verbatim>\<open>new\<close> says; when later, on any core, \<^verbatim>\<open>swtch\<close> loads \<^verbatim>\<open>old\<close> and it has not been changed,
  the first thread goes on at its return address with all these registers as they were.\<close>

theorem swtch_resumes:
  assumes c: "area_at xl A0 112 old c" "area_at xl A1 112 new c" "old + 112 \<le> new \<or> new + 112 \<le> old"
    and d: "area_at xl A0 112 other d" "area_at xl A1 112 old d" "other + 112 \<le> old \<or> old + 112 \<le> other"
    and kept: "\<And>i. old \<le> i \<Longrightarrow> i < old + 112 \<Longrightarrow> cmem d i = cmem (run xl swtch c) i"
  shows "(\<forall>(r, off)\<in>set ctx. gpr (run xl swtch c) r = rd64 (cmem c) (new + nat off)) \<and>
    (\<forall>r\<in>fst ` set ctx. gpr (run xl swtch d) r = gpr c r) \<and> pc (run xl swtch d) = gpr c RA"
proof -
  have "gpr (run xl swtch d) r = gpr c r" if ro: "(r, off) \<in> set ctx" for r off
  proof -
    have off: "0 \<le> off" "off + 8 \<le> 112" using ro by (auto simp: ctx_def)
    have "gpr (run xl swtch d) r = rd64 (cmem d) (old + nat off)" using swtch_effect(1)[OF d] ro by auto
    also have "\<dots> = rd64 (cmem (run xl swtch c)) (old + nat off)" by (rule rd_cong(2)) (use kept off in auto)
    also have "\<dots> = gpr c r" using swtch_effect(1)[OF c] ro by auto
    finally show ?thesis .
  qed
  moreover have "(RA, 0) \<in> set ctx" by (simp add: ctx_def)
  ultimately show ?thesis using swtch_effect(1)[OF c] swtch_effect(2)[OF d] by auto
qed

section \<open>Examples\<close>

text \<open>A core with \<open>v\<close> in every control register.\<close>

definition core_at :: "(reg \<Rightarrow> uint64) \<Rightarrow> uint64 \<Rightarrow> memory \<Rightarrow> mode \<Rightarrow> core" where
  "core_at g v m k = \<lparr>gpr = g, csr = (\<lambda>_. v), cmem = m, pc = 0, cmode = k\<rparr>"

definition tf_xl :: "uint64 \<Rightarrow> nat \<Rightarrow> nat" where
  "tf_xl u va = va - unat TRAPFRAME + 4096"

definition user_core :: core where
  "user_core = core_at (\<lambda>r. if r = S3 then 42 else 7) 5 (\<lambda>_. 1) Smode"

definition back_core :: core where
  "back_core = core_at (\<lambda>_. 5) 5 (cmem (run tf_xl uservec user_core)) Smode"

theorem user_trap_roundtrip_witness:
  "gpr (run tf_xl userret back_core) S3 = 42 \<and> gpr (run tf_xl userret back_core) A0 = 7 \<and> pc (run tf_xl userret back_core) = 5"
proof -
  have "maps_trapframe tf_xl 5 4096" by (simp add: maps_trapframe_def tf_xl_def)
  from user_trap_roundtrip[OF this, of user_core back_core] show ?thesis
    by (simp add: user_core_def back_core_def core_at_def SSTATUS_SPP_def)
qed

lemma area_identity:
  assumes "gpr c b = of_nat a" "a + nat n < 2 ^ 63"
  shows "area_at (\<lambda>_ va. va) b n a c"
proof -
  have "unat (of_nat a + of_int off :: uint64) = a + nat off" if o: "0 \<le> off" "off < n" for off
  proof -
    have "unat (of_int off :: uint64) = nat off" using o assms(2) by (intro unat_small_int) auto
    moreover have "unat (of_nat a :: uint64) = a" using assms(2) by (simp add: unat_of_nat)
    ultimately show ?thesis using o assms(2) by (simp add: unat_word_ariths)
  qed
  with assms(1) show ?thesis by (simp add: area_at_def ea_def Let_def)
qed

definition kernel_core :: core where
  "kernel_core = core_at (\<lambda>r. if r = SP then 1000 else 7) 5 (\<lambda>_. 1) Smode"

definition machine_core :: core where
  "machine_core = core_at (\<lambda>r. 7) 2000 (wr64 (\<lambda>_. 1) 2024 3000) Mmode"

theorem kernel_traps_transparent_witness:
  "gpr (kernelvec (\<lambda>_ va. va) (put_gpr T0 3) kernel_core) T0 = 7 \<and> gpr (run (\<lambda>_ va. va) timervec machine_core) A1 = 7"
proof -
  have k: "stack_below (\<lambda>_ va. va) 744 kernel_core"
    unfolding stack_below_def by (intro conjI area_identity) (simp_all add: kernel_core_def core_at_def)
  have h: "keeps_frame 744 x (put_gpr T0 3 x)" for x by (simp add: keeps_frame_def)
  have s: "scratch_ok 2000 3000 machine_core" by (simp add: scratch_ok_def machine_core_def core_at_def rd_wr_same)
  have m: "cmode machine_core = Mmode" by (simp add: machine_core_def core_at_def)
  from kernel_traps_transparent[where handler = "put_gpr T0 3", OF k h s m] show ?thesis
    by (simp add: kernel_core_def machine_core_def core_at_def)
qed

definition first_thread :: core where
  "first_thread = core_at (\<lambda>r. if r = A0 then 1000 else if r = A1 then 2000 else 7) 5 (\<lambda>_. 1) Smode"

definition second_thread :: core where
  "second_thread = core_at (\<lambda>r. if r = A0 then 3000 else if r = A1 then 1000 else 8) 5 (cmem (run (\<lambda>_ va. va) swtch first_thread)) Smode"

theorem swtch_resumes_witness:
  "gpr (run (\<lambda>_ va. va) swtch second_thread) SP = 7 \<and> pc (run (\<lambda>_ va. va) swtch second_thread) = 7"
proof -
  have a: "area_at (\<lambda>_ va. va) A0 112 1000 first_thread" "area_at (\<lambda>_ va. va) A1 112 2000 first_thread"
    "area_at (\<lambda>_ va. va) A0 112 3000 second_thread" "area_at (\<lambda>_ va. va) A1 112 1000 second_thread"
    by (intro area_identity; simp add: first_thread_def second_thread_def core_at_def)+
  have m: "cmem second_thread = cmem (run (\<lambda>_ va. va) swtch first_thread)" by (simp add: second_thread_def core_at_def)
  have "(\<forall>r\<in>fst ` set ctx. gpr (run (\<lambda>_ va. va) swtch second_thread) r = gpr first_thread r) \<and>
      pc (run (\<lambda>_ va. va) swtch second_thread) = gpr first_thread RA"
    using swtch_resumes[OF a(1,2) _ a(3,4)] m by simp
  then show ?thesis by (simp add: ctx_def first_thread_def core_at_def)
qed

end
