(* ===== verification/Xv6_Main.thy ===== *)
theory Xv6_Main
  imports Xv6_Machine Xv6_Virtio
begin

text \<open>
  Booting, \<^verbatim>\<open>main\<close> of \<^verbatim>\<open>kernel/main.c\<close>: the initialisation routines of the components in the order in which the first
  core calls them, and what the other cores do. The state is that of the core, of the disk driver and of the
  kernel. Setting up spin locks (\<^verbatim>\<open>printfinit\<close>, \<^verbatim>\<open>trapinit\<close>, \<^verbatim>\<open>fileinit\<close>) and the boot messages have no
  counterpart.
\<close>

definition kvminit :: "nat \<Rightarrow> nat \<Rightarrow> 'a phys_scheme \<Rightarrow> (nat \<times> 'a phys_scheme) res" where
  "kvminit etext trampoline s = kvmmake etext trampoline s"

definition kvminithart :: "nat \<Rightarrow> core \<Rightarrow> core" where
  "kvminithart kernel_pagetable c = w_satp (MAKE_SATP kernel_pagetable) c"

definition trapinithart :: "uint64 \<Rightarrow> core \<Rightarrow> core" where
  "trapinithart kernelvec_addr c = w_stvec kernelvec_addr c"

definition main_first :: "(nat \<Rightarrow> uint32) \<Rightarrow> nat \<Rightarrow> uint64 \<Rightarrow> core \<Rightarrow> vdisk \<Rightarrow> kstate \<Rightarrow> (nat \<times> core \<times> vdisk \<times> kstate) res" where
  "main_first rd etext kernelvec_addr c d s =
     (let s = s\<lparr>cons := consoleinit (cons s)\<rparr> in
      bindR (kinit s) (\<lambda>s.
      bindR (kvminit etext (trampoline_pa s) s) (\<lambda>(kernel_pagetable, s).
      let c = kvminithart kernel_pagetable c;
          s = procinit s;
          c = plicinithart (plicinit (trapinithart kernelvec_addr c));
          s = iinit (binit s) in
      bindR (virtio_disk_init rd d s) (\<lambda>(d, s).
      bindR (userinit s) (\<lambda>s. Inr (kernel_pagetable, c, d, s))))))"

text \<open>The other cores, once \<^verbatim>\<open>started\<close> is set.\<close>

definition main_other :: "nat \<Rightarrow> uint64 \<Rightarrow> core \<Rightarrow> core" where
  "main_other kernel_pagetable kernelvec_addr c = plicinithart (trapinithart kernelvec_addr (kvminithart kernel_pagetable c))"

text \<open>After booting, every core runs in the kernel's page table with \<^verbatim>\<open>kernelvec\<close> as its trap vector.\<close>

lemma main_sets_core:
  "main_first rd etext v c d s = Inr (kpt, c', d', s') \<Longrightarrow> csr c' C_satp = MAKE_SATP kpt \<and> csr c' C_stvec = v"
  "csr (main_other kpt v c) C_satp = MAKE_SATP kpt \<and> csr (main_other kpt v c) C_stvec = v"
  by (auto simp: main_first_def main_other_def Let_def res_simps plicinit_def plicinithart_def trapinithart_def kvminithart_def w_stvec_def w_satp_def)

end
