(* ===== verification/Spec2Isabelle.thy ===== *)
theory Spec2Isabelle
  imports Xv6_Pipe Xv6_Locks Xv6_Txn Xv6_Serial Xv6_Trap Xv6_Lottery Xv6_Path Xv6_Inode Xv6_Usercopy Xv6_Virtio
    Xv6_Sleep Xv6_Shparse Xv6_Grep Xv6_Machine Xv6_Main
begin

text \<open>
  A verification development of a variant of the operating system xv6 for RISC-V: the teaching
  kernel with a lottery scheduler, mapped files, copy-on-write and program text loaded on demand.

  \<^bold>\<open>The program and its model.\<close> Every C routine is a function; a routine that can panic, sleep or end the
  process returns a value of type \<open>'a res\<close>, whose left side says why it did not return (theory \<open>Xv6_Prelude\<close>).
  Machine integers are words where they can wrap. Memory and disk blocks are functions from addresses
  to bytes. The state of the kernel is a chain of records, each extending the one before: physical memory and the page
  allocator (\<open>phys\<close>), the buffer cache (\<open>bcache\<close>), the log (\<open>logst\<close>), the file system (\<open>fstate\<close>), and processes,
  files, pipes, mapped areas and console (\<open>kstate\<close>); a routine is defined for every extension of the
  state it works on. A pointer into a table is the index plus one, 0 being null. The current process
  is an argument. A routine that sleeps in the middle returns \<open>Sleeps\<close> with its channel; the caller is
  run again when it is woken. Spin locks protect each step; their own correctness, and the interleaving of
  \<^verbatim>\<open>sleep\<close> and \<^verbatim>\<open>wakeup\<close>, are treated at the level of single instructions or statements.

  \<^bold>\<open>Theories and sources.\<close>
  \<^item> \<open>Xv6_Prelude\<close>, \<open>Xv6_Ring\<close>: results, loops, little-endian memory; ring buffers and the interface \<open>fifo\<close> that the pipe
    and the UART driver implement.
  \<^item> \<open>Xv6_Cstring\<close>: \<^verbatim>\<open>kernel/string.c\<close>, \<^verbatim>\<open>user/ulib.c\<close>. \<open>Xv6_Riscv\<close>: macros of \<^verbatim>\<open>kernel/riscv.h\<close> and \<^verbatim>\<open>kernel/memlayout.h\<close>.
  \<^item> \<open>Xv6_Kalloc\<close>: \<^verbatim>\<open>kernel/kalloc.c\<close>, with the interface \<open>page_allocator\<close>. \<open>Xv6_Vm\<close>: \<^verbatim>\<open>kernel/vm.c\<close>; \<open>Xv6_Pagetable\<close> and \<open>Xv6_Usercopy\<close>
    show that page tables are maps from pages to frames and that copies between kernel and user memory respect them.
  \<^item> \<open>Xv6_Locks\<close>: \<^verbatim>\<open>kernel/spinlock.c\<close>, \<^verbatim>\<open>kernel/sleeplock.c\<close>. \<open>Xv6_Sleep\<close>: \<^verbatim>\<open>sleep\<close> and \<^verbatim>\<open>wakeup\<close> of \<^verbatim>\<open>kernel/proc.c\<close>, by statements.
  \<^item> \<open>Xv6_Bio\<close>, \<open>Xv6_Bview\<close>: \<^verbatim>\<open>kernel/bio.c\<close> and its refinement to an abstract cache. \<open>Xv6_Log\<close>, \<open>Xv6_Crash\<close>, \<open>Xv6_Txn\<close>: \<^verbatim>\<open>kernel/log.c\<close>,
    atomicity under crashes, and the view of a transaction that the file system uses.
  \<^item> \<open>Xv6_Fs\<close>: \<^verbatim>\<open>kernel/fs.c\<close>; \<open>Xv6_Blocks\<close> (block allocation), \<open>Xv6_Inode\<close> (inodes and file contents), \<open>Xv6_Path\<close> (names).
  \<^item> \<open>Xv6_Kstate\<close>, \<open>Xv6_File\<close>, \<open>Xv6_Proc\<close>, \<open>Xv6_Sched\<close>, \<open>Xv6_Lottery\<close>: \<^verbatim>\<open>kernel/file.c\<close>, \<^verbatim>\<open>kernel/proc.c\<close>, \<^verbatim>\<open>kernel/random.c\<close>. \<open>Xv6_Zero\<close>
    holds the state at boot that examples start from.
  \<^item> \<open>Xv6_Args\<close>, \<open>Xv6_Exec\<close>, \<open>Xv6_Sysfile\<close>, \<open>Xv6_Sysproc\<close>, \<open>Xv6_Trap\<close>: \<^verbatim>\<open>kernel/syscall.c\<close>, \<^verbatim>\<open>kernel/exec.c\<close>, \<^verbatim>\<open>kernel/sysfile.c\<close>,
    \<^verbatim>\<open>kernel/sysproc.c\<close>, \<^verbatim>\<open>kernel/trap.c\<close>.
  \<^item> \<open>Xv6_Pipe\<close>, \<open>Xv6_Uart\<close>, \<open>Xv6_Console\<close>, \<open>Xv6_Printf\<close>, \<open>Xv6_Virtio\<close>: \<^verbatim>\<open>kernel/pipe.c\<close> and the drivers \<^verbatim>\<open>kernel/uart.c\<close>,
    \<^verbatim>\<open>kernel/console.c\<close>, \<^verbatim>\<open>kernel/printf.c\<close> (with \<^verbatim>\<open>user/printf.c\<close>), \<^verbatim>\<open>kernel/virtio_disk.c\<close>. \<open>Xv6_Serial\<close> interleaves everybody that writes to
    the serial port.
  \<^item> \<open>Xv6_Machine\<close>, \<open>Xv6_Main\<close>: the assembly files, register accessors, \<^verbatim>\<open>kernel/start.c\<close>, \<^verbatim>\<open>kernel/plic.c\<close>, \<^verbatim>\<open>kernel/main.c\<close>.
  \<^item> \<open>Xv6_Shparse\<close>, \<open>Xv6_Grep\<close>: the parser of \<^verbatim>\<open>user/sh.c\<close> and \<^verbatim>\<open>user/grep.c\<close>.

  \<^bold>\<open>What is shown.\<close> Storage: a transaction is all or nothing under a crash after any disk write, recovery
  works and may itself be interrupted, the cache is coherent and refines an abstract one, block allocation,
  inodes, file contents and path lookup are right on a mounted file system. Memory: no page is handed out
  twice, page tables map and unmap just the pages asked for, transfers to and from user memory are inverse to each other.
  Concurrency: spin locks exclude each other, no wakeup is lost, pipe, UART and disk driver keep order and ownership
  under every interleaving. Machine: traps, interrupts and context switches restore registers. Scheduling: the draw
  picks the owner of the ticket, and a turn runs that process first, and it alone unless it lowers its tickets meanwhile.
  User programs: the shell's parser returns on every line, with a well-formed command that has exactly the words of the
  line, and \<^verbatim>\<open>grep\<close> prints just the matching lines, up to a line that its buffer cannot hold. Some theorems
  show errors of the code: a page freed twice, a log that admits more than it holds, a killed writer that
  wakes no reader, copy-on-write that system calls circumvent, tickets whose sum overflows.

  \<^bold>\<open>Bounds and fuel.\<close> Most loops end by a measure. Fuel is used where the code follows pointers or calls itself: the
  list of buffers (\<open>NBUF\<close> steps) and the routines of the shell's parser (\<open>4 n + 4\<close> for \<open>n\<close>
  characters), for which it is shown that the fuel suffices; the recursion of \<^verbatim>\<open>freewalk\<close> (three levels, the depth of a page
  table); and the loop of \<^verbatim>\<open>munmap\<close> that writes a page back (\<open>PGSIZE\<close> turns, enough when each writes something; the code
  loops forever otherwise). Running out is the value \<open>Diverges\<close>, which also stands for a core that spins forever. The string routines
  without a bound are partial functions that are shown to return on terminated strings.

  \<^bold>\<open>Limits.\<close> The model is sequentially consistent and has no address translation caches, so that \<^verbatim>\<open>sfence.vma\<close> does nothing;
  \<^verbatim>\<open>sstatus\<close> and \<^verbatim>\<open>mstatus\<close> are separate registers. Messages that the kernel prints
  from other components are left out, except panics. A call that blocks is modelled up to the point
  where it sleeps; a process that waits in \<^verbatim>\<open>bget\<close> for the lock of a buffer is not counted among the
  buffer's references, which are unbounded integers. The disk always reports success, so that the
  panic of \<^verbatim>\<open>virtio_disk_intr\<close> on another status is not reached. Device registers that change by themselves are arguments. Addresses chosen by the
  linker are fields of the state or arguments. The layout of the disk is a hypothesis of the properties of the file system,
  satisfied by the example of a small disk.

  \<^bold>\<open>Not modelled.\<close> \<^verbatim>\<open>mkfs/mkfs.c\<close>, which runs on the host; the test programs; the user programs that only make
  a few system calls, including the part of the shell that runs commands; \<^verbatim>\<open>user/umalloc.c\<close>;
  \<^verbatim>\<open>kernel/ramdisk.c\<close>, which is not built; \<^verbatim>\<open>printref\<close>, which only prints; declarations, generated system
  call stubs and linker scripts.
\<close>

end
